(* ===== verification/LN_Prelude.thy ===== *)
theory LN_Prelude
  imports Main "HOL-Library.Word" "HOL-Library.Char_ord" "HOL-Library.List_Lexorder"
    "HOL-Library.Product_Lexorder"
begin

text \<open>
  Shared vocabulary of the development: the outcomes the C++ standard leaves undefined as
  error values, \<open>std::map\<close> as a key-ordered association list behind the dictionary
  interface, the \<open>ctype.h\<close> classifications the sources call, and the in-memory byte
  representation of machine integers on a little-endian host, and numbers in text.

  A C++ \<open>char\<close> is an Isabelle \<^typ>\<open>char\<close> (both are one byte), a byte sequence is a
  \<^typ>\<open>string\<close>, a \<open>uint32_t\<close> is a \<^typ>\<open>32 word\<close>.
\<close>

unbundle bit_operations_syntax

section \<open>Collections\<close>

text \<open>The definitions that open the predicates on slices, connections and servers; each theory adds its own.\<close>

named_theorems slice_defs and conn_defs and server_defs

section \<open>Undefined behaviour as values\<close>

text \<open>
  Where the C++ program would run into undefined behaviour or abort, the model returns
  \<open>Inl\<close> of one of these reasons; a normal outcome is \<open>Inr\<close>.
\<close>

datatype ub =
    NullDeref         \<comment> \<open>member access through a null pointer\<close>
  | OutOfBounds       \<comment> \<open>access outside an allocated block\<close>
  | UninitRead        \<comment> \<open>use of an indeterminate value\<close>
  | IterInvalid       \<comment> \<open>use of an iterator that is \<open>end()\<close> or whose element was erased\<close>
  | UseAfterFree      \<comment> \<open>member access on a destroyed object\<close>
  | BadCast           \<comment> \<open>an object used as one of another type\<close>
  | DivZero           \<comment> \<open>integer division by zero\<close>
  | BadClose          \<comment> \<open>\<open>close\<close> of a descriptor that is not open\<close>
  | NoReturn          \<comment> \<open>a call that does not return\<close>
  | Fatal             \<comment> \<open>\<open>fatal\<close>/\<open>fatalif\<close> of logging.h\<close>

type_synonym 'a res = "ub + 'a"

fun rbind :: "'a res \<Rightarrow> ('a \<Rightarrow> 'b res) \<Rightarrow> 'b res" where
  "rbind (Inl e) f = Inl e"
| "rbind (Inr x) f = f x"

lemma rbind_eq_Inr [simp]: "rbind m f = Inr y \<longleftrightarrow> (\<exists>x. m = Inr x \<and> f x = Inr y)"
  by (cases m) auto

lemma rbind_Inr_right [simp]: "rbind m Inr = m"
  by (cases m) auto

lemma rbind_assoc: "rbind (rbind m f) g = rbind m (\<lambda>x. rbind (f x) g)"
  by (cases m) auto

lemma rbind_cong [fundef_cong]:
  "m = m' \<Longrightarrow> (\<And>x. m' = Inr x \<Longrightarrow> f x = g x) \<Longrightarrow> rbind m f = rbind m' g"
  by (cases m') auto

section \<open>Dictionaries\<close>

text \<open>
  The part of the map interface the sources use. \<open>ok\<close> is the representation invariant.
  Clients reason with \<open>get\<close> after \<open>put\<close> and \<open>del\<close> only.
\<close>

locale dict =
  fixes emp :: "'m"
    and get :: "'m \<Rightarrow> 'k \<Rightarrow> 'v option"
    and put :: "'k \<Rightarrow> 'v \<Rightarrow> 'm \<Rightarrow> 'm"
    and del :: "'k \<Rightarrow> 'm \<Rightarrow> 'm"
    and ok :: "'m \<Rightarrow> bool"
  assumes ok_emp: "ok emp"
    and ok_put: "ok m \<Longrightarrow> ok (put k v m)"
    and ok_del: "ok m \<Longrightarrow> ok (del k m)"
    and get_emp: "get emp k = None"
    and get_put: "ok m \<Longrightarrow> get (put k v m) k' = (if k' = k then Some v else get m k')"
    and get_del: "ok m \<Longrightarrow> get (del k m) k' = (if k' = k then None else get m k')"
begin

lemma get_put_same: "ok m \<Longrightarrow> get (put k v m) k = Some v"
  by (simp add: get_put)

lemma ok_fold_put: "ok m \<Longrightarrow> ok (fold (\<lambda>(k, v). put k v) kvs m)"
  by (induction kvs arbitrary: m) (auto simp: ok_put)

lemma get_fold_put:
  "ok m \<Longrightarrow> get (fold (\<lambda>(k, v). put k v) kvs m) k =
     (case map_of (rev kvs) k of None \<Rightarrow> get m k | Some v \<Rightarrow> Some v)"
proof (induction kvs arbitrary: m)
  case Nil
  then show ?case by simp
next
  case (Cons kv kvs)
  obtain k' v' where kv: "kv = (k', v')" by (cases kv)
  have "ok (put k' v' m)" using Cons.prems by (rule ok_put)
  then show ?case
    using Cons.IH [of "put k' v' m"] Cons.prems
    by (auto simp: kv get_put map_add_def split: option.splits)
qed

end

subsection \<open>\<open>std::map\<close> as an association list in key order\<close>

definition mput :: "'k::linorder \<Rightarrow> 'v \<Rightarrow> ('k \<times> 'v) list \<Rightarrow> ('k \<times> 'v) list" where
  "mput k v m = takeWhile (\<lambda>p. fst p < k) m @ (k, v) # dropWhile (\<lambda>p. fst p \<le> k) m"

definition mdel :: "'k \<Rightarrow> ('k \<times> 'v) list \<Rightarrow> ('k \<times> 'v) list" where
  "mdel k m = filter (\<lambda>p. fst p \<noteq> k) m"

definition mok :: "('k::linorder \<times> 'v) list \<Rightarrow> bool" where
  "mok m \<longleftrightarrow> sorted_wrt (<) (map fst m)"

definition mhas :: "('k \<times> 'v) list \<Rightarrow> 'k \<Rightarrow> bool" where
  "mhas m k \<longleftrightarrow> map_of m k \<noteq> None"

lemma mok_Nil [simp]: "mok []"
  by (simp add: mok_def)

lemma mok_Cons: "mok ((k, v) # m) \<longleftrightarrow> (\<forall>p \<in> set m. k < fst p) \<and> mok m"
  by (auto simp: mok_def)

lemma mok_distinct: "mok m \<Longrightarrow> distinct (map fst m)"
  by (simp add: mok_def strict_sorted_iff)

lemma map_of_above: "\<forall>p \<in> set m. (k :: 'k::linorder) < fst p \<Longrightarrow> map_of m k = None"
  by (induction m) auto

lemma mput_Cons: "mok ((k', v') # m) \<Longrightarrow>
    mput k v ((k', v') # m) =
      (if k' < k then (k', v') # mput k v m
       else if k' = k then (k, v) # m else (k, v) # (k', v') # m)"
proof -
  assume a: "mok ((k', v') # m)"
  have "dropWhile (\<lambda>p. fst p \<le> k') m = m"
    using a by (cases m) (auto simp: mok_Cons)
  then show ?thesis by (auto simp: mput_def)
qed

lemma set_mput: "set (mput k v m) \<subseteq> insert (k, v) (set m)"
  unfolding mput_def by (auto dest: set_takeWhileD set_dropWhileD)

lemma length_mput: "length (mput k v m) \<le> Suc (length m)"
proof -
  have "length (takeWhile (\<lambda>p. fst p < k) m) + length (dropWhile (\<lambda>p. fst p \<le> k) m) \<le> length m"
    by (induction m) (auto intro: length_dropWhile_le le_SucI)
  then show ?thesis by (simp add: mput_def)
qed

lemma length_fold_mput: "length (fold (\<lambda>(k, v). mput k v) kvs m) \<le> length kvs + length m"
proof (induction kvs arbitrary: m)
  case (Cons kv kvs)
  have "length (fold (\<lambda>(k, v). mput k v) (kv # kvs) m) \<le> length kvs + length (mput (fst kv) (snd kv) m)"
    using Cons [of "mput (fst kv) (snd kv) m"] by (cases kv) simp
  then show ?case using length_mput [of "fst kv" "snd kv" m] by simp
qed simp

lemma mput_Nil: "mput k v [] = [(k, v)]"
  by (simp add: mput_def)

lemma mok_mput [simp]: "mok m \<Longrightarrow> mok (mput k v m)"
proof (induction m)
  case Nil
  then show ?case by (simp add: mput_Nil mok_Cons)
next
  case (Cons p m)
  obtain k' v' where p: "p = (k', v')" by (cases p)
  have m: "mok m" and lt: "\<forall>q \<in> set m. k' < fst q"
    using Cons.prems by (auto simp: p mok_Cons)
  have "\<forall>q \<in> set (mput k v m). k' < fst q" if "k' < k"
    using that lt set_mput [of k v m] by auto
  then show ?case
    using Cons m lt by (auto simp: p mput_Cons mok_Cons dest: order.strict_trans)
qed

lemma mok_mdel [simp]: "mok m \<Longrightarrow> mok (mdel k m)"
  by (induction m) (auto simp: mdel_def mok_def)

lemma map_of_mput [simp]: "mok m \<Longrightarrow> map_of (mput k v m) = (map_of m)(k \<mapsto> v)"
proof (induction m)
  case Nil
  then show ?case by (auto simp: mput_Nil)
next
  case (Cons p m)
  obtain k' v' where p: "p = (k', v')" by (cases p)
  have "mok m" using Cons.prems by (simp add: p mok_Cons)
  then show ?case using Cons by (auto simp: p mput_Cons fun_eq_iff)
qed

lemma map_of_mdel [simp]: "map_of (mdel k m) = (map_of m)(k := None)"
  by (induction m) (auto simp: mdel_def fun_eq_iff)

lemma mdel_absent: "map_of m k = None \<Longrightarrow> mdel k m = m"
  by (induction m) (auto simp: mdel_def split: if_splits)

lemma mdel_hd: "mok ((k, v) # m) \<Longrightarrow> mdel k ((k, v) # m) = m"
  using mdel_absent [of m k] map_of_above [of m k] by (auto simp: mdel_def mok_Cons)

lemma mput_mdel: "mok m \<Longrightarrow> mput k v (mdel k m) = mput k v m"
proof (induction m)
  case (Cons p m)
  obtain k' v' where p: "p = (k', v')" by (cases p)
  have m: "mok m" "\<forall>q \<in> set m. k' < fst q" "mok ((k', v') # m)" using Cons.prems by (auto simp: p mok_Cons)
  show ?case
  proof (cases "k' = k")
    case True
    have "dropWhile (\<lambda>q. fst q \<le> k) m = m" "takeWhile (\<lambda>q. fst q < k) m = []"
      using m(2) True by (cases m; auto)+
    then have "mput k v m = (k, v) # m" by (simp add: mput_def)
    then show ?thesis using mdel_hd [OF m(3)] mput_Cons [OF m(3), of k v] True by (simp add: p)
  next
    case False
    have "mok ((k', v') # mdel k m)" using m mok_mdel [OF m(1), of k] by (auto simp: mok_Cons mdel_def)
    then show ?thesis
      using False Cons.IH [OF m(1)] mput_Cons [OF m(3), of k v] mput_Cons [of k' v' "mdel k m" k v]
      by (cases "k' < k") (auto simp: p mdel_def intro!: filter_True dest!: bspec [OF m(2)])
  qed
qed (simp add: mdel_def)

lemma mdel_mput: "mok m \<Longrightarrow> map_of m k = None \<Longrightarrow> mdel k (mput k v m) = m"
proof (induction m)
  case (Cons p m)
  obtain k' v' where p: "p = (k', v')" by (cases p)
  have m: "mok m" "mok ((k', v') # m)" using Cons.prems(1) by (auto simp: p mok_Cons)
  have n: "map_of m k = None" "k' \<noteq> k" using Cons.prems(2) by (auto simp: p split: if_splits)
  show ?case
    using Cons.IH [OF m(1) n(1)] n(2) mput_Cons [OF m(2), of k v] mdel_absent [OF n(1)]
    by (auto simp: p mdel_def)
qed (simp add: mdel_def mput_Nil)

lemma mdel_mput_same: "mok m \<Longrightarrow> mdel k (mput k v m) = mdel k m"
  using mdel_mput [of "mdel k m" k v] mput_mdel [of m k v] by simp

lemma mput_mput: "mok m \<Longrightarrow> mput k v (mput k u m) = mput k v m"
  using mput_mdel [of "mput k u m" k v] mput_mdel [of m k v] mdel_mput_same [of m k u] by simp

lemma filter_mput: "mok m \<Longrightarrow> map_of m k = None \<Longrightarrow> \<not> P (k, v) \<Longrightarrow> filter P (mput k v m) = filter P m"
proof (induction m)
  case (Cons p m)
  obtain k' v' where p: "p = (k', v')" by (cases p)
  have m: "mok m" "mok ((k', v') # m)" using Cons.prems(1) by (auto simp: p mok_Cons)
  have n: "map_of m k = None" "k' \<noteq> k" using Cons.prems(2) by (auto simp: p split: if_splits)
  show ?case using Cons.IH [OF m(1) n(1) Cons.prems(3)] Cons.prems(3) n(2) mput_Cons [OF m(2), of k v] by (auto simp: p)
qed (simp add: mput_Nil)

lemma sum_list_mput:
  "mok m \<Longrightarrow> map_of m k = Some v0 \<Longrightarrow>
     sum_list (map f (mput k v m)) + f (k, v0) = sum_list (map f m) + (f (k, v) :: nat)"
proof (induction m)
  case (Cons p m)
  obtain k' v' where p: "p = (k', v')" by (cases p)
  have m: "mok m" "\<forall>q \<in> set m. k' < fst q" "mok ((k', v') # m)" using Cons.prems(1) by (auto simp: p mok_Cons)
  show ?case
  proof (cases "k' = k")
    case True
    then show ?thesis using Cons.prems(2) mput_Cons [OF m(3), of k v] by (simp add: p)
  next
    case False
    then have k: "map_of m k = Some v0" using Cons.prems(2) by (simp add: p)
    then have "k' < k" using m(2) map_of_SomeD [OF k] by auto
    then show ?thesis using Cons.IH [OF m(1) k] mput_Cons [OF m(3), of k v] by (simp add: p)
  qed
qed simp

interpretation smap: dict "[]" "map_of :: ('k::linorder \<times> 'v) list \<Rightarrow> 'k \<Rightarrow> 'v option"
    mput mdel mok
  by unfold_locales auto

lemma mhas_mput [simp]: "mok m \<Longrightarrow> mhas (mput k v m) k' \<longleftrightarrow> k' = k \<or> mhas m k'"
  by (auto simp: mhas_def)

lemma mhas_mdel [simp]: "mhas (mdel k m) k' \<longleftrightarrow> k' \<noteq> k \<and> mhas m k'"
  by (auto simp: mhas_def)

lemma mhas_Nil [simp]: "\<not> mhas [] k"
  by (simp add: mhas_def)

lemma mhas_keys: "mhas m k \<longleftrightarrow> k \<in> fst ` set m"
  by (auto simp: mhas_def map_of_eq_None_iff)

text \<open>
  \<open>operator[]\<close> of \<open>std::map\<close>: a missing key is inserted with the value-initialised
  mapped value, so even a read may change the map.
\<close>

definition mindex :: "'v \<Rightarrow> 'k::linorder \<Rightarrow> ('k \<times> 'v) list \<Rightarrow> 'v \<times> ('k \<times> 'v) list" where
  "mindex d k m = (case map_of m k of Some v \<Rightarrow> (v, m) | None \<Rightarrow> (d, mput k d m))"

lemma mindex_present: "map_of m k = Some v \<Longrightarrow> mindex d k m = (v, m)"
  by (simp add: mindex_def)

lemma mindex_absent: "map_of m k = None \<Longrightarrow> mindex d k m = (d, mput k d m)"
  by (simp add: mindex_def)

lemma mok_mindex: "mok m \<Longrightarrow> mok (snd (mindex d k m))"
  by (simp add: mindex_def split: option.splits)

section \<open>Characters\<close>

text \<open>\<open>isspace\<close> and \<open>tolower\<close> of \<open>ctype.h\<close> in the \<open>C\<close> locale.\<close>

definition isspace :: "char \<Rightarrow> bool" where
  "isspace c \<longleftrightarrow> (let n = (of_char c :: nat) in n = 32 \<or> (9 \<le> n \<and> n \<le> 13))"

definition tolower :: "char \<Rightarrow> char" where
  "tolower c = (let n = (of_char c :: nat) in if 65 \<le> n \<and> n \<le> 90 then char_of (n + 32) else c)"

lemma tolower_idem [simp]: "tolower (tolower c) = tolower c"
  by (auto simp: tolower_def Let_def)

definition CR :: char where "CR = CHR 0x0D"
definition LF :: char where "LF = CHR 0x0A"

lemma CR_LF [simp]: "CR \<noteq> LF" "LF \<noteq> CR"
  by (simp_all add: CR_def LF_def)

section \<open>Numbers in text\<close>

text \<open>\<open>to_string\<close> and \<open>%lu\<close> of an unsigned number, \<open>%d\<close> of a signed one.\<close>

fun to_string :: "nat \<Rightarrow> string" where
  "to_string n = (if n < 10 then [char_of (48 + n)] else to_string (n div 10) @ [char_of (48 + n mod 10)])"

declare to_string.simps [simp del]

definition int_string :: "int \<Rightarrow> string" where
  "int_string n = (if n < 0 then ''-'' @ to_string (nat (- n)) else to_string (nat n))"

text \<open>\<open>strtol\<close>; base 0 stands for the base the text itself chooses.\<close>

definition digit_val :: "char \<Rightarrow> nat option" where
  "digit_val c = (let n = (of_char c :: nat) in
     if 48 \<le> n \<and> n \<le> 57 then Some (n - 48)
     else if 97 \<le> n \<and> n \<le> 122 then Some (n - 87)
     else if 65 \<le> n \<and> n \<le> 90 then Some (n - 55) else None)"

definition is_digit :: "nat \<Rightarrow> char \<Rightarrow> bool" where
  "is_digit base c = (case digit_val c of None \<Rightarrow> False | Some d \<Rightarrow> d < base)"

definition digits_value :: "nat \<Rightarrow> string \<Rightarrow> int" where
  "digits_value base ds = fold (\<lambda>c n. n * int base + int (the (digit_val c))) ds 0"

definition LONG_MAX :: int where "LONG_MAX = 2 ^ 63 - 1"

definition clamp_long :: "int \<Rightarrow> int" where
  "clamp_long n = max (- LONG_MAX - 1) (min LONG_MAX n)"

text \<open>The base and what precedes the digits.\<close>

definition long_base :: "string \<Rightarrow> nat \<times> nat" where
  "long_base s =
     (if take 1 s = ''0'' \<and> (take 1 (drop 1 s) = ''x'' \<or> take 1 (drop 1 s) = ''X'') \<and>
         drop 2 s \<noteq> [] \<and> is_digit 16 (s ! 2) then (16, 2)
      else if take 1 s = ''0'' then (8, 0) else (10, 0))"

text \<open>The value, and whether any digit was there (\<open>end > value\<close>).\<close>

definition strtol :: "nat \<Rightarrow> string \<Rightarrow> int \<times> bool" where
  "strtol base0 str =
     (let s = dropWhile isspace (takeWhile (\<lambda>c. c \<noteq> CHR 0x00) str);
          neg = take 1 s = ''-'';
          s1 = (if neg \<or> take 1 s = ''+'' then drop 1 s else s);
          (base, pre) = (if base0 = 0 then long_base s1 else (base0, 0));
          ds = takeWhile (is_digit base) (drop pre s1)
      in if ds = [] then (0, False)
         else (clamp_long (if neg then - digits_value base ds else digits_value base ds), True))"

text \<open>The conversion of a \<open>long\<close> to \<open>int\<close>, and \<open>atoi\<close>.\<close>

definition to_int32 :: "int \<Rightarrow> int" where
  "to_int32 x = signed_take_bit 31 x"

definition atoi :: "string \<Rightarrow> int" where
  "atoi s = to_int32 (fst (strtol 10 s))"

lemma digit_val_char: "d < 10 \<Longrightarrow> digit_val (char_of (48 + d)) = Some d"
  by (simp add: digit_val_def Let_def)

lemma digits_value_snoc: "digits_value b (ds @ [c]) = digits_value b ds * int b + int (the (digit_val c))"
  by (simp add: digits_value_def)

lemma to_string_digits:
  "to_string n \<noteq> [] \<and> (\<forall>c \<in> set (to_string n). is_digit 10 c) \<and> digits_value 10 (to_string n) = int n"
proof (induction n rule: to_string.induct)
  case (1 n)
  show ?case
  proof (cases "n < 10")
    case True
    then show ?thesis using digit_val_char [of n]
      by (simp add: to_string.simps [of n] is_digit_def digits_value_def)
  next
    case False
    have "int n = int (n div 10) * 10 + int (n mod 10)" by (simp add: zdiv_int zmod_int)
    then show ?thesis using False 1 digit_val_char [of "n mod 10"]
      by (simp add: to_string.simps [of n] is_digit_def digits_value_snoc)
  qed
qed

lemma is_digit_range: "is_digit 10 c \<longleftrightarrow> 48 \<le> (of_char c :: nat) \<and> (of_char c :: nat) \<le> 57"
  by (auto simp: is_digit_def digit_val_def Let_def)

lemma takeWhile_digits: "\<forall>c \<in> set ds. P c \<Longrightarrow> rest = [] \<or> \<not> P (hd rest) \<Longrightarrow> takeWhile P (ds @ rest) = ds"
  by (induction ds; cases rest) auto

lemma strtol_int_string:
  assumes "\<bar>n\<bar> < 2 ^ 63" "rest = [] \<or> \<not> is_digit 10 (hd rest)" "CHR 0x00 \<notin> set rest"
  shows "strtol 10 (int_string n @ rest) = (n, True)"
proof -
  let ?ds = "to_string (nat \<bar>n\<bar>)"
  note d = to_string_digits [of "nat \<bar>n\<bar>"]
  have r: "\<forall>c \<in> set ?ds. 48 \<le> (of_char c :: nat) \<and> (of_char c :: nat) \<le> 57" using d by (simp add: is_digit_range)
  obtain c cs where c: "?ds = c # cs" using d by (cases ?ds) auto
  have h: "48 \<le> (of_char c :: nat)" "(of_char c :: nat) \<le> 57" using r c by auto
  have ns: "\<not> isspace c" using h by (simp add: isspace_def Let_def)
  have nc: "c \<noteq> CHR ''-''" "c \<noteq> CHR ''+''" using h by auto
  have "CHR 0x00 \<notin> set ?ds" using r by force
  then have nz: "CHR 0x00 \<notin> set (int_string n @ rest)" using assms(3) by (auto simp: int_string_def abs_if split: if_splits)
  then have tw: "takeWhile (\<lambda>c. c \<noteq> CHR 0x00) (int_string n @ rest) = int_string n @ rest"
    by (auto simp del: takeWhile_append)
  have ds: "takeWhile (is_digit 10) (?ds @ rest) = ?ds" using takeWhile_digits [of ?ds "is_digit 10" rest] d assms(2) by blast
  have cl: "clamp_long n = n" using assms(1) by (simp add: clamp_long_def LONG_MAX_def)
  show ?thesis
  proof (cases "n < 0")
    case True
    have "\<not> isspace (CHR ''-'')" by (simp add: isspace_def)
    then show ?thesis using True ds d c cl unfolding strtol_def tw
      by (simp add: int_string_def del: takeWhile_append)
  next
    case False
    then show ?thesis using ds d c cl ns nc unfolding strtol_def tw
      by (simp add: int_string_def del: takeWhile_append)
  qed
qed

lemma atoi_int_string:
  assumes "- (2 ^ 31) \<le> n" "n < 2 ^ 31" "rest = [] \<or> \<not> is_digit 10 (hd rest)" "CHR 0x00 \<notin> set rest"
  shows "atoi (int_string n @ rest) = n"
proof -
  have "\<bar>n\<bar> < 2 ^ 63" using assms(1,2) by simp
  then have "strtol 10 (int_string n @ rest) = (n, True)" using strtol_int_string assms(3,4) by blast
  then show ?thesis using assms(1,2) by (simp add: atoi_def to_int32_def signed_take_bit_int_eq_self_iff)
qed

section \<open>Lists\<close>

lemma length2E: "length xs = 2 \<Longrightarrow> \<exists>a b. xs = [a, b]"
  by (auto simp: numeral_eq_Suc length_Suc_conv)

lemma length4E: "length xs = 4 \<Longrightarrow> \<exists>a b c d. xs = [a, b, c, d]"
  by (auto simp: numeral_eq_Suc length_Suc_conv)

lemma length8E: "length xs = 8 \<Longrightarrow> \<exists>a b c d e f g h. xs = [a, b, c, d, e, f, g, h]"
  by (auto simp: numeral_eq_Suc length_Suc_conv)

text \<open>The C string at the start of a block.\<close>

definition cstr :: "string \<Rightarrow> string" where
  "cstr s = takeWhile (\<lambda>c. c \<noteq> CHR 0x00) s"

lemma cstr_app: "CHR 0x00 \<notin> set a \<Longrightarrow> cstr (a @ b) = a @ cstr b"
  unfolding cstr_def by (induction a) auto

lemma int_string_plain: "\<forall>c \<in> set (int_string n). \<not> isspace c \<and> c \<noteq> CHR 0x00 \<and> c \<noteq> CR \<and> c \<noteq> LF" "int_string n \<noteq> []"
proof -
  have d: "\<forall>c \<in> set (to_string k). \<not> isspace c \<and> c \<noteq> CHR 0x00 \<and> c \<noteq> CR \<and> c \<noteq> LF" for k
    using to_string_digits [of k] by (auto simp: is_digit_range isspace_def CR_def LF_def Let_def)
  then show "\<forall>c \<in> set (int_string n). \<not> isspace c \<and> c \<noteq> CHR 0x00 \<and> c \<noteq> CR \<and> c \<noteq> LF"
    by (auto simp: int_string_def isspace_def CR_def LF_def)
  show "int_string n \<noteq> []" using to_string_digits by (simp add: int_string_def)
qed

end
