(* ===== verification/Channel.thy ===== *)
theory Channel
  imports LN_Prelude
begin

text \<open>
  \<open>Channel\<close> (\<open>event_base.h\<close>, \<open>event_base.cc\<close>) and the epoll poller (\<open>poller.h\<close>,
  \<open>poller.cc\<close>). A channel's \<open>events_\<close> is a 16-bit \<open>short\<close> of poll flags; \<open>interest\<close>
  is the kernel's copy, written by \<open>updateChannel\<close>. The poller identifies channels by their
  address, here a number. A failing \<open>epoll_ctl\<close> or
  \<open>setNonBlock\<close>, which \<open>fatalif\<close> reports, is not modelled.
\<close>

section \<open>Channels\<close>

definition kReadEvent :: "16 word" where "kReadEvent = 1"
definition kWriteEvent :: "16 word" where "kWriteEvent = 4"
definition POLLERR :: "16 word" where "POLLERR = 8"

record channel =
  ch_fd :: int
  ch_events :: "16 word"
  interest :: "16 word"

text \<open>\<open>PollerEpoll::addChannel\<close> and \<open>updateChannel\<close>: the kernel sees the current events.\<close>

definition updateChannel :: "channel \<Rightarrow> channel" where
  "updateChannel ch = (if 0 \<le> ch_fd ch then ch\<lparr>interest := ch_events ch\<rparr> else ch)"

definition new_channel :: "int \<Rightarrow> 16 word \<Rightarrow> channel" where
  "new_channel fd events = updateChannel \<lparr>ch_fd = fd, ch_events = events, interest = 0\<rparr>"

definition set_flag :: "16 word \<Rightarrow> bool \<Rightarrow> 16 word \<Rightarrow> 16 word" where
  "set_flag f enable ev = (if enable then ev OR f else ev AND NOT f)"

definition enableRead :: "bool \<Rightarrow> channel \<Rightarrow> channel" where
  "enableRead enable ch = updateChannel (ch\<lparr>ch_events := set_flag kReadEvent enable (ch_events ch)\<rparr>)"

definition enableWrite :: "bool \<Rightarrow> channel \<Rightarrow> channel" where
  "enableWrite enable ch = updateChannel (ch\<lparr>ch_events := set_flag kWriteEvent enable (ch_events ch)\<rparr>)"

definition enableReadWrite :: "bool \<Rightarrow> bool \<Rightarrow> channel \<Rightarrow> channel" where
  "enableReadWrite readable writable ch =
     updateChannel (ch\<lparr>ch_events :=
       set_flag kWriteEvent writable (set_flag kReadEvent readable (ch_events ch))\<rparr>)"

definition readEnabled :: "channel \<Rightarrow> bool" where
  "readEnabled ch \<longleftrightarrow> ch_events ch AND kReadEvent \<noteq> 0"

definition writeEnabled :: "channel \<Rightarrow> bool" where
  "writeEnabled ch \<longleftrightarrow> ch_events ch AND kWriteEvent \<noteq> 0"

text \<open>The kernel interest follows the flags of an open channel.\<close>

definition channel_ok :: "channel \<Rightarrow> bool" where
  "channel_ok ch \<longleftrightarrow> (0 \<le> ch_fd ch \<longrightarrow> interest ch = ch_events ch)"

lemma and_flag: "x AND 1 \<noteq> (0::16 word) \<longleftrightarrow> bit x 0" "x AND 4 \<noteq> (0::16 word) \<longleftrightarrow> bit x 2"
proof -
  have "x AND 2 ^ n \<noteq> (0::16 word) \<longleftrightarrow> bit x n" if "n < 16" for n
    using that by (simp add: bit_iff_and_push_bit_not_eq_0 push_bit_eq_mult)
  from this [of 0] this [of 2] show "x AND 1 \<noteq> 0 \<longleftrightarrow> bit x 0" "x AND 4 \<noteq> 0 \<longleftrightarrow> bit x 2"
    by simp_all
qed

lemma flag_bits: "bit (1::16 word) n \<longleftrightarrow> n = 0" "bit (4::16 word) n \<longleftrightarrow> n = 2"
proof -
  have four: "(4::16 word) = 2 ^ 2" by simp
  show "bit (4::16 word) n \<longleftrightarrow> n = 2" unfolding four bit_exp_iff by auto
qed (simp add: bit_1_iff)

lemma updateChannel_simps [simp]:
  "ch_fd (updateChannel ch) = ch_fd ch" "ch_events (updateChannel ch) = ch_events ch"
  "channel_ok (updateChannel ch)"
  by (simp_all add: updateChannel_def channel_ok_def)

lemma flags [simp]:
  "readEnabled (enableRead e ch) = e" "writeEnabled (enableRead e ch) = writeEnabled ch"
  "writeEnabled (enableWrite e ch) = e" "readEnabled (enableWrite e ch) = readEnabled ch"
  "readEnabled (enableReadWrite r w ch) = r" "writeEnabled (enableReadWrite r w ch) = w"
  by (simp_all add: readEnabled_def writeEnabled_def enableRead_def enableWrite_def
      enableReadWrite_def set_flag_def kReadEvent_def kWriteEvent_def and_flag flag_bits
      bit_or_iff bit_and_iff bit_not_iff)

lemma fd_flags [simp]:
  "ch_fd (enableRead e ch) = ch_fd ch" "ch_fd (enableWrite e ch) = ch_fd ch"
  "ch_fd (enableReadWrite r w ch) = ch_fd ch" "ch_fd (new_channel fd ev) = fd"
  by (simp_all add: enableRead_def enableWrite_def enableReadWrite_def new_channel_def)

section \<open>The epoll poller\<close>

text \<open>
  \<open>activeEvs_\<close> holds the events of the last \<open>epoll_wait\<close>, each with the channel pointer
  registered for it (\<open>None\<close> once nulled); \<open>lastActive_\<close> is the index being dispatched.
\<close>

record poller =
  liveChannels :: "nat set"
  activeEvs :: "(nat option \<times> 16 word) list"
  lastActive :: int

definition addChannel :: "nat \<Rightarrow> poller \<Rightarrow> poller" where
  "addChannel ch p = p\<lparr>liveChannels := insert ch (liveChannels p)\<rparr>"

text \<open>The loop \<open>for (int i = lastActive_; i >= 0; i--)\<close>, which nulls the first match.\<close>

definition hit :: "nat \<Rightarrow> nat \<Rightarrow> (nat option \<times> 16 word) list \<Rightarrow> bool" where
  "hit ch i evs \<longleftrightarrow> i < length evs \<and> fst (evs ! i) = Some ch"

fun null_event :: "nat \<Rightarrow> nat \<Rightarrow> (nat option \<times> 16 word) list \<Rightarrow> (nat option \<times> 16 word) list" where
  "null_event ch 0 evs = (if hit ch 0 evs then evs[0 := (None, snd (evs ! 0))] else evs)"
| "null_event ch (Suc j) evs =
     (if hit ch (Suc j) evs then evs[Suc j := (None, snd (evs ! Suc j))] else null_event ch j evs)"

definition removeChannel :: "nat \<Rightarrow> poller \<Rightarrow> poller" where
  "removeChannel ch p =
     p\<lparr>liveChannels := liveChannels p - {ch},
       activeEvs := (if lastActive p < 0 then activeEvs p
                     else null_event ch (nat (lastActive p)) (activeEvs p))\<rparr>"

datatype dispatch = HandleRead nat | HandleWrite nat | Unexpected

text \<open>
  The dispatch loop of \<open>loop_once\<close>, after \<open>epoll_wait\<close> returned \<open>evs\<close>. A handler is
  arbitrary code that may close (remove) and add channels; \<open>handler d\<close> lists those calls.
\<close>

datatype chan_op = Add nat | Remove nat

fun run_ops :: "chan_op list \<Rightarrow> poller \<Rightarrow> poller" where
  "run_ops [] p = p"
| "run_ops (Add ch # os) p = run_ops os (addChannel ch p)"
| "run_ops (Remove ch # os) p = run_ops os (removeChannel ch p)"

definition dispatch_of :: "nat \<Rightarrow> 16 word \<Rightarrow> dispatch" where
  "dispatch_of ch events =
     (if events AND (kReadEvent OR POLLERR) \<noteq> 0 then HandleRead ch
      else if events AND kWriteEvent \<noteq> 0 then HandleWrite ch
      else Unexpected)"

fun dispatch_loop :: "(dispatch \<Rightarrow> chan_op list) \<Rightarrow> nat \<Rightarrow> poller \<Rightarrow> (dispatch \<times> poller) list \<Rightarrow>
    poller \<times> (dispatch \<times> poller) list" where
  "dispatch_loop handler 0 p tr = (p\<lparr>lastActive := -1\<rparr>, tr)"
| "dispatch_loop handler (Suc i) p tr =
     (let p1 = p\<lparr>lastActive := int i\<rparr> in
      case activeEvs p1 ! i of
        (None, _) \<Rightarrow> dispatch_loop handler i p1 tr
      | (Some ch, events) \<Rightarrow>
          (let d = dispatch_of ch events in
           dispatch_loop handler i (run_ops (handler d) p1) (tr @ [(d, p1)])))"

definition loop_once :: "(dispatch \<Rightarrow> chan_op list) \<Rightarrow> (nat option \<times> 16 word) list \<Rightarrow> poller \<Rightarrow>
    poller \<times> (dispatch \<times> poller) list" where
  "loop_once handler evs p =
     dispatch_loop handler (length evs) (p\<lparr>activeEvs := evs, lastActive := int (length evs)\<rparr>) []"

text \<open>Pending events name live channels only, each at most once: what \<open>epoll_wait\<close> returns,
  and what every handler keeps.\<close>

definition pending_ok :: "nat \<Rightarrow> poller \<Rightarrow> bool" where
  "pending_ok n p \<longleftrightarrow> n \<le> length (activeEvs p) \<and>
     (\<forall>i < n. \<forall>ch. fst (activeEvs p ! i) = Some ch \<longrightarrow> ch \<in> liveChannels p) \<and>
     (\<forall>i < n. \<forall>j < n. \<forall>ch. fst (activeEvs p ! i) = Some ch \<longrightarrow> fst (activeEvs p ! j) = Some ch \<longrightarrow> i = j)"

lemma length_null_event [simp]: "length (null_event ch i evs) = length evs"
  by (induction i) auto

lemma null_event_nth: "null_event ch i evs ! k = evs ! k \<or> fst (null_event ch i evs ! k) = None"
proof (induction i)
  case 0
  show ?case by (cases "k = 0") (auto simp: hit_def nth_list_update)
next
  case (Suc i)
  show ?case using Suc by (cases "k = Suc i") (auto simp: hit_def nth_list_update)
qed

lemma null_event_removes:
  assumes "hit ch k evs" "k \<le> i" "\<forall>j \<le> i. hit ch j evs \<longrightarrow> j = k"
  shows "fst (null_event ch i evs ! k) = None"
  using assms
proof (induction i)
  case 0
  then show ?case by (simp add: hit_def)
next
  case (Suc i)
  show ?case
  proof (cases "k = Suc i")
    case True
    then show ?thesis using Suc.prems by (simp add: hit_def)
  next
    case False
    have "\<forall>j \<le> i. hit ch j evs \<longrightarrow> j = k" using Suc.prems(3) le_SucI by blast
    moreover have "k \<le> i" using False Suc.prems(2) by simp
    ultimately have "fst (null_event ch i evs ! k) = None" using Suc.IH Suc.prems(1) by blast
    moreover have "\<not> hit ch (Suc i) evs" using False Suc.prems(3) by blast
    ultimately show ?thesis by simp
  qed
qed

lemma removeChannel_pending:
  assumes p: "pending_ok (Suc n) p" and last: "lastActive p = int n"
  shows "pending_ok (Suc n) (removeChannel ch p)"
proof -
  let ?evs = "activeEvs p" and ?evs' = "null_event ch n (activeEvs p)"
  have same: "fst (?evs ! i) = Some c \<and> c \<noteq> ch" if i: "i < Suc n" "fst (?evs' ! i) = Some c" for i c
  proof -
    have c: "fst (?evs ! i) = Some c" using null_event_nth [of ch n ?evs i] i by auto
    have "\<not> hit ch i ?evs"
    proof
      assume h: "hit ch i ?evs"
      have "\<forall>j \<le> n. hit ch j ?evs \<longrightarrow> j = i" using p h i by (auto simp: pending_ok_def hit_def)
      then have "fst (?evs' ! i) = None" using h i by (intro null_event_removes) auto
      then show False using i by simp
    qed
    then show ?thesis using c p i by (auto simp: pending_ok_def hit_def)
  qed
  have e: "activeEvs (removeChannel ch p) = ?evs'" "liveChannels (removeChannel ch p) = liveChannels p - {ch}"
    using last by (simp_all add: removeChannel_def)
  have "c \<in> liveChannels p - {ch}" if "i < Suc n" "fst (?evs' ! i) = Some c" for i c
    using same [OF that] that p by (simp add: pending_ok_def)
  moreover have "i = j" if "i < Suc n" "j < Suc n" "fst (?evs' ! i) = Some c" "fst (?evs' ! j) = Some c" for i j c
    using same [OF that(1,3)] same [OF that(2,4)] that p by (simp add: pending_ok_def)
  moreover have "Suc n \<le> length ?evs'" using p by (simp add: pending_ok_def)
  ultimately show ?thesis unfolding pending_ok_def e by blast
qed

lemma run_ops_pending:
  "pending_ok (Suc n) p \<Longrightarrow> lastActive p = int n \<Longrightarrow> pending_ok (Suc n) (run_ops os p)"
proof (induction os p rule: run_ops.induct)
  case (2 ch os p)
  then show ?case by (simp add: addChannel_def pending_ok_def)
next
  case (3 ch os p)
  then show ?case using removeChannel_pending [of n p ch] by (simp add: removeChannel_def)
qed simp

text \<open>Every callback the loop makes is on a channel that is registered at that moment.\<close>

fun on_live :: "dispatch \<times> poller \<Rightarrow> bool" where
  "on_live (HandleRead ch, p) = (ch \<in> liveChannels p)"
| "on_live (HandleWrite ch, p) = (ch \<in> liveChannels p)"
| "on_live (Unexpected, p) = True"

lemma dispatch_loop_live:
  "pending_ok n p \<Longrightarrow> \<forall>t \<in> set tr. on_live t \<Longrightarrow>
   \<forall>t \<in> set (snd (dispatch_loop handler n p tr)). on_live t"
proof (induction n arbitrary: p tr)
  case 0
  then show ?case by simp
next
  case (Suc n)
  let ?p = "p\<lparr>lastActive := int n\<rparr>"
  have ok: "pending_ok (Suc n) ?p" using Suc.prems by (simp add: pending_ok_def)
  have less: "pending_ok n q" if "pending_ok (Suc n) q" for q
    using that unfolding pending_ok_def by (meson Suc_leD less_SucI)
  obtain ptr ev where pe: "activeEvs ?p ! n = (ptr, ev)" by (cases "activeEvs ?p ! n")
  show ?case
  proof (cases ptr)
    case None
    then show ?thesis using Suc.IH [OF less [OF ok]] Suc.prems pe by simp
  next
    case (Some ch)
    then have "ch \<in> liveChannels p" using Suc.prems pe by (auto simp: pending_ok_def)
    then have "on_live (dispatch_of ch ev, ?p)" by (auto simp: dispatch_of_def)
    then have tr: "\<forall>t \<in> set (tr @ [(dispatch_of ch ev, ?p)]). on_live t"
      using Suc.prems(2) by auto
    have "pending_ok n (run_ops (handler (dispatch_of ch ev)) ?p)"
      using ok by (intro less run_ops_pending) auto
    from Suc.IH [OF this tr] show ?thesis using pe Some by (simp add: Let_def)
  qed
qed

text \<open>What a wait returns is pending, when it names each live channel at most once.\<close>

lemma events_pending:
  assumes "distinct (map fst evs)" "\<forall>e \<in> set evs. \<exists>ch \<in> liveChannels p. fst e = Some ch"
  shows "pending_ok (length evs) (p\<lparr>activeEvs := evs, lastActive := l\<rparr>)"
proof -
  have live: "ch \<in> liveChannels p" if "i < length evs" "fst (evs ! i) = Some ch" for i ch
    using bspec [OF assms(2) nth_mem [OF that(1)]] that(2) by auto
  have once: "i = j" if "i < length evs" "j < length evs" "fst (evs ! i) = Some ch" "fst (evs ! j) = Some ch" for i j ch
    using nth_eq_iff_index_eq [OF assms(1), of i j] that by simp
  show ?thesis unfolding pending_ok_def using live once by simp
qed

section \<open>Properties\<close>

text \<open>
  C9. No callback on a removed channel: when \<open>epoll_wait\<close> reports each
  registered channel at most once, every \<open>handleRead\<close> and \<open>handleWrite\<close> the dispatch loop makes
  is on a channel still registered at that moment, whatever channels the earlier handlers of the
  same round closed and deleted.
\<close>

theorem poller_callbacks_live:
  assumes "distinct (map fst evs)" "\<forall>e \<in> set evs. \<exists>ch \<in> liveChannels p. fst e = Some ch"
  shows "list_all on_live (snd (loop_once handler evs p))"
  unfolding loop_once_def list_all_iff by (rule dispatch_loop_live [OF events_pending [OF assms]]) simp

theorem poller_callbacks_live_witness:
  "list_all on_live (snd (loop_once (\<lambda>_. [Remove 1, Remove 2]) [(Some 1, 1), (Some 2, 4)]
     \<lparr>liveChannels = {1, 2}, activeEvs = [], lastActive = -1\<rparr>))"
  by (rule poller_callbacks_live) auto

text \<open>
  A channel's flags: \<open>enableRead\<close>, \<open>enableWrite\<close> and
  \<open>enableReadWrite\<close> set exactly the flags they name, leave the other one alone, and on an open
  channel the poller's interest follows at once.
\<close>

theorem channel_interest:
  "readEnabled (enableRead e ch) = e \<and> writeEnabled (enableRead e ch) = writeEnabled ch \<and>
   writeEnabled (enableWrite e ch) = e \<and> readEnabled (enableWrite e ch) = readEnabled ch \<and>
   readEnabled (enableReadWrite r w ch) = r \<and> writeEnabled (enableReadWrite r w ch) = w \<and>
   channel_ok (enableRead e ch) \<and> channel_ok (enableWrite e ch) \<and> channel_ok (enableReadWrite r w ch) \<and>
   channel_ok (new_channel fd ev)"
  by (simp add: enableRead_def enableWrite_def enableReadWrite_def new_channel_def
      flags [unfolded enableRead_def enableWrite_def enableReadWrite_def])

end
