(* ===== verification/Slice.thy ===== *)
theory Slice
  imports LN_Prelude
begin

text \<open>
  \<open>src/src/common/handy/slice.h\<close>: a non-owning range of bytes \<open>[pb_, pe_)\<close> inside
  some block of memory. A pointer is an offset into the block \<open>smem\<close> (an \<^typ>\<open>int\<close>,
  since the sources also form ranges with \<open>pe_ < pb_\<close>), and every read through a pointer
  is checked against the block: \<open>Inl OutOfBounds\<close> where C++ would read outside it.
  \<open>contents\<close> is the byte string a well-formed slice denotes; each operation is shown to
  refine a list function on it.
\<close>

section \<open>Reading memory\<close>

definition rd :: "string \<Rightarrow> int \<Rightarrow> char res" where
  "rd m p = (if 0 \<le> p \<and> p < int (length m) then Inr (m ! nat p) else Inl OutOfBounds)"

definition bytes_in :: "string \<Rightarrow> int \<Rightarrow> int \<Rightarrow> string" where
  "bytes_in m b e = take (nat (e - b)) (drop (nat b) m)"

text \<open>\<open>while (p < e && P( *p)) p++\<close> and \<open>while (b < e && P(e[-1])) e--\<close>.\<close>

function scan :: "(char \<Rightarrow> bool) \<Rightarrow> string \<Rightarrow> int \<Rightarrow> int \<Rightarrow> int res" where
  "scan P m p e =
     (if p < e then rbind (rd m p) (\<lambda>c. if P c then scan P m (p + 1) e else Inr p) else Inr p)"
  by pat_completeness auto
termination by (relation "measure (\<lambda>(P, m, p, e). nat (e - p))") auto

function scan_back :: "(char \<Rightarrow> bool) \<Rightarrow> string \<Rightarrow> int \<Rightarrow> int \<Rightarrow> int res" where
  "scan_back P m b e =
     (if b < e then rbind (rd m (e - 1)) (\<lambda>c. if P c then scan_back P m b (e - 1) else Inr e)
      else Inr e)"
  by pat_completeness auto
termination by (relation "measure (\<lambda>(P, m, b, e). nat (e - b))") auto

declare scan.simps [simp del] scan_back.simps [simp del]

text \<open>\<open>memcmp\<close>, with the sign of the first difference as its value.\<close>

fun memcmp :: "string \<Rightarrow> int \<Rightarrow> string \<Rightarrow> int \<Rightarrow> nat \<Rightarrow> int res" where
  "memcmp m p m' p' 0 = Inr 0"
| "memcmp m p m' p' (Suc n) =
     rbind (rd m p) (\<lambda>c. rbind (rd m' p') (\<lambda>c'.
       if c < c' then Inr (-1) else if c' < c then Inr 1 else memcmp m (p + 1) m' (p' + 1) n))"

section \<open>The class\<close>

record slice =
  smem :: string
  pb :: int
  pe :: int

definition slice_ok :: "slice \<Rightarrow> bool" where
  "slice_ok s \<longleftrightarrow> 0 \<le> pb s \<and> pb s \<le> pe s \<and> pe s \<le> int (length (smem s))"

definition contents :: "slice \<Rightarrow> string" where
  "contents s = bytes_in (smem s) (pb s) (pe s)"

text \<open>\<open>Slice(const std::string& s)\<close> and \<open>Slice(const char* d, size_t n)\<close>.\<close>

definition slice_of :: "string \<Rightarrow> slice" where
  "slice_of s = \<lparr>smem = s, pb = 0, pe = int (length s)\<rparr>"

definition slice_at :: "string \<Rightarrow> int \<Rightarrow> int \<Rightarrow> slice" where
  "slice_at m d n = \<lparr>smem = m, pb = d, pe = d + n\<rparr>"

text \<open>\<open>size()\<close> is a pointer difference converted to \<open>size_t\<close>.\<close>

definition ssize :: "slice \<Rightarrow> int" where
  "ssize s = (pe s - pb s) mod 2 ^ 64"

definition sempty :: "slice \<Rightarrow> bool" where
  "sempty s \<longleftrightarrow> pe s = pb s"

definition sback :: "slice \<Rightarrow> char res" where
  "sback s = rd (smem s) (pe s - 1)"

definition sidx :: "slice \<Rightarrow> int \<Rightarrow> char res" where
  "sidx s n = rd (smem s) (pb s + n)"

definition eat :: "int \<Rightarrow> slice \<Rightarrow> slice \<times> slice" where
  "eat sz s = (slice_at (smem s) (pb s) sz, s\<lparr>pb := pb s + sz\<rparr>)"

definition ssub :: "int \<Rightarrow> int \<Rightarrow> slice \<Rightarrow> slice" where
  "ssub boff eoff s = s\<lparr>pb := pb s + boff, pe := pe s + eoff\<rparr>"

text \<open>\<open>eatWord\<close> and \<open>eatLine\<close> return the eaten slice and the advanced one.\<close>

definition eatWord :: "slice \<Rightarrow> (slice \<times> slice) res" where
  "eatWord s =
     rbind (scan isspace (smem s) (pb s) (pe s)) (\<lambda>b.
     rbind (scan (\<lambda>c. \<not> isspace c) (smem s) b (pe s)) (\<lambda>e.
     Inr (slice_at (smem s) b (e - b), s\<lparr>pb := e\<rparr>)))"

definition eatLine :: "slice \<Rightarrow> (slice \<times> slice) res" where
  "eatLine s =
     rbind (scan (\<lambda>c. c \<noteq> LF \<and> c \<noteq> CR) (smem s) (pb s) (pe s)) (\<lambda>q.
     Inr (slice_at (smem s) (pb s) (q - pb s), s\<lparr>pb := q\<rparr>))"

definition trimSpace :: "slice \<Rightarrow> slice res" where
  "trimSpace s =
     rbind (scan isspace (smem s) (pb s) (pe s)) (\<lambda>b.
     rbind (scan_back isspace (smem s) b (pe s)) (\<lambda>e.
     Inr (s\<lparr>pb := b, pe := e\<rparr>)))"

definition starts_with :: "slice \<Rightarrow> slice \<Rightarrow> bool res" where
  "starts_with s x =
     (if ssize x \<le> ssize s
      then rbind (memcmp (smem s) (pb s) (smem x) (pb x) (nat (ssize x))) (\<lambda>r. Inr (r = 0))
      else Inr False)"

definition end_with :: "slice \<Rightarrow> slice \<Rightarrow> bool res" where
  "end_with s x =
     (if ssize x \<le> ssize s
      then rbind (memcmp (smem s) (pe s - ssize x) (smem x) (pb x) (nat (ssize x)))
             (\<lambda>r. Inr (r = 0))
      else Inr False)"

definition slice_eq :: "slice \<Rightarrow> slice \<Rightarrow> bool res" where
  "slice_eq x y =
     (if ssize x = ssize y
      then rbind (memcmp (smem x) (pb x) (smem y) (pb y) (nat (ssize x))) (\<lambda>r. Inr (r = 0))
      else Inr False)"

text \<open>\<open>compare\<close> narrows the common length to \<open>int\<close> before it calls \<open>memcmp\<close>, which
  takes it back as a \<open>size_t\<close>.\<close>

definition compare :: "slice \<Rightarrow> slice \<Rightarrow> int res" where
  "compare s b =
     (let sz = ssize s; bsz = ssize b;
          min_len = signed_take_bit 31 (if sz < bsz then sz else bsz)
      in rbind (memcmp (smem s) (pb s) (smem b) (pb b) (nat (min_len mod 2 ^ 64))) (\<lambda>r.
         Inr (if r = 0 then (if sz < bsz then -1 else if sz > bsz then 1 else r) else r)))"

definition slice_less :: "slice \<Rightarrow> slice \<Rightarrow> bool res" where
  "slice_less x y = rbind (compare x y) (\<lambda>r. Inr (r < 0))"

text \<open>The loop of \<open>split\<close>: \<open>q\<close> is the local \<open>pb\<close>, \<open>r\<close> the vector so far.\<close>

function split_loop :: "char \<Rightarrow> slice \<Rightarrow> int \<Rightarrow> int \<Rightarrow> slice list \<Rightarrow> (slice list \<times> int) res" where
  "split_loop ch s p q r =
     (if p < pe s
      then rbind (rd (smem s) p) (\<lambda>c.
             if c = ch
             then split_loop ch s (p + 1) (p + 1) (r @ [slice_at (smem s) q (p - q)])
             else split_loop ch s (p + 1) q r)
      else Inr (r, q))"
  by pat_completeness auto
termination by (relation "measure (\<lambda>(ch, s, p, q, r). nat (pe s - p))") auto

declare split_loop.simps [simp del]

definition split :: "char \<Rightarrow> slice \<Rightarrow> slice list res" where
  "split ch s =
     rbind (split_loop ch s (pb s) (pb s) []) (\<lambda>(r, q).
     Inr (if pe s \<noteq> pb s then r @ [slice_at (smem s) q (pe s - q)] else r))"

section \<open>Memory safety and functional behaviour\<close>

declare slice_ok_def [slice_defs] slice_at_def [slice_defs] contents_def [slice_defs]

lemma slice_of_ok [simp]: "slice_ok (slice_of s)" "contents (slice_of s) = s"
  by (simp_all add: slice_of_def slice_ok_def contents_def bytes_in_def)

lemma rd_in [simp]: "0 \<le> p \<Longrightarrow> p < int (length m) \<Longrightarrow> rd m p = Inr (m ! nat p)"
  by (simp add: rd_def)

lemma range_empty [simp]: "e \<le> b \<Longrightarrow> bytes_in m b e = []"
  by (simp add: bytes_in_def)

lemma range_Cons:
  assumes "0 \<le> b" "b < e" "e \<le> int (length m)"
  shows "bytes_in m b e = m ! nat b # bytes_in m (b + 1) e"
proof -
  have "nat b < length m" using assms by simp
  then have "drop (nat b) m = m ! nat b # drop (nat (b + 1)) m"
    using assms by (simp add: Cons_nth_drop_Suc nat_add_distrib)
  moreover have "nat (e - b) = Suc (nat (e - (b + 1)))" using assms by simp
  ultimately show ?thesis by (simp add: bytes_in_def)
qed

lemma range_snoc:
  assumes "0 \<le> b" "b < e" "e \<le> int (length m)"
  shows "bytes_in m b e = bytes_in m b (e - 1) @ [m ! nat (e - 1)]"
proof -
  have "nat (e - b) = Suc (nat (e - 1 - b))" "nat b + nat (e - 1 - b) = nat (e - 1)"
    using assms by simp_all
  moreover have "nat (e - 1 - b) < length (drop (nat b) m)" using assms by simp
  ultimately show ?thesis by (simp add: bytes_in_def take_Suc_conv_app_nth)
qed

lemma length_range [simp]:
  "0 \<le> b \<Longrightarrow> b \<le> e \<Longrightarrow> e \<le> int (length m) \<Longrightarrow> length (bytes_in m b e) = nat (e - b)"
  by (simp add: bytes_in_def)

lemma range_append:
  assumes "0 \<le> b" "b \<le> q" "q \<le> e" "e \<le> int (length m)"
  shows "bytes_in m b e = bytes_in m b q @ bytes_in m q e"
proof -
  have "drop (nat q) m = drop (nat (q - b)) (drop (nat b) m)"
    using assms by (simp add: add.commute flip: nat_add_distrib)
  moreover have "nat (e - b) = nat (q - b) + nat (e - q)" using assms by simp
  ultimately show ?thesis by (simp add: bytes_in_def take_add)
qed

text \<open>\<open>scan\<close> stays inside the range and stops where the predicate first fails.\<close>

lemma scan_spec:
  assumes "0 \<le> p" "p \<le> e" "e \<le> int (length m)"
  shows "\<exists>q. scan P m p e = Inr q \<and> p \<le> q \<and> q \<le> e \<and>
           bytes_in m p q = takeWhile P (bytes_in m p e) \<and> bytes_in m q e = dropWhile P (bytes_in m p e)"
  using assms
proof (induction P m p e rule: scan.induct)
  case (1 P m p e)
  show ?case
  proof (cases "p < e \<and> P (m ! nat p)")
    case True
    then have r: "bytes_in m p e = m ! nat p # bytes_in m (p + 1) e"
      using "1.prems" by (simp add: range_Cons)
    from True "1.prems" obtain q where q: "scan P m (p + 1) e = Inr q" "p + 1 \<le> q" "q \<le> e"
        "bytes_in m (p + 1) q = takeWhile P (bytes_in m (p + 1) e)"
        "bytes_in m q e = dropWhile P (bytes_in m (p + 1) e)"
      using "1.IH" [of "m ! nat p"] by auto
    have "bytes_in m p q = m ! nat p # bytes_in m (p + 1) q"
      using q "1.prems" by (simp add: range_Cons)
    then show ?thesis using True q r "1.prems" by (intro exI [of _ q]) (simp add: scan.simps [of P m p e])
  next
    case False
    then show ?thesis
      using "1.prems" by (intro exI [of _ p]) (auto simp: scan.simps [of P m p e] range_Cons [of p e])
  qed
qed

lemma scan_back_spec:
  assumes "0 \<le> b" "b \<le> e" "e \<le> int (length m)"
  shows "\<exists>q. scan_back P m b e = Inr q \<and> b \<le> q \<and> q \<le> e \<and>
           bytes_in m b q = rev (dropWhile P (rev (bytes_in m b e)))"
  using assms
proof (induction P m b e rule: scan_back.induct)
  case (1 P m b e)
  show ?case
  proof (cases "b < e \<and> P (m ! nat (e - 1))")
    case True
    then have r: "bytes_in m b e = bytes_in m b (e - 1) @ [m ! nat (e - 1)]"
      using "1.prems" by (simp add: range_snoc)
    from True "1.prems" obtain q where "scan_back P m b (e - 1) = Inr q" "b \<le> q" "q \<le> e - 1"
        "bytes_in m b q = rev (dropWhile P (rev (bytes_in m b (e - 1))))"
      using "1.IH" [of "m ! nat (e - 1)"] by auto
    then show ?thesis using True r "1.prems"
      by (intro exI [of _ q]) (simp add: scan_back.simps [of P m b e])
  next
    case False
    then show ?thesis
      using "1.prems"
      by (intro exI [of _ e]) (auto simp: scan_back.simps [of P m b e] range_snoc [of b e])
  qed
qed

lemma eatWord_spec:
  assumes "slice_ok s"
  shows "\<exists>w t. eatWord s = Inr (w, t) \<and> slice_ok w \<and> slice_ok t \<and>
           smem w = smem s \<and> smem t = smem s \<and> pe t = pe s \<and> pb s \<le> pb w \<and> pe w = pb t \<and>
           contents w = takeWhile (\<lambda>c. \<not> isspace c) (dropWhile isspace (contents s)) \<and>
           contents t = dropWhile (\<lambda>c. \<not> isspace c) (dropWhile isspace (contents s))"
proof -
  have ok: "0 \<le> pb s" "pb s \<le> pe s" "pe s \<le> int (length (smem s))"
    using assms by (auto simp: slice_ok_def)
  obtain b where b: "scan isspace (smem s) (pb s) (pe s) = Inr b" "pb s \<le> b" "b \<le> pe s"
      "bytes_in (smem s) b (pe s) = dropWhile isspace (contents s)"
    using scan_spec [OF ok, of isspace] by (auto simp: contents_def)
  then have "0 \<le> b" using ok by simp
  from scan_spec [OF this \<open>b \<le> pe s\<close> ok(3), of "\<lambda>c. \<not> isspace c"] b(4)
  obtain e where e: "scan (\<lambda>c. \<not> isspace c) (smem s) b (pe s) = Inr e" "b \<le> e" "e \<le> pe s"
      "bytes_in (smem s) b e = takeWhile (\<lambda>c. \<not> isspace c) (dropWhile isspace (contents s))"
      "bytes_in (smem s) e (pe s) = dropWhile (\<lambda>c. \<not> isspace c) (dropWhile isspace (contents s))"
    by auto
  then show ?thesis
    using b ok by (simp add: eatWord_def slice_at_def slice_ok_def contents_def)
qed

lemma eatLine_spec:
  assumes "slice_ok s"
  shows "\<exists>l t. eatLine s = Inr (l, t) \<and> slice_ok l \<and> slice_ok t \<and>
           smem l = smem s \<and> smem t = smem s \<and> pe t = pe s \<and> pb l = pb s \<and> pe l = pb t \<and>
           contents l = takeWhile (\<lambda>c. c \<noteq> LF \<and> c \<noteq> CR) (contents s) \<and>
           contents t = dropWhile (\<lambda>c. c \<noteq> LF \<and> c \<noteq> CR) (contents s)"
  using assms scan_spec [of "pb s" "pe s" "smem s" "\<lambda>c. c \<noteq> LF \<and> c \<noteq> CR"]
  by (auto simp: eatLine_def slice_at_def slice_ok_def contents_def)

definition trim :: "string \<Rightarrow> string" where
  "trim xs = rev (dropWhile isspace (rev (dropWhile isspace xs)))"

lemma trimSpace_spec:
  assumes "slice_ok s"
  shows "\<exists>t. trimSpace s = Inr t \<and> slice_ok t \<and> smem t = smem s \<and>
           pb s \<le> pb t \<and> pe t \<le> pe s \<and> contents t = trim (contents s)"
proof -
  have ok: "0 \<le> pb s" "pb s \<le> pe s" "pe s \<le> int (length (smem s))"
    using assms by (auto simp: slice_ok_def)
  obtain b where b: "scan isspace (smem s) (pb s) (pe s) = Inr b" "pb s \<le> b" "b \<le> pe s"
      "bytes_in (smem s) b (pe s) = dropWhile isspace (contents s)"
    using scan_spec [OF ok, of isspace] by (auto simp: contents_def)
  then have "0 \<le> b" using ok by simp
  from scan_back_spec [OF this \<open>b \<le> pe s\<close> ok(3), of isspace] b ok
  show ?thesis by (auto simp: trimSpace_def slice_ok_def contents_def trim_def)
qed

lemma ssize_ok:
  "slice_ok s \<Longrightarrow> length (smem s) < 2 ^ 64 \<Longrightarrow> ssize s = int (length (contents s))"
  by (simp add: slice_ok_def ssize_def contents_def)

lemma length_contents_le: "length (contents s) \<le> length (smem s)"
  by (auto simp: contents_def bytes_in_def)

lemma contents_Nil_iff: "slice_ok s \<Longrightarrow> contents s = [] \<longleftrightarrow> pe s = pb s"
  using length_range [of "pb s" "pe s" "smem s"]
  by (auto simp: slice_ok_def contents_def simp del: length_range)

text \<open>\<open>memcmp\<close> on equally long ranges decides the lexicographic order of their bytes.\<close>

lemma memcmp_spec:
  assumes "0 \<le> p" "p + int n \<le> int (length m)" "0 \<le> p'" "p' + int n \<le> int (length m')"
  shows "\<exists>r. memcmp m p m' p' n = Inr r \<and>
           (r = 0 \<longleftrightarrow> bytes_in m p (p + int n) = bytes_in m' p' (p' + int n)) \<and>
           (r < 0 \<longleftrightarrow> bytes_in m p (p + int n) < bytes_in m' p' (p' + int n))"
  using assms
proof (induction n arbitrary: p p')
  case 0
  then show ?case by simp
next
  case (Suc n)
  have c: "bytes_in m p (p + int (Suc n)) = m ! nat p # bytes_in m (p + 1) (p + 1 + int n)"
       "bytes_in m' p' (p' + int (Suc n)) = m' ! nat p' # bytes_in m' (p' + 1) (p' + 1 + int n)"
    using Suc.prems by (simp_all add: range_Cons algebra_simps)
  from Suc.IH [of "p + 1" "p' + 1"] Suc.prems
  obtain r where "memcmp m (p + 1) m' (p' + 1) n = Inr r"
      "r = 0 \<longleftrightarrow> bytes_in m (p + 1) (p + 1 + int n) = bytes_in m' (p' + 1) (p' + 1 + int n)"
      "r < 0 \<longleftrightarrow> bytes_in m (p + 1) (p + 1 + int n) < bytes_in m' (p' + 1) (p' + 1 + int n)"
    by auto
  then show ?case unfolding c using Suc.prems by auto
qed

lemma lex_common_prefix:
  fixes xs ys :: string
  defines "n \<equiv> min (length xs) (length ys)"
  shows "xs < ys \<longleftrightarrow> take n xs < take n ys \<or> take n xs = take n ys \<and> length xs < length ys"
    and "xs = ys \<longleftrightarrow> take n xs = take n ys \<and> length xs = length ys"
  unfolding n_def
proof (induction xs ys rule: list_induct2')
  case (4 x xs y ys)
  { case 1 show ?case using "4.IH" by auto }
  { case 2 show ?case using "4.IH" by auto }
qed auto

lemma compare_spec:
  assumes "slice_ok s" "slice_ok b" "length (smem s) < 2 ^ 31" "length (smem b) < 2 ^ 31"
  shows "\<exists>r. compare s b = Inr r \<and> (r < 0 \<longleftrightarrow> contents s < contents b) \<and>
           (r = 0 \<longleftrightarrow> contents s = contents b)"
proof -
  let ?n = "min (length (contents s)) (length (contents b))"
  have sz: "ssize s = int (length (contents s))" "ssize b = int (length (contents b))"
    using assms by (simp_all add: ssize_ok)
  have ls: "length (contents s) = nat (pe s - pb s)" "length (contents b) = nat (pe b - pb b)"
    using assms by (simp_all add: slice_ok_def contents_def)
  have n31: "int ?n < 2 ^ 31" using assms ls by (auto simp: slice_ok_def)
  then have "signed_take_bit 31 (int ?n) = int ?n"
    by (simp add: signed_take_bit_int_eq_self)
  then have ml: "nat (signed_take_bit 31 (if ssize s < ssize b then ssize s else ssize b) mod 2 ^ 64) = ?n"
    using n31 by (auto simp: sz min_def split: if_splits)
  have tk: "take ?n (contents s) = bytes_in (smem s) (pb s) (pb s + int ?n)"
       "take ?n (contents b) = bytes_in (smem b) (pb b) (pb b + int ?n)"
    using ls by (simp_all add: contents_def bytes_in_def min_def)
  have in_mem: "0 \<le> pb s" "0 \<le> pb b" "pb s + int ?n \<le> int (length (smem s))"
      "pb b + int ?n \<le> int (length (smem b))"
    using assms ls by (auto simp: slice_ok_def)
  obtain r where r: "memcmp (smem s) (pb s) (smem b) (pb b) ?n = Inr r"
      "r = 0 \<longleftrightarrow> take ?n (contents s) = take ?n (contents b)"
      "r < 0 \<longleftrightarrow> take ?n (contents s) < take ?n (contents b)"
    using memcmp_spec [OF in_mem(1,3,2,4)] unfolding tk by auto
  have "contents s < contents b \<longleftrightarrow> r < 0 \<or> r = 0 \<and> length (contents s) < length (contents b)"
       "contents s = contents b \<longleftrightarrow> r = 0 \<and> length (contents s) = length (contents b)"
    unfolding r(2,3) by (rule lex_common_prefix)+
  moreover have "compare s b = Inr (if r = 0 then (if length (contents s) < length (contents b) then -1
      else if length (contents s) > length (contents b) then 1 else r) else r)"
    unfolding compare_def Let_def ml by (simp add: r(1) sz)
  ultimately show ?thesis by auto
qed

lemma slice_eq_spec:
  assumes "slice_ok s" "slice_ok b" "length (smem s) < 2 ^ 64" "length (smem b) < 2 ^ 64"
  shows "slice_eq s b = Inr (contents s = contents b)"
proof (cases "length (contents s) = length (contents b)")
  case True
  have sz: "ssize s = int (length (contents s))" "ssize b = int (length (contents b))"
    using assms by (simp_all add: ssize_ok)
  have ls: "length (contents s) = nat (pe s - pb s)" "length (contents b) = nat (pe b - pb b)"
    using assms by (simp_all add: slice_ok_def contents_def)
  let ?n = "length (contents s)"
  have e: "pb s + int ?n = pe s" "pb b + int ?n = pe b"
    using assms ls True by (auto simp: slice_ok_def)
  obtain r where "memcmp (smem s) (pb s) (smem b) (pb b) ?n = Inr r"
      "r = 0 \<longleftrightarrow> bytes_in (smem s) (pb s) (pe s) = bytes_in (smem b) (pb b) (pe b)"
    using memcmp_spec [of "pb s" ?n "smem s" "pb b" "smem b"] assms
    unfolding e by (auto simp: slice_ok_def)
  then show ?thesis using True by (simp add: slice_eq_def sz contents_def)
next
  case False
  then show ?thesis using assms by (auto simp: slice_eq_def ssize_ok)
qed

subsection \<open>Splitting\<close>

fun pieces :: "char \<Rightarrow> string \<Rightarrow> string list" where
  "pieces ch [] = [[]]"
| "pieces ch (c # cs) =
     (if c = ch then [] # pieces ch cs
      else (c # hd (pieces ch cs)) # tl (pieces ch cs))"

fun join :: "char \<Rightarrow> string list \<Rightarrow> string" where
  "join ch [] = []"
| "join ch [p] = p"
| "join ch (p # q # ps) = p @ ch # join ch (q # ps)"

lemma pieces_neq_Nil [simp]: "pieces ch cs \<noteq> []"
  by (cases cs) auto

lemma join_pieces: "join ch (pieces ch cs) = cs"
proof (induction cs)
  case (Cons c cs)
  then show ?case by (cases "pieces ch cs"; cases "tl (pieces ch cs)") auto
qed simp

lemma pieces_no_sep: "p \<in> set (pieces ch cs) \<Longrightarrow> ch \<notin> set p"
proof (induction cs arbitrary: p)
  case (Cons c cs)
  then show ?case by (cases "pieces ch cs") (auto split: if_splits)
qed simp

lemma contents_slice_at [simp]: "contents (slice_at m q n) = bytes_in m q (q + n)"
  by (simp add: contents_def slice_at_def)

lemma split_loop_spec:
  assumes "0 \<le> q" "q \<le> p" "p \<le> pe s" "pe s \<le> int (length (smem s))"
  shows "\<exists>r' q'. split_loop ch s p q r = Inr (r', q') \<and>
           map contents r' @ [bytes_in (smem s) q' (pe s)] =
           map contents r @ (bytes_in (smem s) q p @ hd (pieces ch (bytes_in (smem s) p (pe s))))
             # tl (pieces ch (bytes_in (smem s) p (pe s)))"
  using assms
proof (induction ch s p q r rule: split_loop.induct)
  case (1 ch s p q r)
  show ?case
  proof (cases "p < pe s")
    case False
    then have "p = pe s" using "1.prems" by simp
    then show ?thesis by (simp add: split_loop.simps [of ch s "pe s" q r])
  next
    case True
    have p: "bytes_in (smem s) p (pe s) = smem s ! nat p # bytes_in (smem s) (p + 1) (pe s)"
      using True "1.prems" by (simp add: range_Cons)
    have q: "bytes_in (smem s) q (p + 1) = bytes_in (smem s) q p @ [smem s ! nat p]"
      using True "1.prems" by (simp add: range_snoc)
    show ?thesis
    proof (cases "smem s ! nat p = ch")
      case c: True
      have "bytes_in (smem s) (p + 1) (p + 1) = []" by simp
      with "1.IH"(1) [of "smem s ! nat p"] True c p "1.prems" show ?thesis
        by (auto simp: split_loop.simps [of ch s p q r])
    next
      case c: False
      with "1.IH"(2) [of "smem s ! nat p"] True p q "1.prems" show ?thesis
        by (auto simp: split_loop.simps [of ch s p q r])
    qed
  qed
qed

lemma split_spec:
  assumes "slice_ok s"
  shows "\<exists>rs. split ch s = Inr rs \<and>
           map contents rs = (if contents s = [] then [] else pieces ch (contents s))"
proof -
  have ok: "0 \<le> pb s" "pb s \<le> pe s" "pe s \<le> int (length (smem s))"
    using assms by (auto simp: slice_ok_def)
  have ne: "contents s = [] \<longleftrightarrow> pe s = pb s" using assms by (rule contents_Nil_iff)
  obtain r' q' where r: "split_loop ch s (pb s) (pb s) [] = Inr (r', q')"
      "map contents r' @ [bytes_in (smem s) q' (pe s)] = pieces ch (contents s)"
    using split_loop_spec [OF ok(1) order.refl ok(2,3), of ch "[]"] by (auto simp: contents_def)
  show ?thesis
  proof (cases "pe s = pb s")
    case True
    then have "r' = []" using r(1) by (simp add: split_loop.simps [of ch s "pb s" "pb s"])
    then show ?thesis using True r ne by (simp add: split_def)
  next
    case False
    then show ?thesis using r ne by (simp add: split_def)
  qed
qed

section \<open>Properties\<close>

text \<open>
  \<open>split(ch)\<close> stays inside the slice, cuts it at every \<open>ch\<close> and at nothing
  else: no piece contains \<open>ch\<close>, the pieces joined with \<open>ch\<close> give the slice back, and an empty
  slice has no pieces.
\<close>

theorem split_join:
  assumes "slice_ok s"
  shows "\<exists>rs. split ch s = Inr rs \<and> list_all (\<lambda>r. ch \<notin> set (contents r)) rs \<and>
           join ch (map contents rs) = contents s \<and> (rs = [] \<longleftrightarrow> contents s = [])"
proof -
  obtain rs where rs: "split ch s = Inr rs"
      "map contents rs = (if contents s = [] then [] else pieces ch (contents s))"
    using split_spec [OF assms] by blast
  have "ch \<notin> set (contents r)" if "r \<in> set rs" for r
  proof -
    have "contents r \<in> set (map contents rs)" using that by simp
    then show ?thesis using rs(2) pieces_no_sep by (auto split: if_splits)
  qed
  moreover have "rs = [] \<longleftrightarrow> contents s = []"
    using arg_cong [OF rs(2), of "\<lambda>x. x = []"] by (simp split: if_splits)
  ultimately show ?thesis using rs join_pieces by (auto simp: list_all_iff)
qed

theorem split_join_witness:
  "\<exists>rs. split CHR '','' (slice_of ''a,,b'') = Inr rs \<and> list_all (\<lambda>r. CHR '','' \<notin> set (contents r)) rs \<and>
     join CHR '','' (map contents rs) = contents (slice_of ''a,,b'') \<and>
     (rs = [] \<longleftrightarrow> contents (slice_of ''a,,b'') = [])"
  by (rule split_join) (simp add: slice_ok_def slice_of_def)

text \<open>
  \<open>compare\<close> reads only the two slices and decides the lexicographic
  byte order: negative, zero or positive as the left contents are less than, equal to or greater
  than the right.
\<close>

theorem compare_lexicographic:
  assumes "slice_ok s" "slice_ok b" "length (smem s) < 2 ^ 31" "length (smem b) < 2 ^ 31"
  shows "\<exists>r. compare s b = Inr r \<and> (r < 0 \<longleftrightarrow> contents s < contents b) \<and>
           (r = 0 \<longleftrightarrow> contents s = contents b) \<and> (r > 0 \<longleftrightarrow> contents s > contents b)"
  using compare_spec [OF assms] by (metis linorder_less_linear order_less_asym less_irrefl)

theorem compare_lexicographic_witness:
  "\<exists>r. compare (slice_of ''ab'') (slice_of ''abc'') = Inr r \<and>
     (r < 0 \<longleftrightarrow> contents (slice_of ''ab'') < contents (slice_of ''abc'')) \<and>
     (r = 0 \<longleftrightarrow> contents (slice_of ''ab'') = contents (slice_of ''abc'')) \<and>
     (r > 0 \<longleftrightarrow> contents (slice_of ''ab'') > contents (slice_of ''abc''))"
  by (rule compare_lexicographic) (simp_all add: slice_ok_def slice_of_def)

text \<open>
  \<open>eatWord\<close> skips white space, returns the following word and leaves the
  slice exactly behind it; both results are valid slices of the same memory.
\<close>

theorem eatWord_next_word:
  assumes "slice_ok s"
  shows "\<exists>w t sp. eatWord s = Inr (w, t) \<and> slice_ok w \<and> slice_ok t \<and> smem w = smem s \<and> smem t = smem s \<and>
           contents s = sp @ contents w @ contents t \<and> list_all isspace sp \<and>
           list_all (\<lambda>c. \<not> isspace c) (contents w) \<and> (contents t = [] \<or> isspace (hd (contents t)))"
proof -
  obtain w t where wt: "eatWord s = Inr (w, t)" "slice_ok w" "slice_ok t" "smem w = smem s" "smem t = smem s"
      "contents w = takeWhile (\<lambda>c. \<not> isspace c) (dropWhile isspace (contents s))"
      "contents t = dropWhile (\<lambda>c. \<not> isspace c) (dropWhile isspace (contents s))"
    using eatWord_spec [OF assms] by blast
  have "contents s = takeWhile isspace (contents s) @ contents w @ contents t"
    by (simp add: wt(6,7))
  moreover have "contents t = [] \<or> isspace (hd (contents t))"
    using hd_dropWhile [of "\<lambda>c. \<not> isspace c" "dropWhile isspace (contents s)"] by (auto simp: wt(7))
  moreover have "list_all isspace (takeWhile isspace (contents s))"
      "list_all (\<lambda>c. \<not> isspace c) (contents w)"
    by (auto simp: wt(6) list_all_iff dest: set_takeWhileD)
  ultimately show ?thesis using wt(1-5) by blast
qed

theorem eatWord_next_word_witness:
  "\<exists>w t sp. eatWord (slice_of '' GET /x'') = Inr (w, t) \<and> slice_ok w \<and> slice_ok t \<and>
     smem w = smem (slice_of '' GET /x'') \<and> smem t = smem (slice_of '' GET /x'') \<and>
     contents (slice_of '' GET /x'') = sp @ contents w @ contents t \<and> list_all isspace sp \<and>
     list_all (\<lambda>c. \<not> isspace c) (contents w) \<and> (contents t = [] \<or> isspace (hd (contents t)))"
  by (rule eatWord_next_word) (simp add: slice_ok_def slice_of_def)

end
