(* ===== verification/Port.thy ===== *)
theory Port
  imports LN_Prelude
begin

text \<open>
  Byte order: \<open>src/src/common/handy/port_posix.h\<close> and the \<open>net::hton\<close>/\<open>net::ntoh\<close>
  templates of \<open>net.h\<close>. \<open>mem16\<close>, \<open>mem32\<close> and \<open>mem64\<close> are the object
  representations a cast to \<open>unsigned char*\<close> sees on the little-endian hosts the code is
  built for (\<open>-march=native\<close>, \<open>kLittleEndian\<close>); \<open>load32\<close> is the read
  \<open>*(uint32_t* )p\<close>.
\<close>

section \<open>Object representation of unsigned integers\<close>

definition membytes :: "nat \<Rightarrow> nat \<Rightarrow> string" where
  "membytes n v = map (\<lambda>i. char_of (v div 256 ^ i)) [0..<n]"

fun loadbytes :: "string \<Rightarrow> nat" where
  "loadbytes [] = 0"
| "loadbytes (c # cs) = of_char c + 256 * loadbytes cs"

definition mem16 :: "16 word \<Rightarrow> string" where
  "mem16 v = membytes 2 (unat v)"

definition mem32 :: "32 word \<Rightarrow> string" where
  "mem32 v = membytes 4 (unat v)"

definition mem64 :: "64 word \<Rightarrow> string" where
  "mem64 v = membytes 8 (unat v)"

definition load32 :: "string \<Rightarrow> 32 word" where
  "load32 bs = of_nat (loadbytes (take 4 bs))"

lemma length_membytes [simp]: "length (membytes n v) = n"
  by (simp add: membytes_def)

lemma length_mem [simp]: "length (mem16 a) = 2" "length (mem32 b) = 4" "length (mem64 c) = 8"
  by (simp_all add: mem16_def mem32_def mem64_def)

lemma membytes_Suc: "membytes (Suc n) v = char_of v # membytes n (v div 256)"
proof -
  have "map (\<lambda>i. char_of (v div 256 ^ i)) [0..<Suc n]
      = char_of v # map (\<lambda>i. char_of (v div 256 ^ Suc i)) [0..<n]"
    by (simp add: map_upt_Suc del: upt_Suc)
  also have "map (\<lambda>i. char_of (v div 256 ^ Suc i)) [0..<n] = membytes n (v div 256)"
    by (simp add: membytes_def div_mult2_eq)
  finally show ?thesis by (simp add: membytes_def)
qed

lemma loadbytes_membytes [simp]: "loadbytes (membytes n v) = v mod 256 ^ n"
proof (induction n arbitrary: v)
  case 0
  then show ?case by (simp add: membytes_def)
next
  case (Suc n)
  then show ?case by (simp add: membytes_Suc mod_mult2_eq)
qed

lemma loadbytes_bound: "loadbytes bs < 256 ^ length bs"
proof (induction bs)
  case (Cons c bs)
  have "(of_char c :: nat) < 256" by simp
  with Cons have "of_char c + 256 * loadbytes bs < 256 * 256 ^ length bs" by linarith
  then show ?case by simp
qed simp

lemma char_of_low: "char_of (of_char c + 256 * x :: nat) = c"
  by (metis char_of_char char_of_mod_256 mod_mult_self2)

lemma membytes_loadbytes [simp]: "length bs = n \<Longrightarrow> membytes n (loadbytes bs) = bs"
proof (induction n arbitrary: bs)
  case 0
  then show ?case by (simp add: membytes_def)
next
  case (Suc n)
  then obtain c cs where "bs = c # cs" "length cs = n" by (cases bs) auto
  with Suc.IH show ?case by (simp add: membytes_Suc char_of_low)
qed

lemma load32_mem32 [simp]: "load32 (mem32 v @ rest) = v"
proof -
  have "unat v < 256 ^ 4" using unsigned_less [of v] by simp
  then show ?thesis by (simp add: load32_def mem32_def)
qed

lemma mem32_load32 [simp]: "length bs = 4 \<Longrightarrow> mem32 (load32 bs) = bs"
proof -
  assume l: "length bs = 4"
  have "loadbytes bs < 256 ^ 4" using loadbytes_bound [of bs] l by simp
  then show ?thesis using l by (simp add: mem32_def load32_def unat_of_nat take_bit_eq_mod)
qed

section \<open>\<open>port::htobe\<close>\<close>

definition kLittleEndian :: nat where
  "kLittleEndian = 1234"

definition htobe16 :: "16 word \<Rightarrow> 16 word" where
  "htobe16 v = (if kLittleEndian = 0 then v else let pv = mem16 v in
     push_bit 8 (of_char (pv ! 0)) OR of_char (pv ! 1))"

definition htobe32 :: "32 word \<Rightarrow> 32 word" where
  "htobe32 v = (if kLittleEndian = 0 then v else let pv = mem32 v in
     push_bit 24 (of_char (pv ! 0)) OR push_bit 16 (of_char (pv ! 1)) OR
     push_bit 8 (of_char (pv ! 2)) OR of_char (pv ! 3))"

definition htobe64 :: "64 word \<Rightarrow> 64 word" where
  "htobe64 v = (if kLittleEndian = 0 then v else let pv = mem64 v in
     push_bit 56 (of_char (pv ! 0)) OR push_bit 48 (of_char (pv ! 1)) OR
     push_bit 40 (of_char (pv ! 2)) OR push_bit 32 (of_char (pv ! 3)) OR
     push_bit 24 (of_char (pv ! 4)) OR push_bit 16 (of_char (pv ! 5)) OR
     push_bit 8 (of_char (pv ! 6)) OR of_char (pv ! 7))"

text \<open>A byte shifted in below a multiple of 256 is an addition.\<close>

lemma word_of_char: "(of_char c :: 'a::len word) = of_nat (of_char c)"
  by (simp add: of_char_def)

lemma push_or_add:
  assumes "(m::nat) < 2 ^ k"
  shows "push_bit k (of_nat n :: 'a::len word) OR of_nat m = of_nat (n * 2 ^ k + m)"
proof -
  have "\<not> bit m i" if "k \<le> i" for i
  proof -
    have "m < 2 ^ i" using assms that power_increasing [of k i "2::nat"] by linarith
    then show ?thesis by (simp add: bit_iff_odd)
  qed
  then have "push_bit k n + m = push_bit k n OR m"
    by (intro disjunctive_add) (auto simp: bit_push_bit_iff_nat)
  then show ?thesis
    by (metis of_nat_or_eq of_nat_push_bit push_bit_eq_mult)
qed

lemma loadbytes_snoc: "loadbytes (xs @ [c]) = of_char c * 256 ^ length xs + loadbytes xs"
  by (induction xs) (auto simp: algebra_simps)

lemma push_or_load:
  "k = 8 * length xs \<Longrightarrow>
   push_bit k (of_char c) OR of_nat (loadbytes xs) = (of_nat (loadbytes (xs @ [c])) :: 'a::len word)"
proof -
  assume k: "k = 8 * length xs"
  have e: "(256::nat) ^ length xs = 2 ^ k" by (simp add: k power_mult)
  have "loadbytes xs < 2 ^ k" using loadbytes_bound [of xs] e by simp
  then show ?thesis
    by (simp add: word_of_char push_or_add loadbytes_snoc e del: of_nat_add of_nat_mult)
qed

lemma of_char_load: "(of_char c :: 'a::len word) = of_nat (loadbytes [c])"
  by (simp add: word_of_char)

lemma htobe16_load: "htobe16 v = of_nat (loadbytes (rev (mem16 v)))"
proof -
  obtain a b where m: "mem16 v = [a, b]"
    using length2E [OF length_mem(1) [of v]] by blast
  show ?thesis
    by (simp add: htobe16_def kLittleEndian_def m push_or_load of_char_load [of b] del: loadbytes.simps)
qed

lemma htobe32_load: "htobe32 v = of_nat (loadbytes (rev (mem32 v)))"
proof -
  obtain a b c d where m: "mem32 v = [a, b, c, d]"
    using length4E [OF length_mem(2) [of v]] by blast
  show ?thesis
    by (simp add: htobe32_def kLittleEndian_def m push_or_load of_char_load [of d] del: loadbytes.simps)
qed

lemma htobe64_load: "htobe64 v = of_nat (loadbytes (rev (mem64 v)))"
proof -
  obtain a b c d e f g h where m: "mem64 v = [a, b, c, d, e, f, g, h]"
    using length8E [OF length_mem(3) [of v]] by blast
  show ?thesis
    by (simp add: htobe64_def kLittleEndian_def m push_or_load of_char_load [of h] del: loadbytes.simps)
qed

text \<open>On the wire (the object representation of the converted value) the most significant
  byte comes first.\<close>

lemma unat_loadbytes:
  "8 * length xs = LENGTH('a) \<Longrightarrow> unat (of_nat (loadbytes xs) :: 'a::len word) = loadbytes xs"
proof -
  assume l: "8 * length xs = LENGTH('a)"
  have "(256::nat) ^ length xs = 2 ^ LENGTH('a)" by (simp add: power_mult flip: l)
  then have "loadbytes xs < 2 ^ LENGTH('a)" using loadbytes_bound [of xs] by simp
  then show ?thesis by (simp add: unat_of_nat take_bit_eq_mod)
qed

lemma mem16_htobe16 [simp]: "mem16 (htobe16 v) = rev (mem16 v)"
  by (simp add: htobe16_load mem16_def unat_loadbytes)

lemma mem32_htobe32 [simp]: "mem32 (htobe32 v) = rev (mem32 v)"
  by (simp add: htobe32_load mem32_def unat_loadbytes)

lemma mem64_htobe64 [simp]: "mem64 (htobe64 v) = rev (mem64 v)"
  by (simp add: htobe64_load mem64_def unat_loadbytes)

lemma mem_inject:
  "mem16 a = mem16 a' \<Longrightarrow> a = a'" "mem32 b = mem32 b' \<Longrightarrow> b = b'" "mem64 c = mem64 c' \<Longrightarrow> c = c'"
proof -
  have "unat x = loadbytes (membytes n (unat x))" if "256 ^ n = (2::nat) ^ LENGTH('a)"
    for x :: "'a::len word" and n
    using that unsigned_less [of x, where 'a = nat] by simp
  note inj = this
  show "mem16 a = mem16 a' \<Longrightarrow> a = a'"
    using inj [of 2 a] inj [of 2 a'] by (simp add: mem16_def word_unat_eq_iff)
  show "mem32 b = mem32 b' \<Longrightarrow> b = b'"
    using inj [of 4 b] inj [of 4 b'] by (simp add: mem32_def word_unat_eq_iff)
  show "mem64 c = mem64 c' \<Longrightarrow> c = c'"
    using inj [of 8 c] inj [of 8 c'] by (simp add: mem64_def word_unat_eq_iff)
qed

lemma htobe32_htobe32 [simp]: "htobe32 (htobe32 v) = v"
  by (rule mem_inject) simp

lemma htobe16_htobe16 [simp]: "htobe16 (htobe16 v) = v"
  by (rule mem_inject) simp

lemma htobe64_htobe64 [simp]: "htobe64 (htobe64 v) = v"
  by (rule mem_inject) simp

section \<open>Properties\<close>

text \<open>
  Network byte order: the object representation of \<open>htobe(v)\<close> is
  that of \<open>v\<close> reversed, at 16, 32 and 64 bits, and converting twice gives the value back, so
  \<open>ntoh\<close> inverts \<open>hton\<close>.
\<close>

theorem network_byte_order:
  "mem16 (htobe16 a) = rev (mem16 a) \<and> mem32 (htobe32 b) = rev (mem32 b) \<and>
   mem64 (htobe64 c) = rev (mem64 c) \<and>
   htobe16 (htobe16 a) = a \<and> htobe32 (htobe32 b) = b \<and> htobe64 (htobe64 c) = c"
  by simp

end
