(* ===== verification/Buffer.thy ===== *)
theory Buffer
  imports Port
begin

text \<open>
  \<open>handy::Buffer\<close> (\<open>src/src/common/handy/net.h\<close>, \<open>net.cc\<close>): a growable byte queue over
  one heap block. A cell is \<open>None\<close> until it is written, since \<open>new char[n]\<close> leaves it
  indeterminate. \<open>size()\<close> is a \<open>size_t\<close> difference and wraps when more is consumed than
  is stored; copying such an inverted range is undefined and is the value
  \<open>Inl OutOfBounds\<close>. Allocation itself always succeeds in the model.
\<close>

section \<open>The interface of a byte queue\<close>

text \<open>What a client (a codec, a connection) relies on; a chain of \<open>append\<close> calls is one
  \<open>appends_with\<close>.\<close>

fun appends_with :: "(string \<Rightarrow> 'b \<Rightarrow> 'b res) \<Rightarrow> string list \<Rightarrow> 'b \<Rightarrow> 'b res" where
  "appends_with app [] b = Inr b"
| "appends_with app (p # ps) b = rbind (app p b) (appends_with app ps)"

locale byte_queue =
  fixes ok :: "'b \<Rightarrow> bool"
    and bytes :: "'b \<Rightarrow> string"
    and size_of :: "'b \<Rightarrow> nat"
    and append :: "string \<Rightarrow> 'b \<Rightarrow> 'b res"
    and consume :: "nat \<Rightarrow> 'b \<Rightarrow> 'b"
  assumes size_bytes: "ok b \<Longrightarrow> size_of b = length (bytes b)"
    and append_law: "ok b \<Longrightarrow> \<exists>b'. append p b = Inr b' \<and> ok b' \<and> bytes b' = bytes b @ p"
    and ok_consume: "ok b \<Longrightarrow> n \<le> length (bytes b) \<Longrightarrow> ok (consume n b)"
    and bytes_consume: "ok b \<Longrightarrow> n \<le> length (bytes b) \<Longrightarrow> bytes (consume n b) = drop n (bytes b)"
begin

lemma appends_law:
  "ok b \<Longrightarrow> \<exists>b'. appends_with append ps b = Inr b' \<and> ok b' \<and> bytes b' = bytes b @ concat ps"
proof (induction ps arbitrary: b)
  case Nil
  then show ?case by simp
next
  case (Cons p ps)
  from append_law [OF Cons.prems, of p] obtain b' where
    b': "append p b = Inr b'" "ok b'" "bytes b' = bytes b @ p" by blast
  from Cons.IH [OF b'(2)] b' show ?case by auto
qed

text \<open>Queue order: what was appended last is what is left after the older bytes are consumed.\<close>

lemma append_consume:
  "ok b \<Longrightarrow> append p b = Inr b' \<Longrightarrow> bytes (consume (size_of b) b') = p"
  using append_law [of b p] size_bytes [of b] bytes_consume [of b' "size_of b"] by auto

end

section \<open>The class\<close>

record buffer =
  cells :: "char option list option"  \<comment> \<open>\<open>buf_\<close>: the block, or \<open>NULL\<close>\<close>
  bb :: nat                           \<comment> \<open>\<open>b_\<close>\<close>
  be :: nat                           \<comment> \<open>\<open>e_\<close>\<close>
  bcap :: nat                         \<comment> \<open>\<open>cap_\<close>\<close>
  bexp :: nat                         \<comment> \<open>\<open>exp_\<close>\<close>

definition buf_new :: buffer where
  "buf_new = \<lparr>cells = None, bb = 0, be = 0, bcap = 0, bexp = 512\<rparr>"

definition bclear :: "buffer \<Rightarrow> buffer" where
  "bclear b = b\<lparr>cells := None, bcap := 0, bb := 0, be := 0\<rparr>"

definition bsize :: "buffer \<Rightarrow> nat" where
  "bsize b = (if bb b \<le> be b then be b - bb b else 2 ^ 64 - (bb b - be b))"

definition bempty :: "buffer \<Rightarrow> bool" where
  "bempty b \<longleftrightarrow> be b = bb b"

definition space :: "buffer \<Rightarrow> nat" where
  "space b = bcap b - be b"

definition addSize :: "nat \<Rightarrow> buffer \<Rightarrow> buffer" where
  "addSize len b = b\<lparr>be := be b + len\<rparr>"

definition blk :: "buffer \<Rightarrow> char option list" where
  "blk b = (case cells b of None \<Rightarrow> [] | Some cs \<Rightarrow> cs)"

text \<open>\<open>std::copy(begin(), end(), \<dots>)\<close>: the cells of \<open>[b_, e_)\<close>.\<close>

definition live :: "buffer \<Rightarrow> char option list" where
  "live b = take (be b - bb b) (drop (bb b) (blk b))"

definition moveHead :: "buffer \<Rightarrow> buffer res" where
  "moveHead b =
     (if be b < bb b then Inl OutOfBounds
      else Inr (b\<lparr>cells := Some (live b @ drop (be b - bb b) (blk b)), be := be b - bb b, bb := 0\<rparr>))"

definition expand :: "nat \<Rightarrow> buffer \<Rightarrow> buffer res" where
  "expand len b =
     (let ncap = max (bexp b) (max (2 * bcap b) (bsize b + len)) in
      if be b < bb b then Inl OutOfBounds
      else Inr (b\<lparr>cells := Some (live b @ replicate (ncap - (be b - bb b)) None),
                   be := be b - bb b, bb := 0, bcap := ncap\<rparr>))"

text \<open>\<open>char* makeRoom(size_t len)\<close>; the returned pointer is \<open>end()\<close>, the offset \<open>be\<close>.\<close>

definition makeRoom :: "nat \<Rightarrow> buffer \<Rightarrow> buffer res" where
  "makeRoom len b =
     (if be b + len \<le> bcap b then Inr b
      else if bsize b + len < bcap b div 2 then moveHead b
      else expand len b)"

text \<open>\<open>void makeRoom()\<close>\<close>

definition makeRoom0 :: "buffer \<Rightarrow> buffer res" where
  "makeRoom0 b = (if space b < bexp b then expand 0 b else Inr b)"

definition allocRoom :: "nat \<Rightarrow> buffer \<Rightarrow> (nat \<times> buffer) res" where
  "allocRoom len b = rbind (makeRoom len b) (\<lambda>b'. Inr (be b', addSize len b'))"

text \<open>A write of bytes through a pointer into the block.\<close>

definition poke :: "nat \<Rightarrow> string \<Rightarrow> buffer \<Rightarrow> buffer res" where
  "poke p cs b =
     (if cs = [] then Inr b
      else case cells b of None \<Rightarrow> Inl NullDeref
      | Some bl \<Rightarrow>
          if length bl < p + length cs then Inl OutOfBounds
          else Inr (b\<lparr>cells := Some (take p bl @ map Some cs @ drop (p + length cs) bl)\<rparr>))"

definition bappend :: "string \<Rightarrow> buffer \<Rightarrow> buffer res" where
  "bappend p b = rbind (allocRoom (length p) b) (\<lambda>(q, b'). poke q p b')"

text \<open>\<open>appendValue\<close> at \<open>uint32_t\<close>.\<close>

definition appendValue32 :: "32 word \<Rightarrow> buffer \<Rightarrow> buffer res" where
  "appendValue32 v = bappend (mem32 v)"

definition consume :: "nat \<Rightarrow> buffer \<Rightarrow> buffer" where
  "consume len b = (let b' = b\<lparr>bb := bb b + len\<rparr> in if bsize b' = 0 then bclear b' else b')"

definition setSuggestSize :: "nat \<Rightarrow> buffer \<Rightarrow> buffer" where
  "setSuggestSize sz b = b\<lparr>bexp := sz\<rparr>"

definition bytes :: "buffer \<Rightarrow> string" where
  "bytes b = map the (live b)"

text \<open>\<open>absorb(Buffer& buf)\<close> for \<open>&buf != this\<close>: the pair is \<open>( *this, buf)\<close> after the call.
  For \<open>&buf == this\<close> the method does nothing.\<close>

definition absorb :: "buffer \<Rightarrow> buffer \<Rightarrow> (buffer \<times> buffer) res" where
  "absorb this buf =
     (if bsize this = 0
      then Inr (buf\<lparr>bexp := bexp this\<rparr>, this\<lparr>bexp := bexp buf\<rparr>)
      else rbind (bappend (bytes buf) this) (\<lambda>this'. Inr (this', bclear buf)))"

text \<open>\<open>copyFrom\<close>, the copy constructor.\<close>

definition copyFrom :: "buffer \<Rightarrow> buffer res" where
  "copyFrom b =
     (case cells b of None \<Rightarrow> Inr b
      | Some bl \<Rightarrow>
          if be b < bb b \<or> bcap b < be b then Inl OutOfBounds
          else Inr (b\<lparr>cells := Some (replicate (bb b) None @ live b @ replicate (bcap b - be b) None)\<rparr>))"

section \<open>Invariant\<close>

definition buffer_ok :: "buffer \<Rightarrow> bool" where
  "buffer_ok b \<longleftrightarrow> bb b \<le> be b \<and> be b \<le> bcap b \<and> length (blk b) = bcap b \<and> None \<notin> set (live b)"

lemma length_live [simp]: "buffer_ok b \<Longrightarrow> length (live b) = be b - bb b"
  by (auto simp: buffer_ok_def live_def)

lemma bsize_bytes: "buffer_ok b \<Longrightarrow> bsize b = length (bytes b)"
  by (simp add: bytes_def bsize_def) (simp add: buffer_ok_def)

lemma bempty_bytes: "buffer_ok b \<Longrightarrow> bempty b \<longleftrightarrow> bytes b = []"
  using length_live [of b] by (auto simp: bempty_def bytes_def buffer_ok_def simp flip: length_0_conv)

lemma buf_new_ok [simp]: "buffer_ok buf_new" "bytes buf_new = []"
  by (simp_all add: buffer_ok_def buf_new_def blk_def live_def bytes_def)

lemma bclear_ok [simp]: "buffer_ok (bclear b)" "bytes (bclear b) = []"
  by (simp_all add: buffer_ok_def bclear_def blk_def live_def bytes_def)

lemma compact_ok:
  assumes "None \<notin> set xs" "length xs = n" "n + length r = c"
  shows "buffer_ok (b\<lparr>cells := Some (xs @ r), bb := 0, be := n, bcap := c\<rparr>) \<and>
         live (b\<lparr>cells := Some (xs @ r), bb := 0, be := n, bcap := c\<rparr>) = xs"
  using assms by (auto simp: live_def blk_def buffer_ok_def)

text \<open>Where \<open>makeRoom\<close> succeeds it keeps the bytes and leaves the room asked for.\<close>

lemma moveHead_ok:
  assumes "buffer_ok b"
  shows "\<exists>b'. moveHead b = Inr b' \<and> buffer_ok b' \<and> live b' = live b \<and> bexp b' = bexp b \<and>
           be b' = be b - bb b \<and> bcap b' = bcap b"
proof -
  let ?b' = "b\<lparr>cells := Some (live b @ drop (be b - bb b) (blk b)), bb := 0, be := be b - bb b, bcap := bcap b\<rparr>"
  have ok: "bb b \<le> be b" "be b \<le> bcap b" "length (blk b) = bcap b" "None \<notin> set (live b)"
    using assms by (auto simp: buffer_ok_def)
  have "moveHead b = Inr ?b'" using ok by (simp add: moveHead_def)
  moreover have "buffer_ok ?b' \<and> live ?b' = live b"
    using ok assms by (intro compact_ok) auto
  ultimately show ?thesis by simp
qed

lemma expand_ok:
  assumes "buffer_ok b"
  shows "\<exists>b'. expand len b = Inr b' \<and> buffer_ok b' \<and> live b' = live b \<and> bexp b' = bexp b \<and>
           be b' = be b - bb b \<and> bcap b' = max (bexp b) (max (2 * bcap b) (be b - bb b + len))"
proof -
  have ok: "bb b \<le> be b" "None \<notin> set (live b)" using assms by (auto simp: buffer_ok_def)
  define ncap where "ncap = max (bexp b) (max (2 * bcap b) (be b - bb b + len))"
  let ?b' = "b\<lparr>cells := Some (live b @ replicate (ncap - (be b - bb b)) None), bb := 0,
               be := be b - bb b, bcap := ncap\<rparr>"
  have "expand len b = Inr ?b'" using ok by (simp add: expand_def bsize_def ncap_def Let_def)
  moreover have "buffer_ok ?b' \<and> live ?b' = live b"
    using ok assms by (intro compact_ok) (auto simp: ncap_def)
  ultimately show ?thesis by (simp add: ncap_def)
qed

lemma makeRoom_ok:
  assumes "buffer_ok b"
  shows "\<exists>b'. makeRoom len b = Inr b' \<and> buffer_ok b' \<and> live b' = live b \<and> bexp b' = bexp b \<and>
           be b' + len \<le> bcap b'"
proof -
  have "bsize b = be b - bb b" using assms by (simp add: bsize_def buffer_ok_def)
  then show ?thesis
    using moveHead_ok [OF assms] expand_ok [OF assms, of len] assms
    by (auto simp: makeRoom_def le_max_iff_disj)
qed

lemma makeRoom0_ok:
  assumes "buffer_ok b"
  shows "\<exists>b'. makeRoom0 b = Inr b' \<and> buffer_ok b' \<and> bytes b' = bytes b \<and> bexp b' = bexp b \<and>
           (0 < bexp b \<longrightarrow> 0 < space b')"
proof (cases "space b < bexp b")
  case True
  obtain b' where b': "expand 0 b = Inr b'" "buffer_ok b'" "live b' = live b" "bexp b' = bexp b"
      "be b' = be b - bb b" "bcap b' = max (bexp b) (max (2 * bcap b) (be b - bb b + 0))"
    using expand_ok [OF assms] by blast
  have "be b \<le> bcap b" using assms by (simp add: buffer_ok_def)
  then have "0 < space b'" if "0 < bexp b"
    using that b' by (cases "bcap b = 0") (auto simp: space_def max_def)
  then show ?thesis using True b' by (simp add: makeRoom0_def bytes_def)
next
  case False
  then show ?thesis using assms by (auto simp: makeRoom0_def)
qed

lemma live_addSize_poke:
  assumes "buffer_ok b" "be b + length cs \<le> bcap b"
  shows "\<exists>b'. poke (be b) cs (addSize (length cs) b) = Inr b' \<and> buffer_ok b' \<and>
           live b' = live b @ map Some cs \<and> bexp b' = bexp b"
proof (cases "cs = []")
  case True
  then show ?thesis using assms by (simp add: poke_def addSize_def)
next
  case False
  have ok: "bb b \<le> be b" "length (blk b) = bcap b" "None \<notin> set (live b)"
    using assms by (auto simp: buffer_ok_def)
  then obtain bl where bl: "cells b = Some bl" "length bl = bcap b"
    using assms False by (cases "cells b") (auto simp: blk_def)
  let ?b' = "addSize (length cs) b\<lparr>cells := Some (take (be b) bl @ map Some cs @ drop (be b + length cs) bl)\<rparr>"
  have p: "poke (be b) cs (addSize (length cs) b) = Inr ?b'"
    using assms bl False by (simp add: poke_def addSize_def)
  have l: "live ?b' = live b @ map Some cs"
    using assms bl ok by (simp add: live_def blk_def addSize_def take_drop)
  then have "buffer_ok ?b'"
    using assms bl ok by (auto simp: buffer_ok_def addSize_def blk_def)
  then show ?thesis using p l by (simp add: addSize_def)
qed

lemma bappend_ok:
  assumes "buffer_ok b"
  shows "\<exists>b'. bappend p b = Inr b' \<and> buffer_ok b' \<and> bytes b' = bytes b @ p \<and> bexp b' = bexp b"
proof -
  obtain c where c: "makeRoom (length p) b = Inr c" "buffer_ok c" "live c = live b" "bexp c = bexp b"
      "be c + length p \<le> bcap c"
    using makeRoom_ok [OF assms] by blast
  obtain b' where "poke (be c) p (addSize (length p) c) = Inr b'" "buffer_ok b'"
      "live b' = live c @ map Some p" "bexp b' = bexp c"
    using live_addSize_poke [OF c(2,5)] by blast
  then show ?thesis using c by (simp add: bappend_def allocRoom_def bytes_def o_def)
qed

lemma consume_ok:
  assumes "buffer_ok b" "n \<le> length (bytes b)"
  shows "buffer_ok (consume n b) \<and> bytes (consume n b) = drop n (bytes b)"
proof -
  have n: "bb b + n \<le> be b" "length (bytes b) = be b - bb b"
    using assms by (auto simp: bytes_def buffer_ok_def)
  have l: "live (b\<lparr>bb := bb b + n\<rparr>) = drop n (live b)"
    by (simp add: live_def blk_def drop_take add.commute)
  show ?thesis
  proof (cases "bb b + n = be b")
    case True
    then show ?thesis using n by (simp add: consume_def Let_def bsize_def)
  next
    case False
    then have c: "consume n b = b\<lparr>bb := bb b + n\<rparr>"
      using n by (simp add: consume_def Let_def bsize_def)
    have "None \<notin> set (drop n (live b))"
      using assms by (auto simp: buffer_ok_def dest: in_set_dropD)
    then show ?thesis
      using assms n by (simp add: c l bytes_def drop_map buffer_ok_def blk_def)
  qed
qed

interpretation bq: byte_queue buffer_ok bytes bsize bappend consume
  proof (unfold_locales, goal_cases)
  case (1 b)
  then show ?case by (rule bsize_bytes)
next
  case (2 b p)
  then show ?case using bappend_ok by blast
next
  case (3 b n)
  then show ?case using consume_ok by blast
next
  case (4 b n)
  then show ?case using consume_ok by blast
qed

text \<open>\<open>absorb\<close> moves every byte of its argument behind its own and empties the argument.\<close>

lemma absorb_ok:
  assumes "buffer_ok a" "buffer_ok b"
  shows "\<exists>a' b'. absorb a b = Inr (a', b') \<and> buffer_ok a' \<and> buffer_ok b' \<and>
           bytes a' = bytes a @ bytes b \<and> bytes b' = []  \<and> bexp a' = bexp a"
proof (cases "bytes a = []")
  case True
  have swap: "buffer_ok (c\<lparr>bexp := n\<rparr>) = buffer_ok c" "bytes (c\<lparr>bexp := n\<rparr>) = bytes c" for c n
    by (simp_all add: buffer_ok_def blk_def live_def bytes_def)
  show ?thesis using assms True by (simp add: absorb_def bsize_bytes swap)
next
  case False
  then show ?thesis using assms bappend_ok [OF assms(1), of "bytes b"]
    by (auto simp: absorb_def bsize_bytes)
qed

lemma copyFrom_ok:
  assumes "buffer_ok b"
  shows "\<exists>b'. copyFrom b = Inr b' \<and> buffer_ok b' \<and> bytes b' = bytes b"
proof (cases "cells b")
  case None
  then show ?thesis using assms by (simp add: copyFrom_def)
next
  case (Some bl)
  let ?b' = "b\<lparr>cells := Some (replicate (bb b) None @ live b @ replicate (bcap b - be b) None)\<rparr>"
  have ok: "bb b \<le> be b" "be b \<le> bcap b" "None \<notin> set (live b)" "length (live b) = be b - bb b"
    using assms by (auto simp: buffer_ok_def)
  have "live (b\<lparr>cells := Some (replicate (bb b) None @ xs @ r)\<rparr>) = xs"
    if "length xs = be b - bb b" for xs r
    using that by (simp add: live_def blk_def)
  then have l: "live ?b' = live b" using ok by blast
  then have "buffer_ok ?b'" using ok by (simp add: buffer_ok_def blk_def)
  then show ?thesis using ok Some l by (simp add: copyFrom_def bytes_def)
qed

section \<open>Refinement of a byte queue\<close>

text \<open>The operations clients perform on one buffer, on the class and on a plain byte string.
  \<open>OpRead\<close> is the receive pattern \<open>makeRoom(); read(end(), \<dots>); addSize(n)\<close>.\<close>

datatype buf_op = OpAppend string | OpConsume nat | OpRead string | OpAbsorb buffer | OpClear

fun run_op :: "buf_op \<Rightarrow> buffer \<Rightarrow> buffer res" where
  "run_op (OpAppend p) b = bappend p b"
| "run_op (OpConsume n) b = Inr (consume n b)"
| "run_op (OpRead d) b = rbind (makeRoom (length d) b) (\<lambda>b1. poke (be b1) d (addSize (length d) b1))"
| "run_op (OpAbsorb x) b = rbind (absorb b x) (\<lambda>(b', _). Inr b')"
| "run_op OpClear b = Inr (bclear b)"

fun abs_op :: "buf_op \<Rightarrow> string \<Rightarrow> string" where
  "abs_op (OpAppend p) xs = xs @ p"
| "abs_op (OpConsume n) xs = drop n xs"
| "abs_op (OpRead d) xs = xs @ d"
| "abs_op (OpAbsorb x) xs = xs @ bytes x"
| "abs_op OpClear xs = []"

fun op_allowed :: "buf_op \<Rightarrow> string \<Rightarrow> bool" where
  "op_allowed (OpConsume n) xs = (n \<le> length xs)"
| "op_allowed (OpAbsorb x) xs = buffer_ok x"
| "op_allowed _ xs = True"

fun run_all :: "buf_op list \<Rightarrow> buffer \<Rightarrow> buffer res" where
  "run_all [] b = Inr b"
| "run_all (opr # oprs) b = rbind (run_op opr b) (run_all oprs)"

fun all_allowed :: "buf_op list \<Rightarrow> string \<Rightarrow> bool" where
  "all_allowed [] xs = True"
| "all_allowed (opr # oprs) xs = (op_allowed opr xs \<and> all_allowed oprs (abs_op opr xs))"

lemma run_op_ok:
  assumes "buffer_ok b" "op_allowed opr (bytes b)"
  shows "\<exists>b'. run_op opr b = Inr b' \<and> buffer_ok b' \<and> bytes b' = abs_op opr (bytes b)"
proof (cases opr)
  case (OpAppend p)
  then show ?thesis using bappend_ok [OF assms(1), of p] by auto
next
  case (OpConsume n)
  then show ?thesis using consume_ok [OF assms(1), of n] assms(2) by simp
next
  case (OpRead d)
  then show ?thesis using bappend_ok [OF assms(1), of d]
    by (auto simp: bappend_def allocRoom_def rbind_assoc)
next
  case (OpAbsorb x)
  then show ?thesis using absorb_ok [OF assms(1), of x] assms(2) by auto
next
  case OpClear
  then show ?thesis by simp
qed

lemma run_all_ok:
  "buffer_ok b \<Longrightarrow> all_allowed oprs (bytes b) \<Longrightarrow>
   \<exists>b'. run_all oprs b = Inr b' \<and> buffer_ok b' \<and> bytes b' = fold abs_op oprs (bytes b)"
proof (induction oprs arbitrary: b)
  case Nil
  then show ?case by simp
next
  case (Cons opr oprs)
  then obtain b1 where "run_op opr b = Inr b1" "buffer_ok b1" "bytes b1 = abs_op opr (bytes b)"
    using run_op_ok [of b opr] by auto
  then show ?case using Cons.IH [of b1] Cons.prems by auto
qed

section \<open>Properties\<close>

text \<open>
  C6. \<open>Buffer\<close> refines a byte string: from a new buffer, any sequence of
  \<open>append\<close>, \<open>consume\<close> of at most what is stored, receive, \<open>absorb\<close> and \<open>clear\<close> runs without
  touching memory outside the block, keeps the class invariant, and holds exactly the bytes the
  string operations leave, through every move and reallocation.
\<close>

theorem buffer_refines_queue:
  assumes "all_allowed oprs []"
  shows "\<exists>b. run_all oprs buf_new = Inr b \<and> buffer_ok b \<and> bytes b = fold abs_op oprs [] \<and>
           bsize b = length (fold abs_op oprs [])"
  using run_all_ok [of buf_new oprs] assms bsize_bytes by auto

theorem buffer_refines_queue_witness:
  "\<exists>b. run_all [OpAppend ''abc'', OpConsume 1, OpRead ''d''] buf_new = Inr b \<and> buffer_ok b \<and>
     bytes b = fold abs_op [OpAppend ''abc'', OpConsume 1, OpRead ''d''] [] \<and>
     bsize b = length (fold abs_op [OpAppend ''abc'', OpConsume 1, OpRead ''d''] [])"
  by (rule buffer_refines_queue) simp

end
