(* ===== verification/Codec.thy ===== *)
theory Codec
  imports Slice Buffer "HOL-Library.Sublist"
begin

text \<open>
  The message codecs of \<open>src/src/common/handy/codec.h\<close> and \<open>codec.cc\<close>, and the loop of
  \<open>TcpConn::onMsg\<close> (\<open>conn.cc\<close>) that cuts a byte stream into messages with one of them.
  \<open>tryDecode\<close> returns its \<open>int\<close> result and, where it assigns it, the slice \<open>msg\<close>.
\<close>

section \<open>The codecs\<close>

type_synonym decoded = "(int \<times> slice option) res"

definition to_int :: "int \<Rightarrow> int" where  \<comment> \<open>conversion to a 32-bit \<open>int\<close>\<close>
  "to_int n = signed_take_bit 31 n"

lemma to_int_id [simp]: "- (2 ^ 31) \<le> n \<Longrightarrow> n < 2 ^ 31 \<Longrightarrow> to_int n = n"
  by (simp add: to_int_def signed_take_bit_int_eq_self)

definition EOT :: char where "EOT = CHR 0x04"

subsection \<open>\<open>LineCodec\<close>\<close>

function line_scan :: "slice \<Rightarrow> int \<Rightarrow> decoded" where
  "line_scan data i =
     (if i < ssize data
      then rbind (sidx data i) (\<lambda>c.
        if c = LF
        then (if 0 < i
              then rbind (sidx data (i - 1)) (\<lambda>c'.
                     if c' = CR
                     then Inr (to_int (i + 1), Some (slice_at (smem data) (pb data) (i - 1)))
                     else Inr (to_int (i + 1), Some (slice_at (smem data) (pb data) i)))
              else Inr (to_int (i + 1), Some (slice_at (smem data) (pb data) i)))
        else line_scan data (i + 1))
      else Inr (0, None))"
  by pat_completeness auto
termination by (relation "measure (\<lambda>(data, i). nat (ssize data - i))") auto

declare line_scan.simps [simp del]

definition line_tryDecode :: "slice \<Rightarrow> decoded" where
  "line_tryDecode data =
     (if ssize data = 1
      then rbind (sidx data 0) (\<lambda>c. if c = EOT then Inr (1, Some data) else line_scan data 0)
      else line_scan data 0)"

definition line_encode :: "string \<Rightarrow> buffer \<Rightarrow> buffer res" where
  "line_encode msg buf = appends_with bappend [msg, [CR, LF]] buf"

subsection \<open>\<open>LengthCodec\<close>\<close>

text \<open>\<open>*(int32_t* )p\<close>\<close>

definition rd32 :: "string \<Rightarrow> int \<Rightarrow> 32 word res" where
  "rd32 m p =
     (if 0 \<le> p \<and> p + 4 \<le> int (length m) then Inr (load32 (drop (nat p) m)) else Inl OutOfBounds)"

definition length_tryDecode :: "slice \<Rightarrow> decoded" where
  "length_tryDecode data =
     (if ssize data < 8 then Inr (0, None)
      else rbind (rd32 (smem data) (pb data + 4)) (\<lambda>w.
        let len = sint (htobe32 w) in
        if len > 1024 * 1024 then Inr (-1, None)
        else rbind (memcmp (smem data) (pb data) ''mBdT'' 0 4) (\<lambda>r.
          if r \<noteq> 0 then Inr (-1, None)
          else if to_int (ssize data) \<ge> len + 8
          then Inr (len + 8, Some (slice_at (smem data) (pb data + 8) len))
          else Inr (0, None))))"

definition length_encode :: "string \<Rightarrow> buffer \<Rightarrow> buffer res" where
  "length_encode msg buf =
     appends_with bappend [''mBdT'', mem32 (htobe32 (of_nat (length msg))), msg] buf"

section \<open>The contract of a codec and the read loop over it\<close>

text \<open>\<open>frame m\<close> is what \<open>encode\<close> appends for \<open>m\<close>; \<open>valid\<close> are the messages a peer may
  send. The memory of a slice is below 2 GiB, as the \<open>int\<close> result requires.\<close>

locale codec =
  fixes decode :: "slice \<Rightarrow> decoded"
    and encode :: "string \<Rightarrow> buffer \<Rightarrow> buffer res"
    and frame :: "string \<Rightarrow> string"
    and valid :: "string \<Rightarrow> bool"
  assumes encode_frame: "buffer_ok b \<Longrightarrow>
      \<exists>b'. encode m b = Inr b' \<and> buffer_ok b' \<and> bytes b' = bytes b @ frame m"
    and decode_frame: "slice_ok s \<Longrightarrow> length (smem s) < 2 ^ 31 \<Longrightarrow> valid m \<Longrightarrow>
      contents s = frame m @ rest \<Longrightarrow>
      \<exists>sl. decode s = Inr (int (length (frame m)), Some sl) \<and> slice_ok sl \<and> contents sl = m"
    and decode_partial: "slice_ok s \<Longrightarrow> length (smem s) < 2 ^ 31 \<Longrightarrow> valid m \<Longrightarrow>
      strict_prefix (contents s) (frame m) \<Longrightarrow> decode s = Inr (0, None)"
    and decode_empty: "slice_ok s \<Longrightarrow> contents s = [] \<Longrightarrow> decode s = Inr (0, None)"
    and frame_nonempty: "valid m \<Longrightarrow> frame m \<noteq> []"

text \<open>
  The callback \<open>TcpConn::onMsg\<close> installs with \<open>onRead\<close>: decode and deliver until the codec
  asks for more or reports an error (the flag of the result: the channel is closed). The codec
  is a virtual object, so nothing bounds the loop a priori and not returning is \<open>None\<close>.
\<close>

partial_function (option) onMsg_loop ::
  "(slice \<Rightarrow> decoded) \<Rightarrow> buffer \<Rightarrow> slice list \<Rightarrow> (slice list \<times> buffer \<times> bool) res option" where
  "onMsg_loop tryDecode input got =
     (case tryDecode (slice_of (bytes input)) of
        Inl e \<Rightarrow> Some (Inl e)
      | Inr (r, msg) \<Rightarrow>
          if r < 0 then Some (Inr (got, input, True))
          else if r = 0 then Some (Inr (got, input, False))
          else onMsg_loop tryDecode (consume (nat r) input)
                 (got @ (case msg of None \<Rightarrow> [] | Some m \<Rightarrow> [m])))"

text \<open>Reads of arbitrary sizes: each chunk is appended to the input and the loop is run.\<close>

fun feed :: "(slice \<Rightarrow> decoded) \<Rightarrow> buffer \<Rightarrow> slice list \<Rightarrow> string list \<Rightarrow>
    (slice list \<times> buffer \<times> bool) res option" where
  "feed dec input got [] = Some (Inr (got, input, False))"
| "feed dec input got (c # cs) =
     (case bappend c input of
        Inl e \<Rightarrow> Some (Inl e)
      | Inr input' \<Rightarrow>
          (case onMsg_loop dec input' got of
             None \<Rightarrow> None
           | Some (Inl e) \<Rightarrow> Some (Inl e)
           | Some (Inr (got', input'', closed)) \<Rightarrow>
               if closed then Some (Inr (got', input'', True)) else feed dec input'' got' cs))"

text \<open>Cutting a prefix of a stream of frames at the last frame boundary.\<close>

lemma cut_frames:
  "p @ q = concat (map f ms) \<Longrightarrow>
   \<exists>ms1 ms2 part. ms = ms1 @ ms2 \<and> p = concat (map f ms1) @ part \<and> part @ q = concat (map f ms2) \<and>
     (case ms2 of [] \<Rightarrow> part = [] | m # _ \<Rightarrow> strict_prefix part (f m))"
proof (induction ms arbitrary: p)
  case Nil
  then show ?case by (intro exI [of _ "[]"]) simp
next
  case (Cons m ms)
  show ?case
  proof (cases "length p < length (f m)")
    case True
    then have "take (length p) (f m) = p"
      using arg_cong [OF Cons.prems, of "take (length p)"] by simp
    then have "p @ drop (length p) (f m) = f m" by (metis append_take_drop_id)
    then have "prefix p (f m)" by (metis prefixI)
    then have "strict_prefix p (f m)" using True by (auto simp: strict_prefix_def)
    then show ?thesis using Cons.prems
      by (intro exI [of _ "[]"] exI [of _ "m # ms"] exI [of _ p]) simp
  next
    case False
    then have "take (length (f m)) p = f m"
      using arg_cong [OF Cons.prems, of "take (length (f m))"] by simp
    then obtain p' where p: "p = f m @ p'" by (metis append_take_drop_id)
    then have "p' @ q = concat (map f ms)" using Cons.prems by simp
    from Cons.IH [OF this] obtain ms1 ms2 part where
      "ms = ms1 @ ms2" "p' = concat (map f ms1) @ part" "part @ q = concat (map f ms2)"
      "case ms2 of [] \<Rightarrow> part = [] | m # _ \<Rightarrow> strict_prefix part (f m)" by blast
    then show ?thesis using p
      by (intro exI [of _ "m # ms1"] exI [of _ ms2] exI [of _ part]) simp
  qed
qed

context codec
begin

text \<open>One run of the loop delivers the complete messages and keeps the incomplete rest.\<close>

lemma onMsg_loop_frames:
  assumes "buffer_ok b" "\<forall>m \<in> set ms. valid m" "length (bytes b) < 2 ^ 31"
    and "bytes b = concat (map frame ms) @ part"
    and "part = [] \<or> (\<exists>m. valid m \<and> strict_prefix part (frame m))"
  shows "\<exists>sls b'. onMsg_loop decode b got = Some (Inr (got @ sls, b', False)) \<and>
           map contents sls = ms \<and> (\<forall>sl \<in> set sls. slice_ok sl) \<and> buffer_ok b' \<and> bytes b' = part"
  using assms
proof (induction ms arbitrary: b got)
  case Nil
  have m: "length (smem (slice_of (bytes b))) < 2 ^ 31" using Nil.prems by (simp add: slice_of_def)
  have "decode (slice_of (bytes b)) = Inr (0, None)"
  proof (cases "part = []")
    case True
    then show ?thesis using Nil.prems by (intro decode_empty) auto
  next
    case False
    then obtain m where "valid m" "strict_prefix part (frame m)" using Nil.prems by blast
    then show ?thesis using Nil.prems m by (intro decode_partial) auto
  qed
  then show ?case using Nil.prems by (intro exI [of _ "[]"]) (simp add: onMsg_loop.simps)
next
  case (Cons m ms)
  let ?n = "length (frame m)"
  have fr: "bytes b = frame m @ concat (map frame ms) @ part" using Cons.prems by simp
  have "length (smem (slice_of (bytes b))) < 2 ^ 31" using Cons.prems by (simp add: slice_of_def)
  then obtain sl where sl: "decode (slice_of (bytes b)) = Inr (int ?n, Some sl)" "slice_ok sl"
      "contents sl = m"
    using decode_frame [of "slice_of (bytes b)" m "concat (map frame ms) @ part"] fr Cons.prems by auto
  have ne: "?n \<noteq> 0" using Cons.prems frame_nonempty by simp
  have c: "buffer_ok (consume ?n b)" "bytes (consume ?n b) = concat (map frame ms) @ part"
    using Cons.prems fr bq.ok_consume [of b ?n] bq.bytes_consume [of b ?n] by auto
  from Cons.IH [of "consume ?n b" "got @ [sl]"] Cons.prems c
  obtain sls b' where "onMsg_loop decode (consume ?n b) (got @ [sl]) = Some (Inr ((got @ [sl]) @ sls, b', False))"
      "map contents sls = ms" "\<forall>sl \<in> set sls. slice_ok sl" "buffer_ok b'" "bytes b' = part" by auto
  then show ?case using sl ne
    by (intro exI [of _ "sl # sls"] exI [of _ b']) (simp add: onMsg_loop.simps [of decode b])
qed

text \<open>Delivery does not depend on how the stream is cut into reads.\<close>

lemma feed_chunks:
  assumes "buffer_ok b" "\<forall>m \<in> set ms. valid m" "length (concat (map frame ms)) < 2 ^ 31"
    and "bytes b @ concat cs = concat (map frame ms)"
    and "case ms of [] \<Rightarrow> bytes b = [] | m # _ \<Rightarrow> strict_prefix (bytes b) (frame m)"
  shows "\<exists>sls b'. feed decode b got cs = Some (Inr (got @ sls, b', False)) \<and>
           map contents sls = ms \<and> (\<forall>sl \<in> set sls. slice_ok sl) \<and> buffer_ok b' \<and> bytes b' = []"
  using assms
proof (induction cs arbitrary: b ms got)
  case Nil
  then have "ms = []"
    by (cases ms) (auto simp: strict_prefix_def dest: prefix_length_le)
  then show ?case using Nil.prems by (intro exI [of _ "[]"]) simp
next
  case (Cons c cs)
  obtain b1 where b1: "bappend c b = Inr b1" "buffer_ok b1" "bytes b1 = bytes b @ c"
    using bappend_ok [OF Cons.prems(1), of c] by blast
  have "(bytes b @ c) @ concat cs = concat (map frame ms)" using Cons.prems(4) by simp
  from cut_frames [OF this] obtain ms1 ms2 part where
    cut: "ms = ms1 @ ms2" "bytes b @ c = concat (map frame ms1) @ part"
      "part @ concat cs = concat (map frame ms2)"
      "case ms2 of [] \<Rightarrow> part = [] | m # _ \<Rightarrow> strict_prefix part (frame m)" by blast
  have part: "part = [] \<or> (\<exists>m. valid m \<and> strict_prefix part (frame m))"
    using cut Cons.prems(2) by (cases ms2) auto
  have "length (bytes b @ c) \<le> length (concat (map frame ms))"
    using arg_cong [OF Cons.prems(4), of length] by simp
  then have "length (bytes b1) < 2 ^ 31" using b1 Cons.prems(3) by simp
  from onMsg_loop_frames [OF b1(2) _ this, of ms1 part got] obtain sls1 b2 where
    s1: "onMsg_loop decode b1 got = Some (Inr (got @ sls1, b2, False))" "map contents sls1 = ms1"
      "\<forall>sl \<in> set sls1. slice_ok sl" "buffer_ok b2" "bytes b2 = part"
    using cut b1 part Cons.prems(2) by auto
  from Cons.IH [of b2 ms2 "got @ sls1"] s1 cut Cons.prems obtain sls2 b3 where
    "feed decode b2 (got @ sls1) cs = Some (Inr ((got @ sls1) @ sls2, b3, False))"
    "map contents sls2 = ms2" "\<forall>sl \<in> set sls2. slice_ok sl" "buffer_ok b3" "bytes b3 = []"
    by auto
  then show ?case using s1 b1 cut
    by (intro exI [of _ "sls1 @ sls2"] exI [of _ b3]) auto
qed

lemma encode_all:
  "buffer_ok b \<Longrightarrow> \<exists>b'. appends_with encode ms b = Inr b' \<and> buffer_ok b' \<and>
     bytes b' = bytes b @ concat (map frame ms)"
proof (induction ms arbitrary: b)
  case Nil
  then show ?case by simp
next
  case (Cons m ms)
  obtain b1 where "encode m b = Inr b1" "buffer_ok b1" "bytes b1 = bytes b @ frame m"
    using encode_frame [OF Cons.prems] by blast
  then show ?case using Cons.IH [of b1] by auto
qed

text \<open>What one side encodes, the other side decodes, however the transport cuts the stream.\<close>

lemma transfer:
  assumes "\<forall>m \<in> set ms. valid m" "length (concat (map frame ms)) < 2 ^ 31"
  shows "\<exists>out. appends_with encode ms buf_new = Inr out \<and> bytes out = concat (map frame ms) \<and>
    (\<forall>cs. concat cs = bytes out \<longrightarrow>
       (\<exists>sls b. feed decode buf_new [] cs = Some (Inr (sls, b, False)) \<and> map contents sls = ms \<and>
          buffer_ok b \<and> bytes b = []))"
proof -
  obtain out where out: "appends_with encode ms buf_new = Inr out" "bytes out = concat (map frame ms)"
    using encode_all [of buf_new ms] by auto
  have "\<exists>sls b. feed decode buf_new [] cs = Some (Inr (sls, b, False)) \<and> map contents sls = ms \<and>
          buffer_ok b \<and> bytes b = []" if "concat cs = bytes out" for cs
  proof -
    have "case ms of [] \<Rightarrow> bytes buf_new = [] | m # _ \<Rightarrow> strict_prefix (bytes buf_new) (frame m)"
      using assms(1) frame_nonempty [symmetric] by (cases ms) (auto simp: strict_prefix_def)
    then show ?thesis using feed_chunks [of buf_new ms cs "[]"] assms that out(2) by auto
  qed
  then show ?thesis using out by blast
qed

end

section \<open>Both codecs keep the contract\<close>

lemma sidx_contents:
  assumes "slice_ok s" "0 \<le> i" "i < int (length (contents s))"
  shows "sidx s i = Inr (contents s ! nat i)"
proof -
  have "nat i < nat (pe s - pb s)" using assms by (simp add: slice_ok_def contents_def)
  then show ?thesis using assms
    by (simp add: sidx_def slice_ok_def contents_def bytes_in_def nat_add_distrib)
qed

lemma take_drop_contents:
  assumes "slice_ok s" "0 \<le> k" "k + int n \<le> int (length (contents s))"
  shows "take n (drop (nat (pb s + k)) (smem s)) = take n (drop (nat k) (contents s))"
    and "pb s + k + int n \<le> int (length (smem s))"
proof -
  have l: "length (contents s) = nat (pe s - pb s)" using assms by (simp add: slice_ok_def contents_def)
  then have "n \<le> nat (pe s - pb s) - nat k" using assms by (auto simp: slice_ok_def)
  then show "take n (drop (nat (pb s + k)) (smem s)) = take n (drop (nat k) (contents s))"
    using assms by (simp add: slice_ok_def contents_def bytes_in_def drop_take nat_add_distrib add.commute)
  show "pb s + k + int n \<le> int (length (smem s))" using assms l by (simp add: slice_ok_def)
qed

lemma slice_at_contents:
  assumes "slice_ok s" "0 \<le> k" "k + int n \<le> int (length (contents s))"
  shows "slice_ok (slice_at (smem s) (pb s + k) (int n))"
    and "contents (slice_at (smem s) (pb s + k) (int n)) = take n (drop (nat k) (contents s))"
  using take_drop_contents [OF assms] assms
  by (simp_all add: slice_ok_def slice_at_def contents_def bytes_in_def)

definition line_frame :: "string \<Rightarrow> string" where
  "line_frame m = m @ [CR, LF]"

definition line_valid :: "string \<Rightarrow> bool" where
  "line_valid m \<longleftrightarrow> LF \<notin> set m \<and> (m = [] \<or> hd m \<noteq> EOT)"

lemma line_scan_none:
  assumes "slice_ok s" "length (smem s) < 2 ^ 31" "0 \<le> i" "LF \<notin> set (contents s)"
  shows "line_scan s i = Inr (0, None)"
  using assms
proof (induction s i rule: line_scan.induct)
  case (1 data i)
  have sz: "ssize data = int (length (contents data))" using "1.prems" by (simp add: ssize_ok)
  show ?case
  proof (cases "i < ssize data")
    case True
    then have r: "sidx data i = Inr (contents data ! nat i)"
      using "1.prems" sz by (simp add: sidx_contents)
    have "contents data ! nat i \<noteq> LF" using True sz "1.prems" by (metis nat_less_iff nth_mem)
    then show ?thesis using "1.IH" [OF True] r True "1.prems" by (simp add: line_scan.simps [of data i])
  qed (simp add: line_scan.simps [of data i])
qed

lemma line_scan_found:
  assumes "slice_ok s" "length (smem s) < 2 ^ 31" "0 \<le> i" "i \<le> int (length m) + 1"
    and "contents s = m @ CR # LF # rest" "LF \<notin> set m"
  shows "line_scan s i = Inr (int (length m) + 2, Some (slice_at (smem s) (pb s) (int (length m))))"
  using assms
proof (induction s i rule: line_scan.induct)
  case (1 s i)
  have sz: "ssize s = int (length m) + 2 + int (length rest)" and
      bd: "int (length m) + 2 < 2 ^ 31"
    using "1.prems" length_contents_le [of s] by (simp_all add: ssize_ok)
  have r: "sidx s j = Inr (contents s ! nat j)" if "0 \<le> j" "j \<le> int (length m) + 1" for j
    using "1.prems" that by (intro sidx_contents) auto
  show ?case
  proof (cases "i = int (length m) + 1")
    case True
    have e: "nat (1 + int (length m)) = Suc (length m)" by simp
    show ?thesis
      using True sz bd r [of i] r [of "i - 1"] "1.prems"
      by (simp add: line_scan.simps [of s "1 + int (length m)"] nth_append e add.commute)
  next
    case False
    then have i: "i < ssize s" "i + 1 \<le> int (length m) + 1" using "1.prems" sz by auto
    have "contents s ! nat i \<noteq> LF"
    proof (cases "i = int (length m)")
      case True
      then show ?thesis using "1.prems" by simp
    next
      case False
      then have "nat i < length m" using i "1.prems" by (simp add: nat_less_iff)
      then show ?thesis using "1.prems" by (auto simp: nth_append dest: nth_mem)
    qed
    then show ?thesis using "1.IH" [OF i(1)] i r [of i] "1.prems" by (simp add: line_scan.simps [of s i])
  qed
qed

lemma line_tryDecode_scan:
  assumes "slice_ok s" "length (smem s) < 2 ^ 31" "length (contents s) = 1 \<Longrightarrow> hd (contents s) \<noteq> EOT"
  shows "line_tryDecode s = line_scan s 0"
proof (cases "length (contents s) = 1")
  case True
  then have "sidx s 0 = Inr (hd (contents s))"
    using assms sidx_contents [of s 0] by (simp add: hd_conv_nth flip: length_greater_0_conv)
  then show ?thesis using assms True by (simp add: line_tryDecode_def ssize_ok)
next
  case False
  then show ?thesis using assms by (simp add: line_tryDecode_def ssize_ok)
qed

interpretation line: codec line_tryDecode line_encode line_frame line_valid
proof (unfold_locales, goal_cases)
  case (1 b m)
  then show ?case using bq.appends_law [of b "[m, [CR, LF]]"] by (simp add: line_encode_def line_frame_def)
next
  case (2 s m rest)
  have c: "contents s = m @ CR # LF # rest" "LF \<notin> set m"
    using 2 by (auto simp: line_frame_def line_valid_def)
  have "line_tryDecode s = line_scan s 0"
    using 2 c by (intro line_tryDecode_scan) auto
  then show ?case
    using line_scan_found [OF 2(1,2) _ _ c, of 0] slice_at_contents [OF 2(1), of 0 "length m"] c
    by (simp add: line_frame_def)
next
  case (3 s m)
  then obtain z where z: "contents s @ z = m @ [CR, LF]" "z \<noteq> []"
    by (auto simp: line_frame_def strict_prefix_def prefix_def)
  have pre: "contents s @ butlast z = m @ [CR]"
    using arg_cong [OF z(1), of butlast] z(2) by (simp add: butlast_append)
  then have nl: "LF \<notin> set (contents s)"
    using 3 by (metis CR_LF(2) Un_iff line_valid_def list.set(1) set_ConsD set_append
        append_is_Nil_conv empty_iff)
  have "hd (contents s) \<noteq> EOT" if "contents s \<noteq> []"
    using that 3 arg_cong [OF pre, of hd]
    by (cases m) (auto simp: line_valid_def EOT_def CR_def)
  then have "line_tryDecode s = line_scan s 0"
    using 3 by (intro line_tryDecode_scan) (auto simp: length_Suc_conv)
  then show ?case using line_scan_none [OF 3(1,2) _ nl, of 0] by simp
next
  case (4 s)
  then show ?case
    by (simp add: line_tryDecode_def line_scan.simps [of s 0] ssize_def contents_Nil_iff)
next
  case (5 m)
  then show ?case by (simp add: line_frame_def)
qed

definition length_frame :: "string \<Rightarrow> string" where
  "length_frame m = ''mBdT'' @ rev (mem32 (of_nat (length m))) @ m"

definition length_valid :: "string \<Rightarrow> bool" where
  "length_valid m \<longleftrightarrow> length m \<le> 1024 * 1024"

lemma sint_len: "int n \<le> 1048576 \<Longrightarrow> sint (of_nat n :: 32 word) = int n"
  by (simp add: signed_of_nat signed_take_bit_int_eq_self)

text \<open>What \<open>tryDecode\<close> makes of a slice that starts with the magic word and a length field.\<close>

lemma length_header:
  assumes "slice_ok s" "length (smem s) < 2 ^ 31"
    and "contents s = ''mBdT'' @ L @ xs" "length L = 4" "sint (htobe32 (load32 L)) = len"
    and "len \<le> 1024 * 1024"
  shows "length_tryDecode s =
    Inr (if len \<le> int (length xs) then (len + 8, Some (slice_at (smem s) (pb s + 8) len)) else (0, None))"
proof -
  have ln: "length (contents s) = 8 + length xs" using assms(3,4) by simp
  have sz: "ssize s = 8 + int (length xs)" using assms ln by (simp add: ssize_ok)
  have bd: "8 + int (length xs) < 2 ^ 31" using assms(2) ln length_contents_le [of s] by simp
  have "take 4 (drop (nat (pb s + 4)) (smem s)) = L"
    using take_drop_contents(1) [OF assms(1), of 4 4] ln assms(3,4) by simp
  then have "load32 (drop (nat (pb s + 4)) (smem s)) = load32 L"
    using assms(4) by (simp add: load32_def)
  then have rd: "rd32 (smem s) (pb s + 4) = Inr (load32 L)"
    using take_drop_contents(2) [OF assms(1), of 4 4] ln assms(1) by (simp add: rd32_def slice_ok_def)
  have "bytes_in (smem s) (pb s) (pb s + 4) = ''mBdT''"
    using slice_at_contents(2) [OF assms(1), of 0 4] ln assms(3) by simp
  moreover have "bytes_in ''mBdT'' 0 4 = ''mBdT''" by (simp add: bytes_in_def)
  ultimately have cmp: "memcmp (smem s) (pb s) ''mBdT'' 0 4 = Inr 0"
    using memcmp_spec [of "pb s" 4 "smem s" 0 "''mBdT''"] take_drop_contents(2) [OF assms(1), of 0 4]
      ln assms(1) by (auto simp: slice_ok_def)
  show ?thesis
    using assms(5,6) bd by (simp add: length_tryDecode_def sz rd cmp Let_def)
qed

lemma load32_rev_mem32: "load32 (rev (mem32 v)) = htobe32 v"
  using load32_mem32 [of "htobe32 v" "[]"] by simp

lemma length_header_frame:
  assumes "slice_ok s" "length (smem s) < 2 ^ 31"
    and "contents s = ''mBdT'' @ rev (mem32 (of_nat n)) @ xs" "n \<le> 1024 * 1024"
  shows "length_tryDecode s =
    Inr (if length xs \<ge> n then (int n + 8, Some (slice_at (smem s) (pb s + 8) (int n))) else (0, None))"
  using length_header [OF assms(1-3), of "int n"] assms(4) by (simp add: load32_rev_mem32 sint_len)

lemma strict_prefix_append_cases:
  "strict_prefix xs (a @ b) \<Longrightarrow> length a \<le> length xs \<Longrightarrow> \<exists>c. xs = a @ c \<and> strict_prefix c b"
proof -
  assume "strict_prefix xs (a @ b)" "length a \<le> length xs"
  then obtain z where z: "a @ b = xs @ z" "z \<noteq> []" by (auto simp: strict_prefix_def prefix_def)
  have "take (length a) (a @ b) = take (length a) xs"
    using \<open>length a \<le> length xs\<close> by (simp add: z(1))
  then obtain c where "xs = a @ c" by (metis append_eq_conv_conj append_take_drop_id)
  then show ?thesis using z by (auto simp: strict_prefix_def)
qed

interpretation lencodec: codec length_tryDecode length_encode length_frame length_valid
proof (unfold_locales, goal_cases)
  case (1 b m)
  then show ?case
    using bq.appends_law [of b "[''mBdT'', mem32 (htobe32 (of_nat (length m))), m]"]
    by (simp add: length_encode_def length_frame_def)
next
  case (2 s m rest)
  then show ?case
    using length_header_frame [of s "length m" "m @ rest"] slice_at_contents [OF 2(1), of 8 "length m"]
    by (simp add: length_frame_def length_valid_def)
next
  case (3 s m)
  show ?case
  proof (cases "length (contents s) < 8")
    case True
    then show ?thesis using 3 by (simp add: length_tryDecode_def ssize_ok)
  next
    case False
    then obtain c where "contents s = (''mBdT'' @ rev (mem32 (of_nat (length m)))) @ c"
        "strict_prefix c m"
      using strict_prefix_append_cases [of "contents s" "''mBdT'' @ rev (mem32 (of_nat (length m)))" m] 3
      by (auto simp: length_frame_def)
    then show ?thesis
      using 3 length_header_frame [of s "length m" c] by (auto simp: length_valid_def dest: prefix_length_less)
  qed
next
  case (4 s)
  then show ?case by (simp add: length_tryDecode_def ssize_def contents_Nil_iff)
next
  case (5 m)
  then show ?case by (simp add: length_frame_def)
qed

section \<open>Properties\<close>

text \<open>
  C30. \<open>LineCodec\<close> round trip: messages without a line feed that do not
  start with the byte 4, encoded one after the other and received in any cut of the stream into
  reads, are delivered by the loop of \<open>TcpConn::onMsg\<close> one by one, in order and unchanged, and
  nothing is left in the buffer. The loop returns.
\<close>

theorem line_codec_transfer:
  assumes "\<forall>m \<in> set ms. line_valid m" "length (concat (map line_frame ms)) < 2 ^ 31"
  shows "\<exists>out. appends_with line_encode ms buf_new = Inr out \<and> bytes out = concat (map line_frame ms) \<and>
    (\<forall>cs. concat cs = bytes out \<longrightarrow>
       (\<exists>sls b. feed line_tryDecode buf_new [] cs = Some (Inr (sls, b, False)) \<and>
          map contents sls = ms \<and> buffer_ok b \<and> bytes b = []))"
  by (rule line.transfer [OF assms])

theorem line_codec_transfer_witness:
  "\<exists>sls b. feed line_tryDecode buf_new [] [''he'', ''llo'' @ [CR], [LF, CR], [LF]] = Some (Inr (sls, b, False)) \<and>
     map contents sls = [''hello'', ''''] \<and> buffer_ok b \<and> bytes b = []"
proof -
  have v: "\<forall>m \<in> set [''hello'', '''']. line_valid m" by (simp add: line_valid_def LF_def EOT_def)
  have l: "length (concat (map line_frame [''hello'', ''''])) < 2 ^ 31" by (simp add: line_frame_def)
  have c: "concat [''he'', ''llo'' @ [CR], [LF, CR], [LF]] = concat (map line_frame [''hello'', ''''])"
    by (simp add: line_frame_def)
  show ?thesis using line_codec_transfer [OF v l] c by metis
qed

text \<open>
  C7. \<open>LengthCodec\<close> round trip: messages of up to 1 MiB with any content,
  encoded and received in any cut of the stream, are delivered in order and unchanged.
\<close>

theorem length_codec_transfer:
  assumes "\<forall>m \<in> set ms. length_valid m" "length (concat (map length_frame ms)) < 2 ^ 31"
  shows "\<exists>out. appends_with length_encode ms buf_new = Inr out \<and> bytes out = concat (map length_frame ms) \<and>
    (\<forall>cs. concat cs = bytes out \<longrightarrow>
       (\<exists>sls b. feed length_tryDecode buf_new [] cs = Some (Inr (sls, b, False)) \<and>
          map contents sls = ms \<and> buffer_ok b \<and> bytes b = []))"
  by (rule lencodec.transfer [OF assms])

theorem length_codec_transfer_witness:
  "\<exists>sls b. feed length_tryDecode buf_new [] [''mBd'', ''T'' @ rev (mem32 1), ''amBdT'', rev (mem32 0)] =
       Some (Inr (sls, b, False)) \<and>
     map contents sls = [''a'', ''''] \<and> buffer_ok b \<and> bytes b = []"
proof -
  have v: "\<forall>m \<in> set [''a'', '''']. length_valid m" by (simp add: length_valid_def)
  have l: "length (concat (map length_frame [''a'', ''''])) < 2 ^ 31" by (simp add: length_frame_def)
  have c: "concat [''mBd'', ''T'' @ rev (mem32 1), ''amBdT'', rev (mem32 0)] =
      concat (map length_frame [''a'', ''''])"
    by (simp add: length_frame_def)
  show ?thesis using length_codec_transfer [OF v l] c by metis
qed

text \<open>
  \<open>LengthCodec\<close> does not reject a negative length field: a frame whose
  length is between -7 and -1 is decoded as a message whose slice ends before it begins, so that
  its \<open>size()\<close> is close to \<open>2 ^ 64\<close>, and only part of the header is consumed.
\<close>

theorem length_codec_negative:
  assumes "slice_ok s" "length (smem s) < 2 ^ 31"
    and "contents s = ''mBdT'' @ rev (mem32 (word_of_int len)) @ xs" "- 8 < len" "len < 0"
  shows "\<exists>m. length_tryDecode s = Inr (len + 8, Some m) \<and> \<not> slice_ok m \<and> ssize m = 2 ^ 64 + len"
proof -
  have "sint (word_of_int len :: 32 word) = len" using assms(4,5)
    by (simp add: signed_of_int signed_take_bit_int_eq_self)
  then have "sint (htobe32 (load32 (rev (mem32 (word_of_int len))))) = len"
    by (simp add: load32_rev_mem32)
  then have "length_tryDecode s = Inr (len + 8, Some (slice_at (smem s) (pb s + 8) len))"
    using length_header [OF assms(1-3), of len] assms(5) by simp
  moreover have "len mod 2 ^ 64 = 2 ^ 64 + len"
    using assms(4,5) mod_add_self1 [of "2 ^ 64" len] mod_pos_pos_trivial [of "2 ^ 64 + len" "2 ^ 64"]
    by simp
  ultimately show ?thesis using assms(5) by (simp add: slice_ok_def slice_at_def ssize_def)
qed

theorem length_codec_negative_witness:
  "\<exists>m. length_tryDecode (slice_of (''mBdT'' @ rev (mem32 (word_of_int (-4))))) = Inr (-4 + 8, Some m) \<and>
     \<not> slice_ok m \<and> ssize m = 2 ^ 64 + -4"
  by (rule length_codec_negative [where xs = "[]"])
     (simp_all add: slice_of_def slice_ok_def contents_def bytes_in_def)

end
