(* ===== verification/Conn.thy ===== *)
theory Conn
  imports Channel Codec
begin

text \<open>
  \<open>TcpConn\<close> (\<open>src/src/common/handy/conn.h\<close>, \<open>conn.cc\<close>, and \<open>reconnect\<close> of
  \<open>event_base.cc\<close>): the connection's life cycle and its two byte streams. The operating system
  is a parameter of the state: \<open>wkernel\<close> lists the results of the coming \<open>write\<close> calls and
  \<open>rkernel\<close> those of the coming \<open>read\<close> calls (an exhausted list answers \<open>EAGAIN\<close>), and
  \<open>wire\<close> collects the bytes the kernel has accepted. User callbacks are arguments.
  A violated \<open>fatalif\<close> check is \<open>Inl Fatal\<close>: the debug build stops there, the release build logs
  and goes on outside the contract. \<open>setReconnectInterval\<close> is the field of the initial state.
\<close>

section \<open>State\<close>

datatype tcp_state = Invalid | Handshaking | Connected | Closed | Failed

datatype wres = Wrote nat | WIntr | WAgain | WErr

datatype rres = Got string | RIntr | RAgain | REof | RErr

record conn =
  tstate :: tcp_state          \<comment> \<open>\<open>state_\<close>\<close>
  chan :: "channel option"     \<comment> \<open>\<open>channel_\<close>\<close>
  inb :: buffer              \<comment> \<open>\<open>input_\<close>\<close>
  outb :: buffer             \<comment> \<open>\<open>output_\<close>\<close>
  destPort :: int
  connectTimeout :: int
  reconnectInterval :: int
  timeout_set :: bool          \<comment> \<open>the connect timer \<open>timeoutId_\<close> is armed\<close>
  reconnecting :: bool         \<comment> \<open>in \<open>reconnectConns_\<close>, its timer armed\<close>
  has_cbs :: bool              \<comment> \<open>the user callbacks are not yet \<open>nullptr\<close>\<close>
  wire :: string
  wkernel :: "wres list"
  rkernel :: "rres list"

type_synonym 'a callback = "'a conn_scheme \<Rightarrow> 'a conn_scheme res"

definition conn_new :: "wres list \<Rightarrow> rres list \<Rightarrow> conn" where
  "conn_new ws rs = \<lparr>tstate = Invalid, chan = None, inb = buf_new, outb = buf_new,
     destPort = -1, connectTimeout = 0, reconnectInterval = -1, timeout_set = False,
     reconnecting = False, has_cbs = True, wire = [], wkernel = ws, rkernel = rs\<rparr>"

definition isClient :: "'a conn_scheme \<Rightarrow> bool" where
  "isClient c \<longleftrightarrow> 0 < destPort c"

section \<open>Sending\<close>

text \<open>The loop of \<open>isend\<close>: \<open>sended\<close> counts the accepted bytes. A \<open>write\<close> that returns 0 is
  an error like \<open>WErr\<close>, and so is every \<open>write\<close> on a closed descriptor.\<close>

definition want_write :: "channel \<Rightarrow> channel" where
  "want_write ch = (if \<not> writeEnabled ch then enableWrite True ch else ch)"

fun isend_loop :: "string \<Rightarrow> nat \<Rightarrow> channel \<Rightarrow> wres list \<Rightarrow> string \<Rightarrow>
    nat \<times> channel \<times> wres list \<times> string" where
  "isend_loop data sended ch [] w =
     (if sended < length data then (sended, want_write ch, [], w) else (sended, ch, [], w))"
| "isend_loop data sended ch (r # ws) w =
     (if sended < length data then
        case r of
          Wrote n \<Rightarrow>
            (let k = min n (length data - sended) in
             if 0 < k then isend_loop data (sended + k) ch ws (w @ take k (drop sended data))
             else (sended, ch, ws, w))
        | WIntr \<Rightarrow> isend_loop data sended ch ws w
        | WAgain \<Rightarrow> (sended, want_write ch, ws, w)
        | WErr \<Rightarrow> (sended, ch, ws, w)
      else (sended, ch, r # ws, w))"

definition isend :: "string \<Rightarrow> 'a conn_scheme \<Rightarrow> (nat \<times> 'a conn_scheme) res" where
  "isend data c =
     (case chan c of None \<Rightarrow> Inl NullDeref
      | Some ch \<Rightarrow>
          if ch_fd ch < 0 then Inr (0, c)
          else (let (n, ch', ws, w) = isend_loop data 0 ch (wkernel c) (wire c)
           in Inr (n, c\<lparr>chan := Some ch', wkernel := ws, wire := w\<rparr>)))"

definition chan_writeEnabled :: "'a conn_scheme \<Rightarrow> bool" where
  "chan_writeEnabled c = (case chan c of None \<Rightarrow> False | Some ch \<Rightarrow> writeEnabled ch)"

definition fd_open :: "'a conn_scheme \<Rightarrow> bool" where
  "fd_open c = (case chan c of None \<Rightarrow> False | Some ch \<Rightarrow> 0 \<le> ch_fd ch)"

definition chan_want_write :: "'a conn_scheme \<Rightarrow> 'a conn_scheme" where
  "chan_want_write c = c\<lparr>chan := map_option want_write (chan c)\<rparr>"

text \<open>\<open>send(Buffer& buf)\<close> with a buffer other than \<open>output_\<close>; the result also holds the
  caller's buffer after the call.\<close>

definition send_buf :: "buffer \<Rightarrow> 'a conn_scheme \<Rightarrow> (buffer \<times> 'a conn_scheme) res" where
  "send_buf buf c =
     (if chan c = None then Inr (buf, c)
      else
        rbind (if chan_writeEnabled c
               then rbind (absorb (outb c) buf) (\<lambda>(out, buf'). Inr (buf', c\<lparr>outb := out\<rparr>))
               else Inr (buf, c)) (\<lambda>(buf1, c1).
        rbind (if bsize buf1 \<noteq> 0
               then rbind (isend (bytes buf1) c1) (\<lambda>(n, c'). Inr (consume n buf1, c'))
               else Inr (buf1, c1)) (\<lambda>(buf2, c2).
        if bsize buf2 \<noteq> 0
        then rbind (absorb (outb c2) buf2) (\<lambda>(out, buf3).
               Inr (buf3, chan_want_write (c2\<lparr>outb := out\<rparr>)))
        else Inr (buf2, c2))))"

text \<open>\<open>sendOutput()\<close> is \<open>send(output_)\<close>: the argument is the connection's own buffer, so
  both \<open>absorb\<close> calls do nothing.\<close>

definition sendOutput :: "'a callback" where
  "sendOutput c =
     (if chan c = None then Inr c
      else
        rbind (if bsize (outb c) \<noteq> 0
               then rbind (isend (bytes (outb c)) c) (\<lambda>(n, c'). Inr (c'\<lparr>outb := consume n (outb c')\<rparr>))
               else Inr c) (\<lambda>c1.
        if bsize (outb c1) \<noteq> 0 then Inr (chan_want_write c1) else Inr c1))"

text \<open>\<open>send(const char* buf, size_t len)\<close>\<close>

definition send_str :: "string \<Rightarrow> 'a callback" where
  "send_str data c =
     (if chan c = None then Inr c
      else
        rbind (if bempty (outb c) then isend data c else Inr (0, c)) (\<lambda>(n, c1).
        if drop n data \<noteq> []
        then rbind (bappend (drop n data) (outb c1)) (\<lambda>out. Inr (c1\<lparr>outb := out\<rparr>))
        else Inr c1))"

text \<open>\<open>send(const char* s)\<close>: the bytes before the first zero.\<close>

definition send_cstr :: "string \<Rightarrow> 'a callback" where
  "send_cstr s = send_str (cstr s)"

definition sendMsg :: "(string \<Rightarrow> buffer \<Rightarrow> buffer res) \<Rightarrow> string \<Rightarrow> 'a callback" where
  "sendMsg encode msg c =
     rbind (encode msg (outb c)) (\<lambda>out. sendOutput (c\<lparr>outb := out\<rparr>))"

section \<open>Life cycle\<close>

definition attach :: "int \<Rightarrow> 'a callback" where
  "attach fd c =
     (if (destPort c \<le> 0 \<and> tstate c \<noteq> Invalid) \<or> (0 \<le> destPort c \<and> tstate c \<noteq> Handshaking)
      then Inl Fatal
      else Inr (c\<lparr>tstate := Handshaking, chan := Some (new_channel fd (kWriteEvent OR kReadEvent))\<rparr>))"

text \<open>\<open>connect\<close>; \<open>fd\<close> is the new socket.\<close>

definition connect :: "int \<Rightarrow> int \<Rightarrow> int \<Rightarrow> 'a callback" where
  "connect fd port timeout c =
     (if tstate c \<noteq> Invalid \<and> tstate c \<noteq> Closed \<and> tstate c \<noteq> Failed then Inl Fatal
      else if fd < 0 then Inl Fatal
      else rbind (attach fd (c\<lparr>destPort := port, connectTimeout := timeout, tstate := Handshaking\<rparr>)) (\<lambda>c'.
        Inr (c'\<lparr>timeout_set := timeout \<noteq> 0 \<or> timeout_set c'\<rparr>)))"

definition reconnect :: "'a callback" where
  "reconnect c = Inr (c\<lparr>reconnecting := True, chan := None\<rparr>)"

text \<open>The timer task of \<open>reconnect\<close>.\<close>

definition reconnect_timer :: "int \<Rightarrow> 'a callback" where
  "reconnect_timer fd c = connect fd (destPort c) (connectTimeout c) (c\<lparr>reconnecting := False\<rparr>)"

definition call_read :: "'a callback \<Rightarrow> 'a callback" where
  "call_read readcb c = (if has_cbs c \<and> bsize (inb c) \<noteq> 0 then readcb c else Inr c)"

definition cleanup :: "'a callback \<Rightarrow> 'a callback \<Rightarrow> bool \<Rightarrow> 'a callback" where
  "cleanup readcb statecb exited c =
     rbind (call_read readcb c) (\<lambda>c1.
     rbind (let c2 = c1\<lparr>tstate := (if tstate c1 = Handshaking then Failed else Closed), timeout_set := False\<rparr>
            in if has_cbs c2 then statecb c2 else Inr c2) (\<lambda>c3.
     if 0 \<le> reconnectInterval c3 \<and> \<not> exited then reconnect c3
     else Inr (c3\<lparr>has_cbs := False, chan := None\<rparr>)))"

text \<open>\<open>handleHandshake\<close>; \<open>pollout\<close> says that \<open>poll\<close> reported exactly \<open>POLLOUT\<close>. The flag
  of the result is the method's non-zero return.\<close>

definition handleHandshake :: "'a callback \<Rightarrow> 'a callback \<Rightarrow> bool \<Rightarrow> bool \<Rightarrow> 'a conn_scheme \<Rightarrow> (bool \<times> 'a conn_scheme) res" where
  "handleHandshake readcb statecb exited pollout c =
     (if tstate c \<noteq> Handshaking then Inl Fatal
      else case chan c of None \<Rightarrow> Inl NullDeref
      | Some ch \<Rightarrow>
          if pollout
          then rbind (let c1 = c\<lparr>chan := Some (enableReadWrite True False ch), tstate := Connected\<rparr>
                      in if has_cbs c1 then statecb c1 else Inr c1) (\<lambda>c2. Inr (False, c2))
          else rbind (cleanup readcb statecb exited c) (\<lambda>c1. Inr (True, c1)))"

text \<open>The read loop: \<open>read\<close> gets at most \<open>space()\<close> bytes at \<open>end()\<close>; the kernel keeps the
  rest for the next call.\<close>

definition pending_reads :: "rres list \<Rightarrow> nat" where
  "pending_reads rs = (\<Sum>r\<leftarrow>rs. case r of Got bs \<Rightarrow> Suc (length bs) | _ \<Rightarrow> 1)"

text \<open>One iteration either leaves the loop or continues it.\<close>

datatype 'c iter = Leave "'c res" | Again "rres list" 'c

definition read_iter :: "'a callback \<Rightarrow> 'a callback \<Rightarrow> bool \<Rightarrow> rres list \<Rightarrow> channel \<Rightarrow> 'a conn_scheme \<Rightarrow> 'a conn_scheme iter" where
  "read_iter readcb statecb exited rs ch c =
     (if ch_fd ch < 0 then Leave (cleanup readcb statecb exited (c\<lparr>rkernel := rs\<rparr>))
      else case rs of
        [] \<Rightarrow> Leave (call_read readcb (c\<lparr>rkernel := []\<rparr>))
      | r # rs' \<Rightarrow>
         (case r of
            RAgain \<Rightarrow> Leave (call_read readcb (c\<lparr>rkernel := rs'\<rparr>))
          | RIntr \<Rightarrow> Again rs' c
          | REof \<Rightarrow> Leave (cleanup readcb statecb exited (c\<lparr>rkernel := rs'\<rparr>))
          | RErr \<Rightarrow> Leave (cleanup readcb statecb exited (c\<lparr>rkernel := rs'\<rparr>))
          | Got bs \<Rightarrow>
             (let d = take (space (inb c)) bs; more = drop (space (inb c)) bs in
              if d = [] then Leave (cleanup readcb statecb exited (c\<lparr>rkernel := rs'\<rparr>))
              else case poke (be (inb c)) d (inb c) of
                Inl e \<Rightarrow> Leave (Inl e)
              | Inr inp \<Rightarrow> Again (if more = [] then rs' else Got more # rs')
                             (c\<lparr>inb := addSize (length d) inp\<rparr>))))"

lemma read_iter_decreases:
  "read_iter rcb scb ex rs ch c = Again rs' c' \<Longrightarrow> pending_reads rs' < pending_reads rs"
  by (auto simp: read_iter_def pending_reads_def Let_def split: if_splits list.splits rres.splits sum.splits)

function read_loop :: "'a callback \<Rightarrow> 'a callback \<Rightarrow> bool \<Rightarrow> rres list \<Rightarrow> 'a callback" where
  "read_loop readcb statecb exited rs c =
     (if tstate c \<noteq> Connected then Inr (c\<lparr>rkernel := rs\<rparr>)
      else case chan c of None \<Rightarrow> Inl NullDeref
      | Some ch \<Rightarrow>
         rbind (makeRoom0 (inb c)) (\<lambda>inp.
         case read_iter readcb statecb exited rs ch (c\<lparr>inb := inp\<rparr>) of
           Leave r \<Rightarrow> r
         | Again rs' c' \<Rightarrow> read_loop readcb statecb exited rs' c'))"
  by pat_completeness auto
termination
  by (relation "measure (\<lambda>(rcb, scb, ex, rs, c). pending_reads rs)") (auto dest: read_iter_decreases)

declare read_loop.simps [simp del]

definition handleRead :: "'a callback \<Rightarrow> 'a callback \<Rightarrow> bool \<Rightarrow> bool \<Rightarrow> 'a callback" where
  "handleRead readcb statecb exited pollout c =
     (if tstate c = Handshaking
      then rbind (handleHandshake readcb statecb exited pollout c) (\<lambda>(failed, c1).
             if failed then Inr c1 else read_loop readcb statecb exited (rkernel c1) c1)
      else read_loop readcb statecb exited (rkernel c) c)"

definition handleWrite :: "'a callback \<Rightarrow> 'a callback \<Rightarrow> 'a callback option \<Rightarrow> bool \<Rightarrow> bool \<Rightarrow> 'a callback" where
  "handleWrite readcb statecb writablecb exited pollout c =
     (if tstate c = Handshaking
      then rbind (handleHandshake readcb statecb exited pollout c) (\<lambda>(_, c1). Inr c1)
      else if tstate c = Connected then
        rbind (isend (bytes (outb c)) c) (\<lambda>(n, c1).
        rbind (let c2 = c1\<lparr>outb := consume n (outb c1)\<rparr> in
               case writablecb of Some cb \<Rightarrow> (if bempty (outb c2) then cb c2 else Inr c2)
               | None \<Rightarrow> Inr c2) (\<lambda>c3.
        case chan c3 of None \<Rightarrow> Inl NullDeref
        | Some ch \<Rightarrow>
            if bempty (outb c3) \<and> writeEnabled ch
            then Inr (c3\<lparr>chan := Some (enableWrite False ch)\<rparr>) else Inr c3))
      else Inr c)"

text \<open>\<open>Channel::close\<close> on the connection's channel: the descriptor is gone and \<open>handleRead\<close>
  is called once more.\<close>

definition channel_close :: "'a callback \<Rightarrow> 'a callback \<Rightarrow> bool \<Rightarrow> 'a callback" where
  "channel_close readcb statecb exited c =
     (case chan c of None \<Rightarrow> Inr c
      | Some ch \<Rightarrow> if ch_fd ch < 0 then Inr c
                   else handleRead readcb statecb exited False (c\<lparr>chan := Some (ch\<lparr>ch_fd := -1\<rparr>)\<rparr>))"

text \<open>The timer task of \<open>connect\<close>.\<close>

definition connect_timeout :: "'a callback \<Rightarrow> 'a callback \<Rightarrow> bool \<Rightarrow> 'a callback" where
  "connect_timeout readcb statecb exited c =
     (if tstate c = Handshaking
      then (if chan c = None then Inl NullDeref else channel_close readcb statecb exited c)
      else Inr c)"

section \<open>The output stream\<close>

text \<open>\<open>stream c\<close> is everything handed to the connection so far, in order: what the kernel took
  and what waits in \<open>output_\<close>.\<close>

definition stream :: "'a conn_scheme \<Rightarrow> string" where
  "stream c = wire c @ bytes (outb c)"

definition out_ok :: "'a conn_scheme \<Rightarrow> bool" where
  "out_ok c \<longleftrightarrow> buffer_ok (outb c)"

text \<open>Two states of one connection between which its life cycle did not move.\<close>

definition same_life :: "'a conn_scheme \<Rightarrow> 'a conn_scheme \<Rightarrow> bool" where
  "same_life c c' \<longleftrightarrow> tstate c' = tstate c \<and> (chan c' = None \<longleftrightarrow> chan c = None) \<and>
     destPort c' = destPort c \<and> reconnectInterval c' = reconnectInterval c \<and>
     reconnecting c' = reconnecting c"

declare isClient_def [conn_defs] out_ok_def [conn_defs] stream_def [conn_defs] same_life_def [conn_defs]

lemma same_life_refl [simp]: "same_life c c"
  by (simp add: same_life_def)

definition hard_error :: "wres \<Rightarrow> bool" where
  "hard_error r \<longleftrightarrow> r = WErr \<or> r = Wrote 0"

lemma want_write_enabled [simp]: "writeEnabled (want_write ch)" "ch_fd (want_write ch) = ch_fd ch"
  by (simp_all add: want_write_def)

lemma isend_loop_spec:
  "isend_loop data s ch ws w = (s', ch', ws', w') \<Longrightarrow> s \<le> length data \<Longrightarrow>
   s \<le> s' \<and> s' \<le> length data \<and> w' = w @ take (s' - s) (drop s data) \<and> ch_fd ch' = ch_fd ch \<and>
   (writeEnabled ch \<longrightarrow> writeEnabled ch') \<and>
   (s' < length data \<longrightarrow> (\<forall>r \<in> set ws. \<not> hard_error r) \<longrightarrow> writeEnabled ch') \<and> set ws' \<subseteq> set ws"
proof (induction data s ch ws w rule: isend_loop.induct)
  case (1 data s ch w)
  then show ?case by (auto split: if_splits)
next
  case (2 data s ch r ws w)
  show ?case
  proof (cases "s < length data")
    case False
    then show ?thesis using 2 by auto
  next
    case True
    show ?thesis
    proof (cases r)
      case (Wrote n)
      let ?k = "min n (length data - s)"
      show ?thesis
      proof (cases "0 < ?k")
        case k: True
        then have "isend_loop data (s + ?k) ch ws (w @ take ?k (drop s data)) = (s', ch', ws', w')"
          using "2.prems" True Wrote by (simp add: Let_def)
        moreover have "s + ?k \<le> length data" using True by simp
        ultimately have
          ih: "s + ?k \<le> s'" "s' \<le> length data" "ch_fd ch' = ch_fd ch"
            "w' = (w @ take ?k (drop s data)) @ take (s' - (s + ?k)) (drop (s + ?k) data)"
            "writeEnabled ch \<longrightarrow> writeEnabled ch'" "set ws' \<subseteq> set ws"
            "s' < length data \<longrightarrow> (\<forall>r \<in> set ws. \<not> hard_error r) \<longrightarrow> writeEnabled ch'"
          using "2.IH"(1) [OF True Wrote refl k] by auto
        have "s' - s = ?k + (s' - (s + ?k))" using ih by simp
        then have "take (s' - s) (drop s data) = take ?k (drop s data) @ take (s' - (s + ?k)) (drop (s + ?k) data)"
          by (metis take_add drop_drop add.commute)
        then show ?thesis using ih by auto
      next
        case k: False
        then show ?thesis using "2.prems" True Wrote by (auto simp: Let_def hard_error_def)
      qed
    next
      case WIntr
      then show ?thesis using "2.IH"(2) [OF True WIntr] "2.prems" True by auto
    next
      case WAgain
      then show ?thesis using "2.prems" True by auto
    next
      case WErr
      then show ?thesis using "2.prems" True by (auto simp: hard_error_def)
    qed
  qed
qed

lemma isend_spec:
  assumes "isend data c = Inr (n, c')"
  shows "n \<le> length data" "wire c' = wire c @ take n data"
    "c' = c\<lparr>chan := chan c', wkernel := wkernel c', wire := wire c'\<rparr>" "chan c' \<noteq> None"
    "chan_writeEnabled c \<Longrightarrow> chan_writeEnabled c'"
    "n < length data \<Longrightarrow> fd_open c \<Longrightarrow> (\<forall>r \<in> set (wkernel c). \<not> hard_error r) \<Longrightarrow> chan_writeEnabled c'"
    "set (wkernel c') \<subseteq> set (wkernel c)"
proof -
  obtain ch where ch: "chan c = Some ch" using assms by (auto simp: isend_def split: option.splits)
  let ?Q = "n \<le> length data \<and> wire c' = wire c @ take n data \<and>
      c' = c\<lparr>chan := chan c', wkernel := wkernel c', wire := wire c'\<rparr> \<and> chan c' \<noteq> None \<and>
      (chan_writeEnabled c \<longrightarrow> chan_writeEnabled c') \<and>
      (n < length data \<longrightarrow> fd_open c \<longrightarrow> (\<forall>r \<in> set (wkernel c). \<not> hard_error r) \<longrightarrow> chan_writeEnabled c') \<and>
      set (wkernel c') \<subseteq> set (wkernel c)"
  have ?Q
  proof (cases "ch_fd ch < 0")
    case True
    then show ?thesis using assms ch by (auto simp: isend_def fd_open_def)
  next
    case False
    obtain ch' ws w where e: "isend_loop data 0 ch (wkernel c) (wire c) = (n, ch', ws, w)"
        "c' = c\<lparr>chan := Some ch', wkernel := ws, wire := w\<rparr>"
      using assms ch False by (auto simp: isend_def Let_def split: prod.splits)
    show ?thesis using isend_loop_spec [OF e(1)] e(2) ch by (auto simp: chan_writeEnabled_def)
  qed
  then show "n \<le> length data" "wire c' = wire c @ take n data"
    "c' = c\<lparr>chan := chan c', wkernel := wkernel c', wire := wire c'\<rparr>" "chan c' \<noteq> None"
    "chan_writeEnabled c \<Longrightarrow> chan_writeEnabled c'"
    "n < length data \<Longrightarrow> fd_open c \<Longrightarrow> (\<forall>r \<in> set (wkernel c). \<not> hard_error r) \<Longrightarrow> chan_writeEnabled c'"
    "set (wkernel c') \<subseteq> set (wkernel c)"
    by (blast | auto)+
qed

lemma isend_same:
  assumes "isend data c = Inr (n, c')"
  shows "same_life c c'" "outb c' = outb c" "inb c' = inb c" "tstate c' = tstate c"
proof -
  have "chan c \<noteq> None" using assms by (auto simp: isend_def split: option.splits)
  then show "same_life c c'" "outb c' = outb c" "inb c' = inb c" "tstate c' = tstate c"
    using isend_spec(3,4) [OF assms] by (cases c', auto simp: same_life_def)+
qed

lemma same_life_outb [simp]: "same_life c (c'\<lparr>outb := x\<rparr>) = same_life c c'"
  "same_life c (chan_want_write c') = same_life c c'"
  by (auto simp: same_life_def chan_want_write_def)

lemma isend_total: "chan c \<noteq> None \<Longrightarrow> \<exists>n c'. isend data c = Inr (n, c')"
  by (auto simp: isend_def split: prod.splits)

text \<open>\<open>flushable\<close>: pending output has write notification on, so the event loop will call
  \<open>handleWrite\<close>.\<close>

definition flushable :: "'a conn_scheme \<Rightarrow> bool" where
  "flushable c \<longleftrightarrow> bytes (outb c) = [] \<or> chan_writeEnabled c"

lemma chan_want_write_simps [simp]:
  "inb (chan_want_write c) = inb c" "outb (chan_want_write c) = outb c" "wire (chan_want_write c) = wire c"
  "tstate (chan_want_write c) = tstate c" "wkernel (chan_want_write c) = wkernel c"
  "chan (chan_want_write c) = None \<longleftrightarrow> chan c = None"
  "chan_writeEnabled (chan_want_write c) \<longleftrightarrow> chan c \<noteq> None"
  by (auto simp: chan_want_write_def chan_writeEnabled_def split: option.splits)

text \<open>\<open>isend\<close> of the pending output and the matching \<open>consume\<close> move bytes to the wire only.\<close>

lemma isend_consume:
  assumes "isend (bytes (outb c)) c = Inr (n, c')" "out_ok c"
  defines "d \<equiv> c'\<lparr>outb := consume n (outb c')\<rparr>"
  shows "out_ok d" "stream d = stream c" "chan d \<noteq> None" "same_life c d"
    "bytes (outb d) = drop n (bytes (outb c))"
proof -
  note spec = isend_spec [OF assms(1)]
  note same = isend_same [OF assms(1)]
  have "buffer_ok (consume n (outb c)) \<and> bytes (consume n (outb c)) = drop n (bytes (outb c))"
    using assms(2) spec(1) by (intro consume_ok) (auto simp: out_ok_def)
  then show "out_ok d" "stream d = stream c" "chan d \<noteq> None" "same_life c d"
    "bytes (outb d) = drop n (bytes (outb c))"
    using assms(2) spec(2,4) by (simp_all add: d_def out_ok_def stream_def same)
qed

lemma sendOutput_spec:
  assumes "out_ok c"
  shows "\<exists>c'. sendOutput c = Inr c' \<and> out_ok c' \<and> inb c' = inb c \<and> stream c' = stream c \<and> same_life c c' \<and> (chan c \<noteq> None \<longrightarrow> flushable c')"
proof (cases "chan c = None \<or> bytes (outb c) = []")
  case True
  then show ?thesis using assms
    by (auto simp: sendOutput_def bsize_bytes out_ok_def flushable_def)
next
  case False
  then obtain n c1 where i: "isend (bytes (outb c)) c = Inr (n, c1)" using isend_total by blast
  note ic = isend_consume [OF i assms]
  have "bsize (consume n (outb c1)) = length (bytes (consume n (outb c1)))"
    using ic(1) by (simp add: out_ok_def bsize_bytes)
  then show ?thesis
    using False assms i ic isend_same(3) [OF i]
    by (auto simp: sendOutput_def bsize_bytes out_ok_def flushable_def stream_def Let_def)
qed

lemma send_str_spec:
  assumes "out_ok c" "chan c \<noteq> None"
  shows "\<exists>c'. send_str data c = Inr c' \<and> out_ok c' \<and> inb c' = inb c \<and> stream c' = stream c @ data \<and> same_life c c' \<and>
           (flushable c \<longrightarrow> fd_open c \<longrightarrow> (\<forall>r \<in> set (wkernel c). \<not> hard_error r) \<longrightarrow> flushable c')"
proof (cases "bytes (outb c) = []")
  case True
  obtain n c1 where i: "isend data c = Inr (n, c1)" using isend_total assms(2) by blast
  note spec = isend_spec [OF i]
  note same = isend_same [OF i]
  have ok: "buffer_ok (outb c)" using assms(1) by (simp add: out_ok_def)
  have e: "bempty (outb c)" using True ok by (simp add: bempty_bytes)
  show ?thesis
  proof (cases "n < length data")
    case n: True
    obtain out where out: "bappend (drop n data) (outb c1) = Inr out" "buffer_ok out"
        "bytes out = drop n data"
      using bappend_ok [OF ok, of "drop n data"] True by (auto simp: same)
    have "wire c1 @ drop n data = wire c @ data" by (simp add: spec(2))
    then show ?thesis
      using n out i e assms spec(4,6) True
      by (auto simp: send_str_def out_ok_def stream_def same flushable_def chan_writeEnabled_def)
  next
    case False
    then show ?thesis
      using i e assms spec(1,2,4) True
      by (auto simp: send_str_def out_ok_def stream_def same flushable_def)
  qed
next
  case False
  have ok: "buffer_ok (outb c)" using assms(1) by (simp add: out_ok_def)
  obtain out where "bappend data (outb c) = Inr out" "buffer_ok out" "bytes out = bytes (outb c) @ data"
    using bappend_ok [OF ok, of data] by blast
  then show ?thesis
    using False assms ok
    by (cases "data = []")
       (auto simp: send_str_def bempty_bytes out_ok_def stream_def flushable_def chan_writeEnabled_def)
qed

lemma send_buf_spec:
  assumes "out_ok c" "chan c \<noteq> None" "buffer_ok buf" "flushable c"
  shows "\<exists>buf' c'. send_buf buf c = Inr (buf', c') \<and> out_ok c' \<and> inb c' = inb c \<and> buffer_ok buf' \<and> bytes buf' = [] \<and>
           stream c' = stream c @ bytes buf \<and> same_life c c' \<and> flushable c'"
proof (cases "chan_writeEnabled c")
  case True
  obtain out buf' where "absorb (outb c) buf = Inr (out, buf')" "buffer_ok out" "buffer_ok buf'"
      "bytes out = bytes (outb c) @ bytes buf" "bytes buf' = []"
    using absorb_ok [of "outb c" buf] assms by (auto simp: out_ok_def)
  then show ?thesis
    using True assms
    by (auto simp: send_buf_def bsize_bytes out_ok_def stream_def flushable_def chan_writeEnabled_def)
next
  case False
  then have e: "bytes (outb c) = []" using assms(4) by (simp add: flushable_def)
  show ?thesis
  proof (cases "bytes buf = []")
    case True
    then show ?thesis using assms False e
      by (auto simp: send_buf_def bsize_bytes flushable_def)
  next
    case ne: False
    obtain n c1 where i: "isend (bytes buf) c = Inr (n, c1)" using isend_total assms(2) by blast
    note spec = isend_spec [OF i]
    note same = isend_same [OF i]
    have b: "buffer_ok (consume n buf)" "bytes (consume n buf) = drop n (bytes buf)"
      using consume_ok [OF assms(3) spec(1)] by auto
    obtain out buf' where ab: "absorb (outb c1) (consume n buf) = Inr (out, buf')" "buffer_ok out"
        "buffer_ok buf'" "bytes out = drop n (bytes buf)" "bytes buf' = []"
      using absorb_ok [of "outb c1" "consume n buf"] assms b e by (auto simp: out_ok_def same)
    have w: "wire c1 @ drop n (bytes buf) = wire c @ bytes buf" by (simp add: spec(2))
    show ?thesis
    proof (cases "n < length (bytes buf)")
      case True
      then show ?thesis
        using False assms ne i b ab w spec(4) e
        by (auto simp: send_buf_def bsize_bytes out_ok_def stream_def same flushable_def)
    next
      case n: False
      then show ?thesis
        using False assms ne i b w spec(4) e
        by (auto simp: send_buf_def bsize_bytes out_ok_def stream_def same flushable_def)
    qed
  qed
qed

text \<open>The write event: flushes, never reorders, and turns notification off once all is sent.\<close>

lemma handleWrite_flush:
  assumes "out_ok c" "tstate c = Connected" "chan c \<noteq> None" "chan_writeEnabled c"
  shows "\<exists>c'. handleWrite rcb scb None ex po c = Inr c' \<and> out_ok c' \<and> stream c' = stream c \<and>
           tstate c' = Connected \<and> (chan_writeEnabled c' \<longleftrightarrow> bytes (outb c') \<noteq> []) \<and> inb c' = inb c"
proof -
  obtain n c1 where i: "isend (bytes (outb c)) c = Inr (n, c1)" using isend_total assms(3) by blast
  note ic = isend_consume [OF i assms(1)] and spec = isend_spec [OF i]
  let ?d = "c1\<lparr>outb := consume n (outb c1)\<rparr>"
  obtain ch where ch: "chan c1 = Some ch" using spec(4) by auto
  have en: "writeEnabled ch" using spec(5) [OF assms(4)] ch by (simp add: chan_writeEnabled_def)
  have be: "bempty (consume n (outb c1)) \<longleftrightarrow> bytes (outb ?d) = []"
    using ic(1) by (simp add: out_ok_def bempty_bytes)
  show ?thesis
    using assms i ic ch en be isend_same(3) [OF i]
    by (auto simp: handleWrite_def Let_def out_ok_def stream_def chan_writeEnabled_def same_life_def)
qed

section \<open>Reading\<close>

text \<open>The loop stores every byte \<open>read\<close> delivered, in order, before the read callback runs: with
  \<open>chunks\<close> that fit the free space and then \<open>EAGAIN\<close>, the callback sees them all.\<close>

lemma poke_addSize:
  assumes "buffer_ok b" "length d \<le> space b"
  shows "\<exists>b'. poke (be b) d b = Inr b' \<and> buffer_ok (addSize (length d) b') \<and>
           bytes (addSize (length d) b') = bytes b @ d \<and> bexp (addSize (length d) b') = bexp b"
proof -
  have "be b + length d \<le> bcap b" using assms by (auto simp: buffer_ok_def space_def)
  from live_addSize_poke [OF assms(1) this] obtain b1 where
    b1: "poke (be b) d (addSize (length d) b) = Inr b1" "buffer_ok b1" "live b1 = live b @ map Some d"
    by blast
  have comm: "poke (be b) d (addSize (length d) b) =
      rbind (poke (be b) d b) (\<lambda>b'. Inr (addSize (length d) b'))"
    by (auto simp: poke_def addSize_def split: option.splits)
  then obtain b' where b': "poke (be b) d b = Inr b'" "b1 = addSize (length d) b'"
    using b1(1) by (cases "poke (be b) d b") auto
  moreover have "bexp b' = bexp b"
    using b'(1) by (auto simp: poke_def split: option.splits if_splits)
  ultimately show ?thesis using b1 by (auto simp: bytes_def o_def addSize_def)
qed

lemma read_loop_collects:
  assumes "buffer_ok (inb c)" "tstate c = Connected" "chan c = Some ch" "0 \<le> ch_fd ch" "0 < bexp (inb c)"
    and "\<forall>d \<in> set chunks. d \<noteq> []"
  shows "\<exists>c'. buffer_ok (inb c') \<and> bytes (inb c') = bytes (inb c) @ concat chunks \<and> bexp (inb c') = bexp (inb c) \<and>
           c' = c\<lparr>inb := inb c', rkernel := []\<rparr> \<and>
           read_loop rcb scb ex (map Got chunks) c =
             (if has_cbs c \<and> bytes (inb c') \<noteq> [] then rcb c' else Inr c')"
proof -
  have "\<exists>c'. buffer_ok (inb c') \<and> bytes (inb c') = bytes (inb c) @ concat chunks \<and> bexp (inb c') = bexp (inb c) \<and>
           c' = c\<lparr>inb := inb c', rkernel := []\<rparr> \<and>
           read_loop rcb scb ex rs c =
             (if has_cbs c \<and> bytes (inb c') \<noteq> [] then rcb c' else Inr c')"
    if "rs = map Got chunks" for rs
    using that assms
  proof (induction rs arbitrary: chunks c rule: measure_induct_rule [where f = pending_reads])
    case (less rs)
    have ok: "buffer_ok (inb c)" using less.prems by simp
    obtain inp where inp: "makeRoom0 (inb c) = Inr inp" "buffer_ok inp" "bytes inp = bytes (inb c)"
        "bexp inp = bexp (inb c)" "0 < space inp"
      using makeRoom0_ok [OF ok] less.prems by blast
    show ?case
    proof (cases chunks)
      case Nil
      then show ?thesis using less.prems inp
        by (intro exI [of _ "c\<lparr>inb := inp, rkernel := []\<rparr>"])
           (auto simp: read_loop.simps [of rcb scb ex "[]" c] read_iter_def call_read_def bsize_bytes)
    next
      case (Cons bs ds)
      let ?d = "take (space inp) bs" and ?more = "drop (space inp) bs"
      let ?chunks = "if ?more = [] then ds else ?more # ds"
      have ne: "?d \<noteq> []" using Cons less.prems inp by auto
      obtain inp' where inp': "poke (be inp) ?d inp = Inr inp'" "buffer_ok (addSize (length ?d) inp')"
          "bytes (addSize (length ?d) inp') = bytes inp @ ?d" "bexp (addSize (length ?d) inp') = bexp inp"
        using poke_addSize [OF inp(2), of ?d] by auto
      let ?c1 = "c\<lparr>inb := addSize (length ?d) inp'\<rparr>"
      have dec: "pending_reads (map Got ?chunks) < pending_reads rs"
        using less.prems Cons inp ne by (auto simp: pending_reads_def)
      have cc: "concat chunks = ?d @ concat ?chunks" using Cons by (cases "?more = []") auto
      have eq: "read_loop rcb scb ex rs c = read_loop rcb scb ex (map Got ?chunks) ?c1"
        using less.prems Cons inp inp' ne
        by (simp add: read_loop.simps [of rcb scb ex "Got bs # map Got ds" c] read_iter_def Let_def)
      have "\<forall>d \<in> set ?chunks. d \<noteq> []" "buffer_ok (inb ?c1)" "0 < bexp (inb ?c1)"
        using less.prems Cons inp inp' by auto
      from less.IH [OF dec refl this(2) _ _ _ this(3,1)] less.prems
      show ?thesis unfolding eq cc using inp inp' by auto
    qed
  qed
  then show ?thesis by blast
qed

lemma handleRead_collects:
  assumes "buffer_ok (inb c)" "0 < bexp (inb c)" "tstate c = Connected" "fd_open c"
    and "rkernel c = map Got chunks" "\<forall>d \<in> set chunks. d \<noteq> []"
  shows "\<exists>inp. buffer_ok inp \<and> bytes inp = bytes (inb c) @ concat chunks \<and> bexp inp = bexp (inb c) \<and>
           handleRead rcb scb ex po c =
             (if has_cbs c \<and> bytes inp \<noteq> [] then rcb (c\<lparr>inb := inp, rkernel := []\<rparr>)
              else Inr (c\<lparr>inb := inp, rkernel := []\<rparr>))"
proof -
  obtain ch where ch: "chan c = Some ch" "0 \<le> ch_fd ch" using assms(4) by (auto simp: fd_open_def split: option.splits)
  obtain c' where c': "buffer_ok (inb c')" "bytes (inb c') = bytes (inb c) @ concat chunks" "bexp (inb c') = bexp (inb c)"
      "c' = c\<lparr>inb := inb c', rkernel := []\<rparr>"
      "read_loop rcb scb ex (map Got chunks) c = (if has_cbs c \<and> bytes (inb c') \<noteq> [] then rcb c' else Inr c')"
    using read_loop_collects [OF assms(1,3) ch assms(2,6), of rcb scb ex] by blast
  have h: "handleRead rcb scb ex po c = read_loop rcb scb ex (map Got chunks) c"
    using assms(3,5) by (simp add: handleRead_def)
  have "handleRead rcb scb ex po c =
      (if has_cbs c \<and> bytes (inb c') \<noteq> [] then rcb (c\<lparr>inb := inb c', rkernel := []\<rparr>)
       else Inr (c\<lparr>inb := inb c', rkernel := []\<rparr>))"
    unfolding h c'(5) c'(4) [symmetric] ..
  then show ?thesis using c'(1,2,3) by blast
qed

section \<open>The life cycle as a state machine\<close>

text \<open>What user code may do to its connection: anything with the input, queue output, nothing with
  the life cycle, which the header's warning on \<open>closeNow\<close> reserves to
  the library.\<close>

definition keeps :: "'a callback \<Rightarrow> bool" where
  "keeps cb \<longleftrightarrow> (\<forall>c c'. out_ok c \<longrightarrow> cb c = Inr c' \<longrightarrow> out_ok c' \<and> same_life c c')"

definition conn_inv :: "'a conn_scheme \<Rightarrow> bool" where
  "conn_inv c \<longleftrightarrow> out_ok c \<and>
     (chan c \<noteq> None \<longleftrightarrow> tstate c = Handshaking \<or> tstate c = Connected) \<and>
     (reconnecting c \<longrightarrow> tstate c = Closed \<or> tstate c = Failed) \<and>
     (0 \<le> reconnectInterval c \<and> tstate c \<noteq> Invalid \<longrightarrow> 0 < destPort c)"

lemma conn_inv_same_life: "conn_inv c \<Longrightarrow> same_life c c' \<Longrightarrow> out_ok c' \<Longrightarrow> conn_inv c'"
  by (auto simp: conn_inv_def same_life_def)

lemma keepsD: "keeps cb \<Longrightarrow> out_ok c \<Longrightarrow> (if P then cb c else Inr c) = Inr c' \<Longrightarrow> out_ok c' \<and> same_life c c'"
proof (cases P)
  case True
  assume "keeps cb" "out_ok c" "(if P then cb c else Inr c) = Inr c'"
  then show ?thesis using True unfolding keeps_def by (simp only: if_True)
next
  case False
  assume "out_ok c" "(if P then cb c else Inr c) = Inr c'"
  then show ?thesis using False by (simp add: same_life_def)
qed

locale conn_user =
  fixes readcb :: "'a callback" and statecb :: "'a callback" and writablecb :: "'a callback"
  assumes keeps_read: "keeps readcb"
    and keeps_state: "keeps statecb"
    and keeps_writable: "keeps writablecb"
begin

lemma cleanup_inv:
  assumes "conn_inv c" "chan c \<noteq> None" "cleanup readcb statecb ex c = Inr c'"
  shows "conn_inv c' \<and> chan c' = None \<and>
    tstate c' = (if tstate c = Handshaking then Failed else Closed) \<and>
    (reconnecting c' \<longleftrightarrow> 0 \<le> reconnectInterval c \<and> \<not> ex)"
proof -
  obtain c1 where c1: "(if has_cbs c \<and> bsize (inb c) \<noteq> 0 then readcb c else Inr c) = Inr c1"
    using assms(3) by (auto simp: cleanup_def call_read_def)
  let ?c2 = "c1\<lparr>tstate := (if tstate c1 = Handshaking then Failed else Closed), timeout_set := False\<rparr>"
  obtain c3 where c3: "(if has_cbs ?c2 then statecb ?c2 else Inr ?c2) = Inr c3" and
      c': "(if 0 \<le> reconnectInterval c3 \<and> \<not> ex then reconnect c3
            else Inr (c3\<lparr>has_cbs := False, chan := None\<rparr>)) = Inr c'"
    using assms(3) c1 by (auto simp: cleanup_def call_read_def Let_def)
  have b: "out_ok c" using assms(1) by (simp add: conn_inv_def)
  have k1: "out_ok c1" "same_life c c1" using keepsD [OF keeps_read b c1] by auto
  then have "out_ok ?c2" by (simp add: out_ok_def)
  from keepsD [OF keeps_state this c3] have k3: "out_ok c3" "same_life ?c2 c3" by auto
  show ?thesis
    using c' k1 k3 assms(1,2)
    by (auto simp: conn_inv_def same_life_def reconnect_def out_ok_def split: if_splits)
qed

lemma handshake_inv:
  assumes "conn_inv c" "tstate c = Handshaking" "handleHandshake readcb statecb ex po c = Inr (f, c')"
  shows "conn_inv c' \<and> tstate c' = (if f then Failed else Connected)"
proof -
  obtain ch where ch: "chan c = Some ch" using assms(1,2) by (auto simp: conn_inv_def)
  show ?thesis
  proof (cases po)
    case True
    let ?c1 = "c\<lparr>chan := Some (enableReadWrite True False ch), tstate := Connected\<rparr>"
    have inv: "conn_inv ?c1" using assms(1,2) by (auto simp: conn_inv_def out_ok_def)
    have "(if has_cbs ?c1 then statecb ?c1 else Inr ?c1) = Inr c'" "\<not> f"
      using assms(2,3) ch True by (auto simp: handleHandshake_def Let_def)
    moreover have "out_ok ?c1" using inv by (simp add: conn_inv_def)
    ultimately have "out_ok c' \<and> same_life ?c1 c'" using keepsD [OF keeps_state] by blast
    then show ?thesis using conn_inv_same_life [OF inv] \<open>\<not> f\<close> by (auto simp: same_life_def)
  next
    case False
    then show ?thesis using assms ch cleanup_inv [OF assms(1)] by (auto simp: handleHandshake_def)
  qed
qed

lemma call_read_inv: "conn_inv c \<Longrightarrow> call_read readcb c = Inr c' \<Longrightarrow> conn_inv c'"
  using keepsD [OF keeps_read, of c] conn_inv_same_life [of c c']
  unfolding call_read_def by (auto simp: conn_inv_def)

lemma read_iter_inv:
  assumes "conn_inv c" "chan c = Some ch"
  shows "read_iter readcb statecb ex rs ch c = Leave (Inr c') \<Longrightarrow> conn_inv c'"
    and "read_iter readcb statecb ex rs ch c = Again rs' c' \<Longrightarrow> conn_inv c'"
proof -
  have k: "conn_inv (c\<lparr>rkernel := x\<rparr>)" for x using assms(1) by (auto simp: conn_inv_def out_ok_def)
  have clean: "conn_inv c'" if "cleanup readcb statecb ex (c\<lparr>rkernel := x\<rparr>) = Inr c'" for x
    using cleanup_inv [OF k _ that] assms(2) by simp
  have inb: "conn_inv (c\<lparr>inb := x\<rparr>)" for x
    using assms(1) by (auto simp: conn_inv_def out_ok_def)
  show "read_iter readcb statecb ex rs ch c = Leave (Inr c') \<Longrightarrow> conn_inv c'"
    by (auto simp: read_iter_def Let_def dest: clean call_read_inv [OF k]
        split: if_splits list.splits rres.splits sum.splits)
  show "read_iter readcb statecb ex rs ch c = Again rs' c' \<Longrightarrow> conn_inv c'"
    using inb assms(1)
    by (auto simp: read_iter_def Let_def split: if_splits list.splits rres.splits sum.splits)
qed

lemma read_loop_inv:
  "conn_inv c \<Longrightarrow> read_loop readcb statecb ex rs c = Inr c' \<Longrightarrow> conn_inv c'"
proof (induction "pending_reads rs" arbitrary: rs c rule: less_induct)
  case less
  note unfold = less.prems(2) [unfolded read_loop.simps [of readcb statecb ex rs c]]
  show ?case
  proof (cases "tstate c = Connected")
    case False
    then show ?thesis using less.prems(1) unfold by (auto simp: conn_inv_def out_ok_def)
  next
    case True
    then obtain ch where ch: "chan c = Some ch" using less.prems(1) by (auto simp: conn_inv_def)
    obtain inp where inp: "makeRoom0 (inb c) = Inr inp"
      using True ch unfold by (cases "makeRoom0 (inb c)") auto
    have inv1: "conn_inv (c\<lparr>inb := inp\<rparr>)" and ch1: "chan (c\<lparr>inb := inp\<rparr>) = Some ch"
      using less.prems(1) inp ch by (auto simp: conn_inv_def out_ok_def)
    show ?thesis
    proof (cases "read_iter readcb statecb ex rs ch (c\<lparr>inb := inp\<rparr>)")
      case (Leave r)
      then show ?thesis using unfold True ch inp read_iter_inv(1) [OF inv1 ch1] by auto
    next
      case (Again rs1 c1)
      then have "conn_inv c1" by (rule read_iter_inv(2) [OF inv1 ch1])
      moreover have "read_loop readcb statecb ex rs1 c1 = Inr c'" using unfold True ch inp Again by simp
      ultimately show ?thesis using less.hyps read_iter_decreases [OF Again] by blast
    qed
  qed
qed

lemma handleRead_inv:
  assumes "conn_inv c" "handleRead readcb statecb ex po c = Inr c'"
  shows "conn_inv c'"
  using assms handshake_inv [OF assms(1)] read_loop_inv
  by (auto simp: handleRead_def split: if_splits) blast+

lemma handleWrite_inv:
  assumes "conn_inv c" "handleWrite readcb statecb (Some writablecb) ex po c = Inr c'"
  shows "conn_inv c'"
proof (cases "tstate c = Connected")
  case True
  obtain n c1 where i: "isend (bytes (outb c)) c = Inr (n, c1)"
    using assms(2) True by (auto simp: handleWrite_def)
  let ?c2 = "c1\<lparr>outb := consume n (outb c1)\<rparr>"
  have b: "out_ok c" using assms(1) by (simp add: conn_inv_def)
  have "same_life c ?c2" using isend_same(1) [OF i] by simp
  then have inv2: "conn_inv ?c2" using conn_inv_same_life [OF assms(1)] isend_consume(1) [OF i b] by blast
  obtain c3 where c3: "(if bempty (outb ?c2) then writablecb ?c2 else Inr ?c2) = Inr c3" and
      c': "(case chan c3 of None \<Rightarrow> Inl NullDeref | Some ch \<Rightarrow>
            if bempty (outb c3) \<and> writeEnabled ch
            then Inr (c3\<lparr>chan := Some (enableWrite False ch)\<rparr>) else Inr c3) = Inr c'"
    using assms(2) True i by (auto simp: handleWrite_def Let_def)
  have "out_ok ?c2" using inv2 by (simp add: conn_inv_def)
  then have "conn_inv c3" using keepsD [OF keeps_writable _ c3] conn_inv_same_life [OF inv2] by blast
  then show ?thesis using c' by (auto simp: conn_inv_def out_ok_def split: option.splits if_splits)
next
  case False
  then show ?thesis using assms handshake_inv [OF assms(1)]
    by (auto simp: handleWrite_def split: if_splits)
qed

lemma channel_close_inv:
  assumes "conn_inv c" "channel_close readcb statecb ex c = Inr c'"
  shows "conn_inv c'"
proof -
  have "conn_inv (c\<lparr>chan := Some x\<rparr>)" if "chan c \<noteq> None" for x
    using assms(1) that by (auto simp: conn_inv_def out_ok_def)
  then show ?thesis using assms handleRead_inv [of "c\<lparr>chan := Some _\<rparr>"]
    by (auto simp: channel_close_def split: option.splits if_splits)
qed

end

text \<open>
  The events of a connection object. \<open>Dial\<close> is \<open>createConnection\<close> to a host, \<open>Accept\<close> the
  server side (which sets no reconnect interval); both callbacks of the pollers, a close and the
  reconnect timer follow.
\<close>

inductive conn_step :: "'a callback \<Rightarrow> 'a callback \<Rightarrow> 'a callback \<Rightarrow> 'a conn_scheme \<Rightarrow> 'a conn_scheme \<Rightarrow> bool"
  for rcb scb wcb where
  Dial: "tstate c = Invalid \<Longrightarrow> 0 \<le> fd \<Longrightarrow> 0 < port \<Longrightarrow> connect fd port t c = Inr c' \<Longrightarrow> conn_step rcb scb wcb c c'"
| Accept: "tstate c = Invalid \<Longrightarrow> reconnectInterval c < 0 \<Longrightarrow> destPort c < 0 \<Longrightarrow> attach fd c = Inr c' \<Longrightarrow>
    conn_step rcb scb wcb c c'"
| Readable: "chan c \<noteq> None \<Longrightarrow> handleRead rcb scb ex po c = Inr c' \<Longrightarrow> conn_step rcb scb wcb c c'"
| Writable: "chan c \<noteq> None \<Longrightarrow> handleWrite rcb scb (Some wcb) ex po c = Inr c' \<Longrightarrow> conn_step rcb scb wcb c c'"
| Close: "channel_close rcb scb ex c = Inr c' \<Longrightarrow> conn_step rcb scb wcb c c'"
| Redial: "reconnecting c \<Longrightarrow> 0 \<le> reconnectInterval c \<Longrightarrow> reconnect_timer fd c = Inr c' \<Longrightarrow> conn_step rcb scb wcb c c'"
| Timeout: "connect_timeout rcb scb ex c = Inr c' \<Longrightarrow> conn_step rcb scb wcb c c'"
| Task: "keeps task \<Longrightarrow> task c = Inr c' \<Longrightarrow> conn_step rcb scb wcb c c'"

inductive_cases conn_stepE: "conn_step rcb scb wcb c c'"

inductive conn_reach :: "'a callback \<Rightarrow> 'a callback \<Rightarrow> 'a callback \<Rightarrow> 'a conn_scheme \<Rightarrow> bool" for rcb scb wcb where
  init: "conn.truncate c = (conn_new ws rs)\<lparr>reconnectInterval := ri\<rparr> \<Longrightarrow> conn_reach rcb scb wcb c"
| step: "conn_reach rcb scb wcb c \<Longrightarrow> conn_step rcb scb wcb c c' \<Longrightarrow> conn_reach rcb scb wcb c'"

context conn_user
begin

lemma conn_new_inv: "conn.truncate c = (conn_new ws rs)\<lparr>reconnectInterval := ri\<rparr> \<Longrightarrow> conn_inv c"
  by (cases c) (simp add: conn_inv_def conn_new_def out_ok_def conn.defs)

lemma keeps_inv: "keeps task \<Longrightarrow> conn_inv c \<Longrightarrow> task c = Inr c' \<Longrightarrow> conn_inv c'"
  unfolding keeps_def by (meson conn_inv_def conn_inv_same_life)

lemma conn_step_inv:
  assumes "conn_step readcb statecb writablecb c c'" "conn_inv c"
  shows "conn_inv c'"
  using assms
proof (induction rule: conn_step.induct)
  case (Dial c fd port t c')
  then show ?case by (auto simp: connect_def attach_def conn_inv_def out_ok_def)
next
  case (Accept c fd c')
  then show ?case by (auto simp: attach_def conn_inv_def out_ok_def)
next
  case (Readable c ex po c')
  then show ?case using handleRead_inv by blast
next
  case (Writable c ex po c')
  then show ?case using handleWrite_inv by blast
next
  case (Close ex c c')
  then show ?case using channel_close_inv by blast
next
  case (Redial c fd c')
  then show ?case by (auto simp: reconnect_timer_def connect_def attach_def conn_inv_def out_ok_def split: if_splits)
next
  case (Timeout ex c c')
  then show ?case using channel_close_inv by (auto simp: connect_timeout_def split: if_splits)
next
  case (Task task c c')
  then show ?case using keeps_inv by blast
qed

lemma conn_reach_inv: "conn_reach readcb statecb writablecb c \<Longrightarrow> conn_inv c"
  by (induction rule: conn_reach.induct) (auto intro: conn_new_inv conn_step_inv)

end

section \<open>Sessions of sends and write events\<close>

text \<open>A healthy connection: open, its output notified when pending, and no hard write error to
  come.\<close>

definition healthy :: "'a conn_scheme \<Rightarrow> bool" where
  "healthy c \<longleftrightarrow> out_ok c \<and> fd_open c \<and> flushable c \<and> (\<forall>r \<in> set (wkernel c). \<not> hard_error r)"

datatype send_op = SendStr string | SendCStr string | SendBuf buffer | SendOutput | WriteEvent

fun run_send :: "send_op \<Rightarrow> 'a callback" where
  "run_send (SendStr d) c = send_str d c"
| "run_send (SendCStr d) c = send_cstr d c"
| "run_send (SendBuf b) c = rbind (send_buf b c) (\<lambda>(_, c'). Inr c')"
| "run_send SendOutput c = sendOutput c"
| "run_send WriteEvent c =
     (if chan_writeEnabled c then handleWrite Inr Inr None False False c else Inr c)"

fun run_sends :: "send_op list \<Rightarrow> 'a callback" where
  "run_sends [] c = Inr c"
| "run_sends (s # ss) c = rbind (run_send s c) (run_sends ss)"

fun sent_by :: "send_op \<Rightarrow> string" where
  "sent_by (SendStr d) = d"
| "sent_by (SendCStr d) = cstr d"
| "sent_by (SendBuf b) = bytes b"
| "sent_by _ = []"

fun send_wf :: "send_op \<Rightarrow> bool" where
  "send_wf (SendBuf b) = buffer_ok b"
| "send_wf _ = True"

text \<open>No send touches the descriptor, and the kernel's answers are only used up.\<close>

definition uses_up :: "'a conn_scheme \<Rightarrow> 'a conn_scheme \<Rightarrow> bool" where
  "uses_up c c' \<longleftrightarrow> fd_open c' = fd_open c \<and> set (wkernel c') \<subseteq> set (wkernel c)"

lemma uses_up_refl [simp]: "uses_up c c"
  by (simp add: uses_up_def)

lemma fd_open_simps [simp]:
  "fd_open (c\<lparr>outb := x\<rparr>) = fd_open c" "fd_open (chan_want_write c) = fd_open c"
  by (auto simp: fd_open_def chan_want_write_def split: option.splits)

lemma uses_up_simps [simp]:
  "uses_up c (c'\<lparr>outb := x\<rparr>) = uses_up c c'" "uses_up c (chan_want_write c') = uses_up c c'"
  "uses_up (c\<lparr>outb := x\<rparr>) c' = uses_up c c'"
  by (simp_all add: uses_up_def)

lemma isend_uses_up:
  assumes "isend data c = Inr (n, c')"
  shows "uses_up c c'"
proof -
  obtain ch where ch: "chan c = Some ch" using assms by (auto simp: isend_def split: option.splits)
  show ?thesis
  proof (cases "ch_fd ch < 0")
    case True
    then show ?thesis using assms ch by (simp add: isend_def)
  next
    case False
    obtain ch' ws w where e: "isend_loop data 0 ch (wkernel c) (wire c) = (n, ch', ws, w)"
        "c' = c\<lparr>chan := Some ch', wkernel := ws, wire := w\<rparr>"
      using assms ch False by (auto simp: isend_def Let_def split: prod.splits)
    then show ?thesis using isend_loop_spec [OF e(1)] ch by (simp add: uses_up_def fd_open_def)
  qed
qed

lemma sends_use_up:
  "sendOutput c = Inr c' \<Longrightarrow> uses_up c c'"
  "send_str d c = Inr c' \<Longrightarrow> uses_up c c'"
  "send_buf b c = Inr (b', c') \<Longrightarrow> uses_up c c'"
  by (auto simp: sendOutput_def send_str_def send_buf_def dest!: isend_uses_up split: if_splits)

lemma handleWrite_uses_up:
  assumes "handleWrite rcb scb None ex po c = Inr c'" "tstate c = Connected"
  shows "uses_up c c'"
proof -
  obtain n c1 where i: "isend (bytes (outb c)) c = Inr (n, c1)"
    using assms by (auto simp: handleWrite_def)
  have "fd_open (x\<lparr>chan := Some (enableWrite e ch)\<rparr>) = fd_open x" if "chan x = Some ch" for x :: "'a conn_scheme" and ch e
    using that by (simp add: fd_open_def)
  then show ?thesis using assms i isend_uses_up [OF i]
    by (auto simp: handleWrite_def uses_up_def fd_open_def split: option.splits if_splits)
qed

lemma fd_open_chan: "fd_open c \<Longrightarrow> chan c \<noteq> None"
  by (auto simp: fd_open_def split: option.splits)

lemma run_send_ok:
  assumes "healthy c" "tstate c = Connected" "send_wf s"
  shows "\<exists>c'. run_send s c = Inr c' \<and> healthy c' \<and> tstate c' = Connected \<and> inb c' = inb c \<and>
           stream c' = stream c @ sent_by s"
proof -
  have h: "out_ok c" "fd_open c" "flushable c" "\<forall>r \<in> set (wkernel c). \<not> hard_error r" "chan c \<noteq> None"
    using assms(1) fd_open_chan by (auto simp: healthy_def)
  have up: "fd_open c' \<and> (\<forall>r \<in> set (wkernel c'). \<not> hard_error r)" if "uses_up c c'" for c' :: "'a conn_scheme"
    using that h by (auto simp: uses_up_def)
  have life: "tstate c' = Connected" if "same_life c c'" for c' :: "'a conn_scheme"
    using that assms(2) by (simp add: same_life_def)
  show ?thesis
  proof (cases s)
    case (SendStr d)
    then show ?thesis using send_str_spec [OF h(1,5), of d] sends_use_up(2) [of d c] up life h
      by (fastforce simp: healthy_def)
  next
    case (SendCStr d)
    then show ?thesis using send_str_spec [OF h(1,5), of "cstr d"] sends_use_up(2) [of "cstr d" c] up life h
      by (fastforce simp: healthy_def send_cstr_def)
  next
    case (SendBuf b)
    then show ?thesis using send_buf_spec [OF h(1,5) _ h(3), of b] sends_use_up(3) [of b c] up life assms(3)
      by (fastforce simp: healthy_def)
  next
    case SendOutput
    then show ?thesis using sendOutput_spec [OF h(1)] sends_use_up(1) [of c] up life h
      by (fastforce simp: healthy_def)
  next
    case WriteEvent
    show ?thesis
    proof (cases "chan_writeEnabled c")
      case True
      obtain c' where c': "handleWrite Inr Inr None False False c = Inr c'" "out_ok c'" "stream c' = stream c"
          "tstate c' = Connected" "chan_writeEnabled c' \<longleftrightarrow> bytes (outb c') \<noteq> []" "inb c' = inb c"
        using handleWrite_flush [OF h(1) assms(2) h(5) True, of Inr Inr False False] by blast
      then show ?thesis
        using WriteEvent True up [OF handleWrite_uses_up [OF c'(1) assms(2)]]
        by (auto simp: healthy_def flushable_def)
    next
      case False
      then show ?thesis using WriteEvent assms by simp
    qed
  qed
qed

lemma run_sends_ok:
  "healthy c \<Longrightarrow> tstate c = Connected \<Longrightarrow> \<forall>s \<in> set ss. send_wf s \<Longrightarrow>
   \<exists>c'. run_sends ss c = Inr c' \<and> healthy c' \<and> inb c' = inb c \<and> stream c' = stream c @ concat (map sent_by ss)"
proof (induction ss arbitrary: c)
  case Nil
  then show ?case by simp
next
  case (Cons s ss)
  obtain c1 where c1: "run_send s c = Inr c1" "healthy c1" "tstate c1 = Connected" "inb c1 = inb c"
      "stream c1 = stream c @ sent_by s"
    using run_send_ok [of c s] Cons.prems by auto
  then show ?case using Cons.IH [of c1] Cons.prems by auto
qed

text \<open>Sending leaves alone whatever a user's record adds to the connection's.\<close>

lemma isend_more: "isend data c = Inr (n, c') \<Longrightarrow> conn.more c' = conn.more c"
  by (auto simp: isend_def Let_def split: option.splits prod.splits if_splits)

lemma sendOutput_more: "sendOutput c = Inr c' \<Longrightarrow> conn.more c' = conn.more c"
  by (auto simp: sendOutput_def chan_want_write_def dest!: isend_more split: if_splits)

section \<open>Properties\<close>

text \<open>
  C4. Bytes leave a connection in the order they were handed to it. On a
  connected, healthy connection any sequence of \<open>send(const char*)\<close>, \<open>send(Buffer&)\<close>,
  \<open>sendOutput\<close> and write events, under any pattern of partial writes, interruptions and
  \<open>EAGAIN\<close>, never fails: what the kernel took followed by what is still in \<open>output_\<close> is the
  old stream followed by exactly the bytes sent, and pending output keeps its write notification.
\<close>

theorem send_stream_order:
  assumes "healthy c" "tstate c = Connected" "\<forall>s \<in> set ss. send_wf s"
  shows "\<exists>c'. run_sends ss c = Inr c' \<and> wire c' @ bytes (outb c') =
           wire c @ bytes (outb c) @ concat (map sent_by ss) \<and>
           (bytes (outb c') = [] \<or> chan_writeEnabled c')"
  using run_sends_ok [OF assms] by (auto simp: stream_def healthy_def flushable_def)

definition idle_conn :: conn where
  "idle_conn = (conn_new [Wrote 2, WAgain, Wrote 100] [])\<lparr>tstate := Connected, chan := Some (new_channel 5 1)\<rparr>"

theorem send_stream_order_witness:
  "\<exists>c'. run_sends [SendStr ''abc'', SendStr ''de'', WriteEvent] idle_conn = Inr c' \<and>
     wire c' @ bytes (outb c') = wire idle_conn @ bytes (outb idle_conn) @
       concat (map sent_by [SendStr ''abc'', SendStr ''de'', WriteEvent]) \<and>
     (bytes (outb c') = [] \<or> chan_writeEnabled c')"
  by (rule send_stream_order)
     (simp_all add: idle_conn_def conn_new_def healthy_def out_ok_def fd_open_def flushable_def hard_error_def)

text \<open>
  A read event stores every byte the kernel delivers, in order and across
  any number of reads and reallocations, and calls the read callback once, after the last read,
  with all of them in \<open>input_\<close>.
\<close>

theorem read_event_delivers:
  assumes "buffer_ok (inb c)" "0 < bexp (inb c)" "tstate c = Connected" "fd_open c"
    and "rkernel c = map Got chunks" "\<forall>d \<in> set chunks. d \<noteq> []"
  shows "\<exists>inp. buffer_ok inp \<and> bytes inp = bytes (inb c) @ concat chunks \<and>
           handleRead rcb scb ex po c =
             (if has_cbs c \<and> bytes inp \<noteq> [] then rcb (c\<lparr>inb := inp, rkernel := []\<rparr>)
              else Inr (c\<lparr>inb := inp, rkernel := []\<rparr>))"
  using handleRead_collects [OF assms, of rcb scb ex po] by blast

theorem read_event_delivers_witness:
  "\<exists>inp. buffer_ok inp \<and> bytes inp = ''abc'' \<and>
     handleRead (\<lambda>c. Inl Fatal) Inr False False (idle_conn\<lparr>rkernel := map Got [''ab'', ''c'']\<rparr>) = Inl Fatal"
proof -
  have b: "bexp buf_new = 512" by (simp add: buf_new_def)
  show ?thesis
    using read_event_delivers [of "idle_conn\<lparr>rkernel := map Got [''ab'', ''c'']\<rparr>" "[''ab'', ''c'']" "\<lambda>c. Inl Fatal" Inr False False] b
    by (auto simp: idle_conn_def conn_new_def fd_open_def)
qed

text \<open>
  Output queued while a connection is still handshaking is not sent
  when it comes up (here with a state callback that does nothing): \<open>handleHandshake\<close> switches write notification off without looking at
  \<open>output_\<close>, so the bytes stay until some later call sends.
\<close>

theorem handshake_stalls_output:
  assumes "tstate c = Handshaking" "chan c \<noteq> None" "bytes (outb c) \<noteq> []"
  shows "\<exists>c'. handleWrite rcb Inr wcb ex True c = Inr c' \<and> tstate c' = Connected \<and>
           bytes (outb c') \<noteq> [] \<and> wire c' = wire c \<and> \<not> chan_writeEnabled c'"
  using assms by (auto simp: handleWrite_def handleHandshake_def chan_writeEnabled_def Let_def)

theorem handshake_stalls_output_witness:
  "\<exists>c'. handleWrite Inr Inr None False True (idle_conn\<lparr>tstate := Handshaking,
       outb := \<lparr>cells = Some [Some CHR ''x''], bb = 0, be = 1, bcap = 1, bexp = 512\<rparr>\<rparr>) = Inr c' \<and>
     tstate c' = Connected \<and>
     bytes (outb c') \<noteq> [] \<and>
     wire c' = wire (idle_conn\<lparr>tstate := Handshaking,
       outb := \<lparr>cells = Some [Some CHR ''x''], bb = 0, be = 1, bcap = 1, bexp = 512\<rparr>\<rparr>) \<and> \<not> chan_writeEnabled c'"
  by (rule handshake_stalls_output)
     (simp_all add: idle_conn_def conn_new_def bytes_def live_def blk_def)

end
