(* ===== verification/ExtCodec.thy ===== *)
theory ExtCodec
  imports Conn
begin

text \<open>
  \<open>ExternalMsgCodec\<close> and \<open>ExternalMsgDispatcher\<close> (\<open>src/src/codec/\<close>): the framing of
  protobuf messages between the storage server and its management server, the registry of
  command codes, and the dispatch by message type. The protobuf library is a parameter
  (\<open>'m protobuf\<close>): serialisation, parsing and the pool of generated types.
\<close>

section \<open>The protobuf library\<close>

record 'm protobuf =
  full_name :: "'m \<Rightarrow> string"                    \<comment> \<open>\<open>GetDescriptor()->full_name()\<close>\<close>
  serialize :: "'m \<Rightarrow> string"                    \<comment> \<open>\<open>SerializeToArray\<close>, \<open>ByteSize\<close> bytes\<close>
  known_type :: "string \<Rightarrow> bool"                 \<comment> \<open>\<open>FindMessageTypeByName\<close>, \<open>GetPrototype\<close>\<close>
  parse :: "string \<Rightarrow> string \<Rightarrow> 'm option"       \<comment> \<open>\<open>ParsePartialFromArray\<close> on a new message of the type\<close>

text \<open>The documented behaviour the codec relies on for a message: its generated type is in the pool,
  its serialised form parses back, and it fits an \<open>int\<close> size.\<close>

definition protobuf_ok :: "'m protobuf \<Rightarrow> 'm \<Rightarrow> bool" where
  "protobuf_ok P m \<longleftrightarrow> known_type P (full_name P m) \<and>
     parse P (full_name P m) (serialize P m) = Some m \<and> length (serialize P m) < 2 ^ 31"

section \<open>Registry of command codes\<close>

text \<open>The static maps \<open>cmd2Type_\<close> and \<open>type2Cmd_\<close>; both lookups use \<open>operator[]\<close>.\<close>

record registry =
  cmd2Type :: "(32 word \<times> string) list"
  type2Cmd :: "(string \<times> 32 word) list"

definition reg_new :: registry where
  "reg_new = \<lparr>cmd2Type = [], type2Cmd = []\<rparr>"

definition onCodec :: "32 word \<Rightarrow> string \<Rightarrow> registry \<Rightarrow> registry" where
  "onCodec cmd type r = r\<lparr>cmd2Type := mput cmd type (cmd2Type r), type2Cmd := mput type cmd (type2Cmd r)\<rparr>"

definition getCmd :: "string \<Rightarrow> registry \<Rightarrow> 32 word \<times> registry" where
  "getCmd type r = (let (c, m) = mindex 0 type (type2Cmd r) in (c, r\<lparr>type2Cmd := m\<rparr>))"

definition getType :: "32 word \<Rightarrow> registry \<Rightarrow> string \<times> registry" where
  "getType cmd r = (let (t, m) = mindex [] cmd (cmd2Type r) in (t, r\<lparr>cmd2Type := m\<rparr>))"

section \<open>Framing\<close>

record BaseHead =
  cmd :: "32 word"
  hlength :: "32 word"
  err :: "32 word"
  para1 :: "32 word"
  para2 :: "32 word"

definition head_new :: BaseHead where
  "head_new = \<lparr>cmd = 0, hlength = 0, err = 0, para1 = 0, para2 = 0\<rparr>"

text \<open>\<open>htonl\<close> of the C library is the byte swap of \<open>port::htobe\<close>.\<close>

abbreviation htonl :: "32 word \<Rightarrow> 32 word" where
  "htonl \<equiv> htobe32"

definition msgComplete :: "buffer \<Rightarrow> bool" where
  "msgComplete buf \<longleftrightarrow> 20 \<le> bsize buf"

text \<open>\<open>encode(Message*, uint32_t err, uint32_t para1, uint32_t para2, Buffer&)\<close>\<close>

definition encode_msg :: "'m protobuf \<Rightarrow> 'm \<Rightarrow> 32 word \<Rightarrow> 32 word \<Rightarrow> 32 word \<Rightarrow> buffer \<Rightarrow> registry \<Rightarrow>
    (buffer \<times> registry) res" where
  "encode_msg P msg e p1 p2 buf reg =
     (let (c, reg') = getCmd (full_name P msg) reg in
      rbind (appends_with bappend
        [mem32 (htonl c), mem32 (htonl (of_nat (length (serialize P msg)))), mem32 (htonl e),
         mem32 (htonl p1), mem32 (htonl p2), serialize P msg] buf)
        (\<lambda>buf'. Inr (buf', reg')))"

text \<open>\<open>encode(std::string msg, \<dots>)\<close>: a head without body for the named type.\<close>

definition encode_name :: "string \<Rightarrow> 32 word \<Rightarrow> 32 word \<Rightarrow> 32 word \<Rightarrow> buffer \<Rightarrow> registry \<Rightarrow>
    (buffer \<times> registry) res" where
  "encode_name name e p1 p2 buf reg =
     (let (c, reg') = getCmd name reg in
      rbind (appends_with bappend
        [mem32 (htonl c), mem32 (htonl 0), mem32 (htonl e), mem32 (htonl p1), mem32 (htonl p2)] buf)
        (\<lambda>buf'. Inr (buf', reg')))"

text \<open>\<open>encode(Message*, Buffer&)\<close>: the self-describing form; the total length is patched into
  the first word at the end.\<close>

definition encode_named :: "'m protobuf \<Rightarrow> 'm \<Rightarrow> buffer \<Rightarrow> buffer res" where
  "encode_named P msg buf =
     (let offset = bsize buf in
      rbind (appends_with bappend
        [mem32 0, mem32 (of_nat (length (full_name P msg))), full_name P msg, serialize P msg] buf)
        (\<lambda>buf'. poke (bb buf' + offset) (mem32 (of_nat (bsize buf' - offset))) buf'))"

text \<open>
  \<open>decode\<close> returns the message pointer (\<open>None\<close> for \<open>NULL\<close>), the head, and the changed buffer
  and registry. It passes \<open>length\<close> bytes behind the head to the parser without checking that
  they have arrived: bytes past the received data are whatever the block holds there, the
  parameter \<open>junk\<close>; past the block it is \<open>OutOfBounds\<close>.
\<close>

definition read_head :: "string \<Rightarrow> BaseHead" where
  "read_head p = \<lparr>cmd = htonl (load32 p), hlength = htonl (load32 (drop 4 p)),
     err = htonl (load32 (drop 8 p)), para1 = htonl (load32 (drop 12 p)), para2 = htonl (load32 (drop 16 p))\<rparr>"

definition decode :: "'m protobuf \<Rightarrow> string \<Rightarrow> buffer \<Rightarrow> BaseHead \<Rightarrow> registry \<Rightarrow>
    ('m option \<times> BaseHead \<times> buffer \<times> registry) res" where
  "decode P junk buf info reg =
     (if bsize buf < 20 then Inr (None, info, buf, reg)
      else
        (let p = bytes buf; h = read_head p; len = unat (hlength h) in
         if hlength h = 0 then Inr (None, h, consume (20 + len) buf, reg)
         else
           (let (typeName, reg') = getType (cmd h) reg in
            if \<not> known_type P typeName then Inr (None, h, buf, reg')
            else if bcap buf < bb buf + 20 + len then Inl OutOfBounds
            else case parse P typeName (take len (drop 20 p @ junk)) of
                   None \<Rightarrow> Inr (None, h, buf, reg')
                 | Some m \<Rightarrow> Inr (Some m, h, consume (20 + len) buf, reg'))))"

section \<open>Dispatch\<close>

text \<open>\<open>protocbs_\<close> maps a message type to its callback, here over a server state \<open>'s\<close>.
  \<open>handle\<close> dereferences the message pointer first.\<close>

type_synonym ('m, 's) handlers = "(string \<times> (BaseHead \<Rightarrow> 'm \<Rightarrow> 's \<Rightarrow> 's res)) list"

definition onMsg :: "string \<Rightarrow> (BaseHead \<Rightarrow> 'm \<Rightarrow> 's \<Rightarrow> 's res) \<Rightarrow> ('m, 's) handlers \<Rightarrow> ('m, 's) handlers" where
  "onMsg type cb hs = mput type cb hs"

definition handle :: "'m protobuf \<Rightarrow> ('m, 's) handlers \<Rightarrow> BaseHead \<Rightarrow> 'm option \<Rightarrow> 's \<Rightarrow> 's res" where
  "handle P hs info msg s =
     (case msg of None \<Rightarrow> Inl NullDeref
      | Some m \<Rightarrow> (case map_of hs (full_name P m) of Some cb \<Rightarrow> cb info m s | None \<Rightarrow> Inr s))"

section \<open>Behaviour\<close>

definition reg_ok :: "registry \<Rightarrow> bool" where
  "reg_ok r \<longleftrightarrow> mok (cmd2Type r) \<and> mok (type2Cmd r)"

text \<open>A type is registered when its code leads back to it.\<close>

definition registered :: "registry \<Rightarrow> string \<Rightarrow> 32 word \<Rightarrow> bool" where
  "registered r t c \<longleftrightarrow> map_of (type2Cmd r) t = Some c \<and> map_of (cmd2Type r) c = Some t"

lemma onCodec_ok: "reg_ok r \<Longrightarrow> reg_ok (onCodec c t r)"
  by (simp add: reg_ok_def onCodec_def)

lemma reg_new_ok: "reg_ok reg_new"
  by (simp add: reg_ok_def reg_new_def)

lemma registered_onCodec:
  "reg_ok r \<Longrightarrow> registered (onCodec c t r) t' c' \<longleftrightarrow>
     (t' = t \<and> c' = c) \<or> (t' \<noteq> t \<and> c' \<noteq> c \<and> registered r t' c')"
  by (auto simp: registered_def onCodec_def reg_ok_def)

lemma registered_lookup:
  "registered r t c \<Longrightarrow> getCmd t r = (c, r)" "registered r t c \<Longrightarrow> getType c r = (t, r)"
  by (auto simp: registered_def getCmd_def getType_def mindex_def)

definition ext_frame :: "32 word \<Rightarrow> 32 word \<Rightarrow> 32 word \<Rightarrow> 32 word \<Rightarrow> string \<Rightarrow> string" where
  "ext_frame c e p1 p2 body =
     rev (mem32 c) @ rev (mem32 (of_nat (length body))) @ rev (mem32 e) @ rev (mem32 p1) @ rev (mem32 p2) @ body"

lemma length_ext_frame [simp]: "length (ext_frame c e p1 p2 body) = 20 + length body"
  by (simp add: ext_frame_def)

lemma encode_msg_frame:
  assumes "buffer_ok buf" "registered reg (full_name P m) c"
  shows "\<exists>buf'. encode_msg P m e p1 p2 buf reg = Inr (buf', reg) \<and> buffer_ok buf' \<and>
           bytes buf' = bytes buf @ ext_frame c e p1 p2 (serialize P m)"
  using bq.appends_law [OF assms(1), of "[mem32 (htonl c), mem32 (htonl (of_nat (length (serialize P m)))),
      mem32 (htonl e), mem32 (htonl p1), mem32 (htonl p2), serialize P m]"] registered_lookup [OF assms(2)]
  by (auto simp: encode_msg_def ext_frame_def)

lemma encode_name_frame:
  assumes "buffer_ok buf" "registered reg name c"
  shows "\<exists>buf'. encode_name name e p1 p2 buf reg = Inr (buf', reg) \<and> buffer_ok buf' \<and>
           bytes buf' = bytes buf @ ext_frame c e p1 p2 []"
  using bq.appends_law [OF assms(1), of "[mem32 (htonl c), mem32 (htonl 0),
      mem32 (htonl e), mem32 (htonl p1), mem32 (htonl p2)]"] registered_lookup [OF assms(2)]
  by (auto simp: encode_name_def ext_frame_def)

text \<open>Encoding itself cannot fail; an unregistered type gets the code 0.\<close>

lemma encode_total:
  assumes "buffer_ok buf"
  shows "\<exists>buf'. encode_msg P m e p1 p2 buf r = Inr (buf', snd (getCmd (full_name P m) r)) \<and> buffer_ok buf' \<and>
           bytes buf' = bytes buf @ ext_frame (fst (getCmd (full_name P m) r)) e p1 p2 (serialize P m)"
    and "\<exists>buf'. encode_name t e p1 p2 buf r = Inr (buf', snd (getCmd t r)) \<and> buffer_ok buf' \<and>
           bytes buf' = bytes buf @ ext_frame (fst (getCmd t r)) e p1 p2 []"
proof -
  show "\<exists>buf'. encode_msg P m e p1 p2 buf r = Inr (buf', snd (getCmd (full_name P m) r)) \<and> buffer_ok buf' \<and>
      bytes buf' = bytes buf @ ext_frame (fst (getCmd (full_name P m) r)) e p1 p2 (serialize P m)"
    using bq.appends_law [OF assms, of "[mem32 (htonl (fst (getCmd (full_name P m) r))),
        mem32 (htonl (of_nat (length (serialize P m)))), mem32 (htonl e), mem32 (htonl p1), mem32 (htonl p2),
        serialize P m]"]
    by (auto simp: encode_msg_def ext_frame_def split: prod.splits)
  show "\<exists>buf'. encode_name t e p1 p2 buf r = Inr (buf', snd (getCmd t r)) \<and> buffer_ok buf' \<and>
      bytes buf' = bytes buf @ ext_frame (fst (getCmd t r)) e p1 p2 []"
    using bq.appends_law [OF assms, of "[mem32 (htonl (fst (getCmd t r))), mem32 (htonl 0), mem32 (htonl e),
        mem32 (htonl p1), mem32 (htonl p2)]"]
    by (auto simp: encode_name_def ext_frame_def split: prod.splits)
qed

lemma getCmd_ok: "reg_ok r \<Longrightarrow> reg_ok (snd (getCmd t r))"
  by (auto simp: reg_ok_def getCmd_def mindex_def split: option.splits)

lemma load32_take: "load32 (xs @ ys) = load32 xs" if "length xs = 4"
  using that by (simp add: load32_def)

lemma read_head_frame:
  "read_head (ext_frame c e p1 p2 body @ rest) =
     \<lparr>cmd = c, hlength = of_nat (length body), err = e, para1 = p1, para2 = p2\<rparr>"
  by (simp add: read_head_def ext_frame_def load32_take load32_rev_mem32)

lemma decode_frame:
  assumes "buffer_ok buf" "bytes buf = ext_frame c e p1 p2 (serialize P m) @ rest"
    and "registered reg (full_name P m) c" "protobuf_ok P m" "serialize P m \<noteq> []"
  shows "\<exists>buf'. decode P junk buf info reg =
           Inr (Some m, \<lparr>cmd = c, hlength = of_nat (length (serialize P m)), err = e, para1 = p1, para2 = p2\<rparr>,
                buf', reg) \<and> buffer_ok buf' \<and> bytes buf' = rest"
proof -
  let ?s = "serialize P m"
  have P: "known_type P (full_name P m)" "parse P (full_name P m) ?s = Some m" "length ?s < 2 ^ 31"
    using assms(4) by (auto simp: protobuf_ok_def)
  have u: "unat (of_nat (length ?s) :: 32 word) = length ?s"
    using P(3) by (simp add: unat_of_nat take_bit_eq_mod)
  then have nz: "(of_nat (length ?s) :: 32 word) \<noteq> 0" using assms(5) by (metis length_0_conv unat_0)
  have sz: "bsize buf = 20 + length ?s + length rest" using assms(1,2) by (simp add: bsize_bytes)
  have cap: "bb buf + 20 + length ?s \<le> bcap buf"
    using assms(1) sz by (auto simp: buffer_ok_def bsize_def split: if_splits)
  have body: "take (length ?s) (drop 20 (ext_frame c e p1 p2 ?s @ rest) @ junk) = ?s"
    by (simp add: ext_frame_def)
  have "buffer_ok (consume (20 + length ?s) buf) \<and> bytes (consume (20 + length ?s) buf) = rest"
    using consume_ok [OF assms(1), of "20 + length ?s"] assms(2) by simp
  then show ?thesis
    using sz nz u cap P registered_lookup(2) [OF assms(3)] body
    by (simp add: decode_def assms(2) read_head_frame Let_def)
qed

section \<open>Properties\<close>

text \<open>
  C10. A protobuf message encoded with its head at the end of an empty or
  non-empty output, sent, and received with anything behind it, is decoded to the same message with
  the same command, error and parameters, and exactly its frame is consumed. The protobuf library
  is assumed to parse what it serialised, and the type to be registered.
\<close>

theorem message_round_trip:
  assumes "protobuf_ok P m" "registered reg (full_name P m) c" "serialize P m \<noteq> []"
    and "buffer_ok out" "buffer_ok inp" "bytes inp = ext_frame c e p1 p2 (serialize P m) @ rest"
  shows "(\<exists>out'. encode_msg P m e p1 p2 out reg = Inr (out', reg) \<and>
           bytes out' = bytes out @ ext_frame c e p1 p2 (serialize P m)) \<and>
    (\<exists>inp' h. decode P junk inp info reg = Inr (Some m, h, inp', reg) \<and> buffer_ok inp' \<and> bytes inp' = rest \<and>
         cmd h = c \<and> err h = e \<and> para1 h = p1 \<and> para2 h = p2 \<and> unat (hlength h) = length (serialize P m))"
proof -
  have "length (serialize P m) < 2 ^ 31" using assms(1) by (simp add: protobuf_ok_def)
  then have "unat (of_nat (length (serialize P m)) :: 32 word) = length (serialize P m)"
    by (simp add: unat_of_nat take_bit_eq_mod)
  then show ?thesis
    using encode_msg_frame [OF assms(4,2), of e p1 p2] decode_frame [OF assms(5,6,2,1,3), of junk info] by auto
qed

text \<open>A protobuf library with one message type of one field, for concrete instances.\<close>

definition flag_pb :: "bool protobuf" where
  "flag_pb = \<lparr>full_name = (\<lambda>_. ''T''), serialize = (\<lambda>b. if b then ''1'' else ''0''),
     known_type = (\<lambda>t. t = ''T''), parse = (\<lambda>t s. if s = [] then None else Some (hd s = CHR ''1''))\<rparr>"

lemma flag_pb_ok: "protobuf_ok flag_pb b"
  by (simp add: protobuf_ok_def flag_pb_def)

definition full_buf :: "string \<Rightarrow> buffer" where
  "full_buf xs = \<lparr>cells = Some (map Some xs), bb = 0, be = length xs, bcap = length xs, bexp = 512\<rparr>"

lemma full_buf_ok [simp]: "buffer_ok (full_buf xs)" "bytes (full_buf xs) = xs"
  by (simp_all add: full_buf_def buffer_ok_def blk_def live_def bytes_def o_def)

theorem message_round_trip_witness:
  "(\<exists>out'. encode_msg flag_pb True 7 8 9 buf_new (onCodec 5 ''T'' reg_new) = Inr (out', onCodec 5 ''T'' reg_new) \<and>
     bytes out' = bytes buf_new @ ext_frame 5 7 8 9 (serialize flag_pb True)) \<and>
   (\<exists>inp' h. decode flag_pb [] (full_buf (ext_frame 5 7 8 9 (serialize flag_pb True) @ ''xyz'')) head_new (onCodec 5 ''T'' reg_new) =
       Inr (Some True, h, inp', onCodec 5 ''T'' reg_new) \<and> buffer_ok inp' \<and> bytes inp' = ''xyz'' \<and>
     cmd h = 5 \<and> err h = 7 \<and> para1 h = 8 \<and> para2 h = 9 \<and> unat (hlength h) = length (serialize flag_pb True))"
proof -
  have reg: "registered (onCodec 5 ''T'' reg_new) (full_name flag_pb True) 5"
    by (simp add: registered_onCodec reg_new_ok flag_pb_def)
  have ne: "serialize flag_pb True \<noteq> []" by (simp add: flag_pb_def)
  show ?thesis
    using message_round_trip [OF flag_pb_ok reg ne buf_new_ok(1) full_buf_ok(1)
      full_buf_ok(2) [of "ext_frame 5 7 8 9 (serialize flag_pb True) @ ''xyz''"]] by blast
qed

text \<open>
  C40. \<open>msgComplete\<close> and \<open>decode\<close> only wait for the 20-byte head. When
  the body has not arrived in full, the parser is given the stale bytes behind the received data;
  if it accepts them, the wrong message is delivered and more is consumed than was received, after
  which the input's \<open>size()\<close> has wrapped around and the buffer is no longer well formed.
\<close>

theorem decode_incomplete_frame:
  assumes "buffer_ok buf" "bytes buf = take 20 (ext_frame c e p1 p2 body) @ part"
    and "length part < length body" "length body < 2 ^ 31" "bb buf + 20 + length body \<le> bcap buf" "bcap buf < 2 ^ 62"
    and "map_of (cmd2Type reg) c = Some t" "known_type P t"
    and "parse P t (take (length body) (part @ junk)) = Some m"
  shows "msgComplete buf \<and> (\<exists>h buf'. decode P junk buf info reg = Inr (Some m, h, buf', reg) \<and>
           bsize buf' = 2 ^ 64 - (length body - length part) \<and> \<not> buffer_ok buf')"
proof -
  have fr: "take 20 (ext_frame c e p1 p2 body) = rev (mem32 c) @ rev (mem32 (of_nat (length body))) @
      rev (mem32 e) @ rev (mem32 p1) @ rev (mem32 p2)"
    by (simp add: ext_frame_def)
  have h: "read_head (bytes buf) =
      \<lparr>cmd = c, hlength = of_nat (length body), err = e, para1 = p1, para2 = p2\<rparr>"
    by (simp add: assms(2) fr read_head_def load32_take load32_rev_mem32)
  have u: "unat (of_nat (length body) :: 32 word) = length body"
    using assms(4) by (simp add: unat_of_nat take_bit_eq_mod)
  then have nz: "(of_nat (length body) :: 32 word) \<noteq> 0" using assms(3) by (metis not_less_zero unat_0)
  have sz: "bsize buf = 20 + length part" using assms(1,2) by (simp add: bsize_bytes)
  have d: "drop 20 (bytes buf) = part" by (simp add: assms(2) fr)
  have ok: "bb buf \<le> be buf" "be buf \<le> bcap buf" "be buf = bb buf + 20 + length part"
    using assms(1) sz by (auto simp: buffer_ok_def bsize_def)
  let ?b = "buf\<lparr>bb := bb buf + (20 + length body)\<rparr>"
  have n: "bsize ?b = 2 ^ 64 - (length body - length part)" "0 < bsize ?b"
    using assms(3,4) ok by (auto simp: bsize_def)
  have c: "consume (20 + length body) buf = ?b" using n(2) by (simp add: consume_def Let_def)
  have "\<not> buffer_ok ?b" using assms(3) ok by (simp add: buffer_ok_def)
  moreover have "decode P junk buf info reg = Inr (Some m, read_head (bytes buf), ?b, reg)"
    using assms(5,7-9) sz h u nz
    by (simp add: decode_def Let_def getType_def mindex_present d c)
  ultimately show ?thesis using n(1) sz by (auto simp: msgComplete_def)
qed

theorem decode_incomplete_frame_witness:
  "msgComplete \<lparr>cells = Some (map Some (take 20 (ext_frame 5 0 0 0 ''1'') @ ''0'')), bb = 0, be = 20, bcap = 21, bexp = 512\<rparr> \<and>
   (\<exists>h buf'. decode flag_pb ''0'' \<lparr>cells = Some (map Some (take 20 (ext_frame 5 0 0 0 ''1'') @ ''0'')),
       bb = 0, be = 20, bcap = 21, bexp = 512\<rparr> head_new (onCodec 5 ''T'' reg_new) =
       Inr (Some False, h, buf', onCodec 5 ''T'' reg_new) \<and>
     bsize buf' = 2 ^ 64 - (length ''1'' - length ([] :: string)) \<and> \<not> buffer_ok buf')"
  by (rule decode_incomplete_frame [of _ 5 0 0 0 "''1''" "[]" _ "''T''"])
     (simp_all add: buffer_ok_def blk_def live_def bytes_def flag_pb_def onCodec_def reg_new_def mput_Nil o_def)

end
