(* ===== verification/StreamBuff.thy ===== *)
theory StreamBuff
  imports Port
begin

text \<open>
  \<open>StreamBuf\<close> (\<open>src/src/utility/commutil/StreamBuff.hpp\<close>): the 10 MB block a store session
  records received packets in, each behind a 16-bit length, and its second block for the swap.
  A block is a function from offsets to bytes (\<open>None\<close> while unwritten), so that the
  definitions evaluate without building ten million cells. \<open>b_\<close> and \<open>e_\<close> are \<open>size_t\<close>,
  so \<open>cap()\<close> wraps.
\<close>

section \<open>The class\<close>

definition BUFSIZE :: nat where "BUFSIZE = 10 * 1024 * 1024"
definition LOWATER :: nat where "LOWATER = 1470"

type_synonym block = "nat \<Rightarrow> char option"

record streambuf =
  sbuf :: block      \<comment> \<open>\<open>buf_\<close>\<close>
  snext :: block     \<comment> \<open>\<open>next_\<close>\<close>
  sb :: "64 word"    \<comment> \<open>\<open>b_\<close>\<close>
  se :: "64 word"    \<comment> \<open>\<open>e_\<close>\<close>

definition sb_new :: streambuf where
  "sb_new = \<lparr>sbuf = (\<lambda>_. None), snext = (\<lambda>_. None), sb = 2, se = of_nat BUFSIZE\<rparr>"

definition cap :: "streambuf \<Rightarrow> 64 word" where
  "cap s = se s - sb s"

text \<open>A write through a pointer \<open>buf_ + off\<close>.\<close>

definition sb_write :: "int \<Rightarrow> string \<Rightarrow> block \<Rightarrow> block res" where
  "sb_write off bs blk =
     (if off < 0 \<or> int BUFSIZE < off + int (length bs) then Inl OutOfBounds
      else Inr (\<lambda>i. if nat off \<le> i \<and> i < nat off + length bs then Some (bs ! (i - nat off)) else blk i))"

text \<open>\<open>appendValue(buf_ + off, value)\<close>\<close>

definition sb_appendValue :: "int \<Rightarrow> 16 word \<Rightarrow> streambuf \<Rightarrow> streambuf res" where
  "sb_appendValue off value s = rbind (sb_write off (mem16 value) (sbuf s)) (\<lambda>b. Inr (s\<lparr>sbuf := b\<rparr>))"

definition sb_consume :: "64 word \<Rightarrow> streambuf \<Rightarrow> streambuf res" where
  "sb_consume len s =
     rbind (sb_appendValue (int (unat (sb s)) - 2) (ucast len) s) (\<lambda>s'.
     Inr (s'\<lparr>sb := sb s' + len + 2\<rparr>))"

definition isFull :: "streambuf \<Rightarrow> bool" where
  "isFull s \<longleftrightarrow> unat (cap s) < LOWATER"

definition resetBuf :: "streambuf \<Rightarrow> streambuf" where
  "resetBuf s = s\<lparr>sbuf := snext s, snext := sbuf s, sb := 0\<rparr>"

section \<open>Receiving a packet\<close>

text \<open>
  What the read callback of \<open>StoreSession::attatchToLoop\<close> does with the buffer:
  \<open>recvfrom\<close> stores at most \<open>kUdpPacketSize\<close> bytes at \<open>begin()\<close>, \<open>consume\<close> writes
  the length in front and advances, a full block is swapped.
\<close>

definition kUdpPacketSize :: nat where "kUdpPacketSize = 4096"

definition recv_packet :: "string \<Rightarrow> streambuf \<Rightarrow> streambuf res" where
  "recv_packet pkt s =
     (let d = take kUdpPacketSize pkt in
      rbind (sb_write (int (unat (sb s))) d (sbuf s)) (\<lambda>b.
      rbind (sb_consume (of_nat (length d)) (s\<lparr>sbuf := b\<rparr>)) (\<lambda>s'.
      Inr (if isFull s' then resetBuf s' else s'))))"

fun recv_packets :: "string list \<Rightarrow> streambuf \<Rightarrow> streambuf res" where
  "recv_packets [] s = Inr s"
| "recv_packets (p # ps) s = rbind (recv_packet p s) (recv_packets ps)"

section \<open>The record format\<close>

definition sb_record :: "string \<Rightarrow> string" where
  "sb_record p = mem16 (of_nat (length p)) @ p"

definition records :: "string list \<Rightarrow> string" where
  "records ps = concat (map sb_record ps)"

text \<open>The first \<open>n\<close> bytes of a block, and a reader of the format.\<close>

definition prefix_bytes :: "block \<Rightarrow> nat \<Rightarrow> string" where
  "prefix_bytes blk n = map (\<lambda>i. the (blk i)) [0..<n]"

fun read_records :: "string \<Rightarrow> string list" where
  "read_records (a # b # rest) =
     (let n = loadbytes [a, b] in take n rest # read_records (drop n rest))"
| "read_records _ = []"

definition holds :: "string list \<Rightarrow> streambuf \<Rightarrow> bool" where
  "holds ps s \<longleftrightarrow> se s = of_nat BUFSIZE \<and> unat (sb s) = length (records ps) + 2 \<and>
     length (records ps) + 2 + LOWATER \<le> BUFSIZE \<and>
     (\<forall>i < length (records ps). sbuf s i = Some (records ps ! i))"

lemma length_record [simp]: "length (sb_record p) = length p + 2"
  by (simp add: sb_record_def)

lemma records_snoc: "records (ps @ [p]) = records ps @ sb_record p"
  by (simp add: records_def)

lemma length_records_snoc: "length (records (ps @ [p])) = length (records ps) + length p + 2"
  by (simp add: records_snoc)

lemma holds_new: "holds [] sb_new"
  by (simp add: holds_def sb_new_def records_def BUFSIZE_def LOWATER_def)

lemma loadbytes_mem16: "n < 65536 \<Longrightarrow> loadbytes (mem16 (of_nat n)) = n"
  by (simp add: mem16_def unat_of_nat take_bit_eq_mod)

lemma read_records_Cons:
  assumes "length p < 65536"
  shows "read_records (sb_record p @ rest) = p # read_records rest"
proof -
  obtain a b where ab: "mem16 (of_nat (length p)) = [a, b]" using length2E length_mem(1) by blast
  then have "loadbytes [a, b] = length p" using loadbytes_mem16 [OF assms] by simp
  then show ?thesis by (simp add: sb_record_def ab)
qed

text \<open>Packets come back unchanged from what was recorded.\<close>

lemma read_records_records: "\<forall>p \<in> set ps. length p < 65536 \<Longrightarrow> read_records (records ps) = ps"
  by (induction ps) (auto simp: records_def read_records_Cons)

lemma holds_read:
  assumes "holds ps s" "\<forall>p \<in> set ps. length p < 65536"
  shows "read_records (prefix_bytes (sbuf s) (unat (sb s) - 2)) = ps"
proof -
  have "prefix_bytes (sbuf s) (length (records ps)) = records ps"
    using assms(1) by (intro nth_equalityI) (auto simp: prefix_bytes_def holds_def)
  then show ?thesis using assms read_records_records by (simp add: holds_def)
qed


section \<open>What a received packet does\<close>

definition stored :: "string list \<Rightarrow> streambuf \<Rightarrow> streambuf \<Rightarrow> bool" where
  "stored ps s t \<longleftrightarrow> se t = se s \<and> snext t = snext s \<and> sb t = of_nat (length (records ps) + 2) \<and>
     (\<forall>i < length (records ps). sbuf t i = Some (records ps ! i))"

lemma sb_word: "n \<le> BUFSIZE + 2 \<Longrightarrow> unat (of_nat n :: 64 word) = n"
  by (simp add: unat_of_nat take_bit_eq_mod BUFSIZE_def)

text \<open>In bounds, the packet is appended to the records; the swap decision follows.\<close>

lemma recv_packet_stored:
  assumes "holds ps s" "length p \<le> kUdpPacketSize" "unat (sb s) + length p \<le> BUFSIZE"
  shows "\<exists>t. stored (ps @ [p]) s t \<and> recv_packet p s = Inr (if isFull t then resetBuf t else t)"
proof -
  let ?n = "length (records ps)" and ?l = "length p"
  have h: "unat (sb s) = ?n + 2" "\<forall>i < ?n. sbuf s i = Some (records ps ! i)"
    using assms(1) by (auto simp: holds_def)
  have d: "take kUdpPacketSize p = p" using assms(2) by simp
  define b1 where "b1 = (\<lambda>i. if ?n + 2 \<le> i \<and> i < ?n + 2 + ?l then Some (p ! (i - (?n + 2))) else sbuf s i)"
  have w1: "sb_write (int (unat (sb s))) p (sbuf s) = Inr b1"
    using assms(3) h(1) by (auto simp: sb_write_def b1_def nat_add_distrib)
  define m where "m = mem16 (ucast (of_nat ?l :: 64 word))"
  have lm: "length m = 2" by (simp add: m_def)
  define b2 where "b2 = (\<lambda>i. if ?n \<le> i \<and> i < ?n + 2 then Some (m ! (i - ?n)) else b1 i)"
  have w2: "sb_write (int (unat (sb s)) - 2) m b1 = Inr b2"
    using assms(3) h(1) lm by (auto simp: sb_write_def b2_def)
  have "?l < 2 ^ 64" using assms(2) by (simp add: kUdpPacketSize_def)
  then have "(ucast (of_nat ?l :: 64 word) :: 16 word) = of_nat ?l"
    by (simp add: unsigned_of_nat take_bit_eq_mod)
  then have r: "records (ps @ [p]) = records ps @ m @ p" by (simp add: records_snoc sb_record_def m_def)
  let ?t = "s\<lparr>sbuf := b2, sb := of_nat (?n + ?l + 4)\<rparr>"
  have sbs: "sb s = of_nat (?n + 2)" using h(1) by (metis of_nat_unat ucast_id)
  have c: "sb_consume (of_nat ?l) (s\<lparr>sbuf := b1\<rparr>) = Inr ?t"
    using w2 by (simp add: sb_consume_def sb_appendValue_def m_def sbs algebra_simps)
  have "recv_packet p s = Inr (if isFull ?t then resetBuf ?t else ?t)"
    by (simp only: recv_packet_def Let_def d w1 c rbind.simps)
  moreover have "b2 i = Some (records (ps @ [p]) ! i)" if "i < length (records (ps @ [p]))" for i
    using that h(2) lm by (auto simp: r b2_def b1_def nth_append)
  then have "stored (ps @ [p]) s ?t" by (simp add: stored_def length_records_snoc algebra_simps)
  ultimately show ?thesis by blast
qed

lemma stored_full:
  assumes "stored ps s t" "se s = of_nat BUFSIZE" "length (records ps) + 2 \<le> BUFSIZE"
  shows "isFull t \<longleftrightarrow> BUFSIZE < length (records ps) + 2 + LOWATER"
proof -
  let ?n = "length (records ps) + 2"
  have "cap t = of_nat (BUFSIZE - ?n)" using assms by (simp add: cap_def stored_def of_nat_diff)
  then have "unat (cap t) = BUFSIZE - ?n" using sb_word [of "BUFSIZE - ?n"] assms by simp
  then show ?thesis using assms(3) by (auto simp: isFull_def)
qed

lemma stored_holds:
  assumes "stored ps s t" "se s = of_nat BUFSIZE" "length (records ps) + 2 + LOWATER \<le> BUFSIZE"
  shows "holds ps t"
  using assms sb_word [of "length (records ps) + 2"] by (simp add: stored_def holds_def)

text \<open>Packets of at most \<open>LOWATER - 2\<close> bytes are recorded in bounds for as long as the block
  does not fill up.\<close>

lemma recv_packets_holds:
  "holds ps s \<Longrightarrow> \<forall>p \<in> set qs. length p \<le> LOWATER - 2 \<Longrightarrow>
   length (records (ps @ qs)) + 2 + LOWATER \<le> BUFSIZE \<Longrightarrow>
   \<exists>t. recv_packets qs s = Inr t \<and> holds (ps @ qs) t"
proof (induction qs arbitrary: ps s)
  case Nil
  then show ?case by simp
next
  case (Cons q qs)
  have len: "length (records (ps @ [q])) + 2 + LOWATER \<le> BUFSIZE"
    using Cons.prems(3) by (simp add: records_def)
  have "unat (sb s) + length q \<le> BUFSIZE" "length q \<le> kUdpPacketSize"
    using Cons.prems(1,2) len by (auto simp: holds_def LOWATER_def kUdpPacketSize_def)
  from recv_packet_stored [OF Cons.prems(1) this(2,1)] obtain t where
    t: "stored (ps @ [q]) s t" "recv_packet q s = Inr (if isFull t then resetBuf t else t)" by blast
  have se: "se s = of_nat BUFSIZE" using Cons.prems(1) by (simp add: holds_def)
  have "recv_packet q s = Inr t" using t stored_full [OF t(1) se] len by simp
  moreover have "holds (ps @ [q]) t" by (rule stored_holds [OF t(1) se len])
  ultimately show ?case using Cons.IH [of "ps @ [q]" t] Cons.prems by simp
qed

text \<open>The packet that fills the block swaps the blocks: the records are then in \<open>next_\<close>.\<close>

lemma recv_packet_swaps:
  assumes "holds ps s" "length p \<le> LOWATER - 2" "BUFSIZE < length (records (ps @ [p])) + 2 + LOWATER"
  shows "\<exists>t. recv_packet p s = Inr t \<and> sb t = 0 \<and> sbuf t = snext s \<and>
           (\<forall>i < length (records (ps @ [p])). snext t i = Some (records (ps @ [p]) ! i))"
proof -
  have h: "unat (sb s) = length (records ps) + 2" "length (records ps) + 2 + LOWATER \<le> BUFSIZE"
      "se s = of_nat BUFSIZE"
    using assms(1) by (auto simp: holds_def)
  have "unat (sb s) + length p \<le> BUFSIZE" "length p \<le> kUdpPacketSize"
    using assms(2) h by (auto simp: LOWATER_def kUdpPacketSize_def)
  from recv_packet_stored [OF assms(1) this(2,1)] obtain t where
    t: "stored (ps @ [p]) s t" "recv_packet p s = Inr (if isFull t then resetBuf t else t)" by blast
  have "length (records (ps @ [p])) + 2 \<le> BUFSIZE"
    using h(2) assms(2) by (simp add: length_records_snoc LOWATER_def)
  then have "isFull t" using stored_full [OF t(1) h(3)] assms(3) by simp
  then show ?thesis using t by (simp add: resetBuf_def stored_def)
qed

text \<open>After a swap \<open>b_\<close> is 0, not 2: the length of the next packet goes in front of the block.\<close>

lemma recv_packet_after_swap: "sb s = 0 \<Longrightarrow> recv_packet p s = Inl OutOfBounds"
  by (simp add: recv_packet_def Let_def sb_write_def sb_consume_def sb_appendValue_def
      kUdpPacketSize_def BUFSIZE_def)

text \<open>A packet of one byte more than \<open>LOWATER - 2\<close> can push \<open>b_\<close> past the end: \<open>cap()\<close>
  wraps, the block does not count as full, and the next packet is written behind it.\<close>

lemma recv_packet_overrun:
  assumes "holds ps s" "length p \<le> kUdpPacketSize" "unat (sb s) + length p \<le> BUFSIZE"
    and "BUFSIZE < length (records (ps @ [p])) + 2"
  shows "\<exists>t. recv_packet p s = Inr t \<and> \<not> isFull t \<and> BUFSIZE < unat (sb t)"
proof -
  obtain t where
    t: "stored (ps @ [p]) s t" "recv_packet p s = Inr (if isFull t then resetBuf t else t)"
    using recv_packet_stored [OF assms(1-3)] by blast
  let ?n = "length (records (ps @ [p])) + 2"
  have h: "unat (sb s) = length (records ps) + 2" "se s = of_nat BUFSIZE"
    using assms(1) by (auto simp: holds_def)
  have n: "?n \<le> BUFSIZE + 2" using assms(3) h(1) by (simp add: length_records_snoc)
  have u: "unat (sb t) = ?n" using t(1) sb_word [OF n] by (simp add: stored_def)
  have "cap t = of_nat BUFSIZE - of_nat ?n" using t(1) h(2) by (simp add: cap_def stored_def)
  also have "\<dots> = - of_nat (?n - BUFSIZE)"
    using assms(4) by (simp add: of_nat_diff)
  finally have c: "cap t = - of_nat (?n - BUFSIZE)" .
  have "?n - BUFSIZE = 1 \<or> ?n - BUFSIZE = 2" using assms(4) n by linarith
  then have "cap t = - 1 \<or> cap t = - 2" unfolding c by (elim disjE) (simp_all only: of_nat_1 of_nat_numeral, simp_all)
  then have "\<not> isFull t" by (auto simp: isFull_def LOWATER_def unsigned_minus_1_eq_mask mask_eq_exp_minus_1)
  then show ?thesis using t(2) u assms(4) by auto
qed

lemma recv_packet_past_end:
  assumes "BUFSIZE < unat (sb s)"
  shows "recv_packet p s = Inl OutOfBounds"
proof -
  have "int BUFSIZE < int (unat (sb s)) + n" if "0 \<le> n" for n using assms that by linarith
  then show ?thesis by (simp only: recv_packet_def Let_def sb_write_def) simp
qed

section \<open>Properties\<close>

text \<open>
  C32. What a session records can be read back: packets of at most 1468 bytes that
  fit the block are written in bounds, and reading the block as 16-bit lengths followed by that many
  bytes yields exactly the packets, in order.
\<close>

theorem packets_recovered:
  assumes "\<forall>p \<in> set ps. length p \<le> LOWATER - 2" "length (records ps) + 2 + LOWATER \<le> BUFSIZE"
  shows "\<exists>s. recv_packets ps sb_new = Inr s \<and>
           read_records (prefix_bytes (sbuf s) (unat (sb s) - 2)) = ps"
proof -
  obtain s where "recv_packets ps sb_new = Inr s" "holds ps s"
    using recv_packets_holds [OF holds_new assms(1)] assms(2) by auto
  moreover have "\<forall>p \<in> set ps. length p < 65536" using assms(1) by (auto simp: LOWATER_def)
  ultimately show ?thesis using holds_read by blast
qed

theorem packets_recovered_witness:
  "\<exists>s. recv_packets [''abc'', '''', ''d''] sb_new = Inr s \<and>
     read_records (prefix_bytes (sbuf s) (unat (sb s) - 2)) = [''abc'', '''', ''d'']"
  by (rule packets_recovered) (simp_all add: LOWATER_def BUFSIZE_def records_def)

text \<open>
  \<open>resetBuf\<close> sets \<open>b_\<close> to 0 while the constructor starts at 2: the
  packet that fills the block swaps the blocks with all records intact in \<open>next_\<close>, and the next
  packet, whatever its size, has its length written two bytes in front of the block.
\<close>

theorem first_packet_after_swap:
  assumes "holds ps s" "length p \<le> LOWATER - 2" "BUFSIZE < length (records (ps @ [p])) + 2 + LOWATER"
    and "\<forall>p \<in> set (ps @ [p]). length p < 65536"
  shows "\<exists>t. recv_packet p s = Inr t \<and>
           read_records (prefix_bytes (snext t) (length (records (ps @ [p])))) = ps @ [p] \<and>
           recv_packets [q] t = Inl OutOfBounds"
proof -
  obtain t where t: "recv_packet p s = Inr t" "sb t = 0"
      "\<forall>i < length (records (ps @ [p])). snext t i = Some (records (ps @ [p]) ! i)"
    using recv_packet_swaps [OF assms(1-3)] by blast
  have "prefix_bytes (snext t) (length (records (ps @ [p]))) = records (ps @ [p])"
    using t(3) by (intro nth_equalityI) (auto simp: prefix_bytes_def)
  then show ?thesis using t recv_packet_after_swap [OF t(2)] read_records_records [OF assms(4)] by auto
qed

text \<open>A block filled up to \<open>LOWATER\<close> bytes, for concrete instances: empty packets only.\<close>

definition nearly_full :: "string list" where
  "nearly_full = replicate 5242144 []"

lemma records_nearly_full: "length (records nearly_full) = BUFSIZE - LOWATER - 2"
proof -
  have "length (records (replicate n [])) = 2 * n" for n
    by (induction n) (auto simp: records_def)
  then show ?thesis by (simp add: nearly_full_def BUFSIZE_def LOWATER_def)
qed

definition full_streambuf :: streambuf where
  "full_streambuf = sb_new\<lparr>sbuf := (\<lambda>i. Some (records nearly_full ! i)), sb := of_nat (BUFSIZE - LOWATER)\<rparr>"

lemma holds_full: "holds nearly_full full_streambuf"
proof -
  have "unat (of_nat (BUFSIZE - LOWATER) :: 64 word) = BUFSIZE - LOWATER" by (rule sb_word) simp
  then show ?thesis
    using records_nearly_full by (auto simp: holds_def full_streambuf_def sb_new_def BUFSIZE_def LOWATER_def)
qed

theorem first_packet_after_swap_witness:
  "\<exists>t. recv_packet ''x'' full_streambuf = Inr t \<and>
     read_records (prefix_bytes (snext t) (length (records (nearly_full @ [''x''])))) = nearly_full @ [''x''] \<and>
     recv_packets [''y''] t = Inl OutOfBounds"
  by (rule first_packet_after_swap [OF holds_full])
     (auto simp: LOWATER_def BUFSIZE_def length_records_snoc records_nearly_full nearly_full_def [THEN arg_cong [of _ _ set]])

text \<open>
  Larger packets, which \<open>kUdpPacketSize\<close> allows, overrun the block: a
  packet that leaves fewer than two bytes pushes \<open>b_\<close> past the end, the wrapped \<open>cap()\<close> makes
  \<open>isFull\<close> false, the blocks are not swapped, and the next packet is written outside.
\<close>

theorem packet_overruns_block:
  assumes "holds ps s" "length p \<le> kUdpPacketSize" "unat (sb s) + length p \<le> BUFSIZE"
    and "BUFSIZE < unat (sb s) + length p + 2"
  shows "\<exists>t. recv_packet p s = Inr t \<and> \<not> isFull t \<and> recv_packet q t = Inl OutOfBounds"
proof -
  have "BUFSIZE < length (records (ps @ [p])) + 2"
    using assms(1,4) by (simp add: holds_def length_records_snoc)
  from recv_packet_overrun [OF assms(1-3) this] show ?thesis using recv_packet_past_end by blast
qed

theorem packet_overruns_block_witness:
  "\<exists>t. recv_packet (replicate 1469 CHR ''x'') full_streambuf = Inr t \<and> \<not> isFull t \<and>
     recv_packet ''y'' t = Inl OutOfBounds"
proof (rule packet_overruns_block [OF holds_full])
  have u: "unat (sb full_streambuf) = BUFSIZE - LOWATER"
    unfolding full_streambuf_def using sb_word [of "BUFSIZE - LOWATER"] by simp
  show "length (replicate 1469 CHR ''x'') \<le> kUdpPacketSize" by (simp add: kUdpPacketSize_def)
  show "unat (sb full_streambuf) + length (replicate 1469 CHR ''x'') \<le> BUFSIZE"
    "BUFSIZE < unat (sb full_streambuf) + length (replicate 1469 CHR ''x'') + 2"
    by (simp_all add: u BUFSIZE_def LOWATER_def)
qed

end
