(* ===== verification/Tasks.thy ===== *)
theory Tasks
  imports LN_Prelude
begin

text \<open>
  Task queues: \<open>SafeQueue\<close> and \<open>ThreadPool\<close> (\<open>threads.h\<close>, \<open>threads.cc\<close>) and the queue an
  event loop drains on wake-up (\<open>EventsImp::safeCall\<close> and the wake-up channel of
  \<open>event_base.cc\<close>). Every queue operation runs under the queue's mutex, so it is one atomic
  step; a thread blocked in \<open>wait_ready\<close> holds no lock and is a state of its own.
\<close>

section \<open>\<open>SafeQueue\<close>\<close>

record 't safequeue =
  items :: "'t list"
  capacity :: nat     \<comment> \<open>0: unbounded\<close>
  sq_exited :: bool   \<comment> \<open>\<open>exit_\<close>\<close>

definition sq_new :: "nat \<Rightarrow> 't safequeue" where
  "sq_new cap = \<lparr>items = [], capacity = cap, sq_exited = False\<rparr>"

definition sq_size :: "'t safequeue \<Rightarrow> nat" where
  "sq_size q = length (items q)"

definition sq_exit :: "'t safequeue \<Rightarrow> 't safequeue" where
  "sq_exit q = q\<lparr>sq_exited := True\<rparr>"

definition sq_push :: "'t \<Rightarrow> 't safequeue \<Rightarrow> bool \<times> 't safequeue" where
  "sq_push v q =
     (if sq_exited q \<or> (capacity q \<noteq> 0 \<and> capacity q \<le> length (items q)) then (False, q)
      else (True, q\<lparr>items := items q @ [v]\<rparr>))"

definition wait_infinite :: int where "wait_infinite = 2 ^ 31 - 1"

text \<open>When \<open>wait_ready\<close> returns: at once, on exit, on an item, or when a finite wait has timed out.\<close>

definition wait_ready :: "int \<Rightarrow> bool \<Rightarrow> 't safequeue \<Rightarrow> bool" where
  "wait_ready waitMs timedout q \<longleftrightarrow>
     sq_exited q \<or> items q \<noteq> [] \<or> (waitMs \<noteq> wait_infinite \<and> (waitMs \<le> 0 \<or> timedout))"

text \<open>The rest of both \<open>pop_wait\<close> overloads, after \<open>wait_ready\<close>.\<close>

definition sq_pop :: "'t safequeue \<Rightarrow> 't option \<times> 't safequeue" where
  "sq_pop q = (case items q of [] \<Rightarrow> (None, q) | v # vs \<Rightarrow> (Some v, q\<lparr>items := vs\<rparr>))"

section \<open>The contract of a task queue\<close>

text \<open>A queue that accepts tasks returns them once each, in the order they were posted.\<close>

locale task_queue =
  fixes open_q :: "'q \<Rightarrow> bool"
    and elems :: "'q \<Rightarrow> 't list"
    and post :: "'t \<Rightarrow> 'q \<Rightarrow> bool \<times> 'q"
    and take_next :: "'q \<Rightarrow> 't option \<times> 'q"
  assumes post_open: "open_q q \<Longrightarrow> \<exists>q'. post t q = (True, q') \<and> open_q q' \<and> elems q' = elems q @ [t]"
    and take_empty: "elems q = [] \<Longrightarrow> take_next q = (None, q)"
    and take_first: "elems q = t # ts \<Longrightarrow> \<exists>q'. take_next q = (Some t, q') \<and> elems q' = ts \<and> (open_q q \<longrightarrow> open_q q')"
begin

lemma post_all:
  "open_q q \<Longrightarrow> open_q (fold (\<lambda>t q. snd (post t q)) ts q) \<and>
     elems (fold (\<lambda>t q. snd (post t q)) ts q) = elems q @ ts"
proof (induction ts arbitrary: q)
  case Nil
  then show ?case by simp
next
  case (Cons t ts)
  then obtain q' where "post t q = (True, q')" "open_q q'" "elems q' = elems q @ [t]"
    using post_open by blast
  then show ?case using Cons.IH [of q'] by simp
qed

end

lemma sq_push_open: "\<not> sq_exited q \<Longrightarrow> capacity q = 0 \<Longrightarrow> sq_push t q = (True, q\<lparr>items := items q @ [t]\<rparr>)"
  by (simp add: sq_push_def)

definition sq_open :: "'t safequeue \<Rightarrow> bool" where
  "sq_open q \<longleftrightarrow> \<not> sq_exited q \<and> capacity q = 0"

interpretation sq: task_queue sq_open items sq_push sq_pop
  by unfold_locales (auto simp: sq_open_def sq_push_def sq_pop_def)

section \<open>The thread pool\<close>

text \<open>A worker is at the head of its loop, inside \<open>pop_wait\<close>, or has left. The two logs are the
  accepted and the started tasks, in order.\<close>

datatype worker = AtHead | InWait | Stopped

record 't pool =
  ptasks :: "'t safequeue"
  workers :: "worker list"
  accepted :: "'t list"
  started :: "'t list"

definition pool_new :: "nat \<Rightarrow> nat \<Rightarrow> 't pool" where
  "pool_new threads cap =
     \<lparr>ptasks = sq_new cap, workers = replicate threads AtHead, accepted = [], started = []\<rparr>"

definition addTask :: "'t \<Rightarrow> 't pool \<Rightarrow> bool \<times> 't pool" where
  "addTask t p =
     (let (ok, q) = sq_push t (ptasks p) in
      (ok, p\<lparr>ptasks := q, accepted := (if ok then accepted p @ [t] else accepted p)\<rparr>))"

definition pool_exit :: "'t pool \<Rightarrow> 't pool" where
  "pool_exit p = p\<lparr>ptasks := sq_exit (ptasks p)\<rparr>"

text \<open>\<open>while (!tasks_.exited())\<close>, and the return from \<open>pop_wait\<close> with the task it got.\<close>

definition worker_head :: "nat \<Rightarrow> 't pool \<Rightarrow> 't pool" where
  "worker_head i p = p\<lparr>workers := (workers p)[i := (if sq_exited (ptasks p) then Stopped else InWait)]\<rparr>"

definition worker_pop :: "nat \<Rightarrow> 't pool \<Rightarrow> 't pool" where
  "worker_pop i p =
     (let (t, q) = sq_pop (ptasks p) in
      p\<lparr>ptasks := q, workers := (workers p)[i := AtHead],
        started := (case t of Some t \<Rightarrow> started p @ [t] | None \<Rightarrow> started p)\<rparr>)"

inductive pool_step :: "'t pool \<Rightarrow> 't pool \<Rightarrow> bool" where
  Add: "pool_step p (snd (addTask t p))"
| Exit: "pool_step p (pool_exit p)"
| Head: "i < length (workers p) \<Longrightarrow> workers p ! i = AtHead \<Longrightarrow> pool_step p (worker_head i p)"
| Pop: "i < length (workers p) \<Longrightarrow> workers p ! i = InWait \<Longrightarrow> wait_ready wait_infinite timedout (ptasks p) \<Longrightarrow>
    pool_step p (worker_pop i p)"

inductive pool_reach :: "nat \<Rightarrow> nat \<Rightarrow> 't pool \<Rightarrow> bool" for threads cap where
  init: "pool_reach threads cap (pool_new threads cap)"
| step: "pool_reach threads cap p \<Longrightarrow> pool_step p p' \<Longrightarrow> pool_reach threads cap p'"

inductive_cases pool_stepE: "pool_step p p'"

definition pool_inv :: "nat \<Rightarrow> nat \<Rightarrow> 't pool \<Rightarrow> bool" where
  "pool_inv threads cap p \<longleftrightarrow> accepted p = started p @ items (ptasks p) \<and>
     capacity (ptasks p) = cap \<and> (cap \<noteq> 0 \<longrightarrow> length (items (ptasks p)) \<le> cap) \<and>
     length (workers p) = threads"

lemma pool_step_inv: "pool_step p p' \<Longrightarrow> pool_inv n cap p \<Longrightarrow> pool_inv n cap p'"
  by (elim pool_stepE)
     (auto simp: pool_inv_def addTask_def sq_push_def pool_exit_def sq_exit_def worker_head_def
       worker_pop_def sq_pop_def Let_def split: list.splits)

lemma pool_reach_inv: "pool_reach n cap p \<Longrightarrow> pool_inv n cap p"
proof (induction rule: pool_reach.induct)
  case init
  then show ?case by (simp add: pool_inv_def pool_new_def sq_new_def)
next
  case (step p p')
  then show ?case using pool_step_inv by blast
qed

section \<open>The wake-up channel of an event loop\<close>

text \<open>
  \<open>safeCall\<close> posts a task (and ignores a refusal); the read callback of the wake-up pipe runs
  tasks until the queue is empty. A task runs on the loop's state and may post further tasks; it may
  fail with undefined behaviour. Nothing bounds the loop, so not returning is \<open>None\<close>.
\<close>

definition safeCall :: "'t \<Rightarrow> 't safequeue \<Rightarrow> 't safequeue" where
  "safeCall t q = snd (sq_push t q)"

partial_function (option) drain ::
  "('t \<Rightarrow> 's \<Rightarrow> ('s \<times> 't list) res) \<Rightarrow> 't safequeue \<Rightarrow> 's \<Rightarrow> ('t safequeue \<times> 's) res option" where
  "drain run q s =
     (case sq_pop q of
        (None, q') \<Rightarrow> Some (Inr (q', s))
      | (Some t, q') \<Rightarrow>
          (case run t s of
             Inl e \<Rightarrow> Some (Inl e)
           | Inr (s', posted) \<Rightarrow> drain run (fold safeCall posted q') s'))"

fun run_list :: "('t \<Rightarrow> 's \<Rightarrow> 's res) \<Rightarrow> 't list \<Rightarrow> 's \<Rightarrow> 's res" where
  "run_list f [] s = Inr s"
| "run_list f (t # ts) s = rbind (f t s) (run_list f ts)"

text \<open>Tasks that post nothing: the drain returns, having run them all in the order of posting.\<close>

lemma drain_run_list:
  "drain (\<lambda>t s. rbind (f t s) (\<lambda>s'. Inr (s', []))) q s =
     Some (rbind (run_list f (items q) s) (\<lambda>s'. Inr (q\<lparr>items := []\<rparr>, s')))"
proof (induction "items q" arbitrary: q s)
  case Nil
  then have "items q = []" "q\<lparr>items := []\<rparr> = q" by (cases q; simp)+
  then show ?case by (simp add: drain.simps [of _ q] sq_pop_def)
next
  case (Cons t ts)
  show ?case
  proof (cases "f t s")
    case (Inl e)
    then show ?thesis using Cons.hyps(2) [symmetric] by (simp add: drain.simps [of _ q] sq_pop_def)
  next
    case (Inr s')
    then show ?thesis using Cons.hyps(2) [symmetric] Cons.hyps(1) [of "q\<lparr>items := ts\<rparr>" s']
      by (simp add: drain.simps [of _ q] sq_pop_def)
  qed
qed

lemma safeCall_order:
  assumes "sq_open q"
  shows "items (fold safeCall ts q) = items q @ ts"
  using sq.post_all [OF assms, of ts] unfolding safeCall_def [abs_def] by blast

section \<open>Properties\<close>

text \<open>
  C31. The thread pool, for any number of workers and any interleaving of
  \<open>addTask\<close>, \<open>exit\<close> and the workers: each accepted task is started at most once, in the order of
  acceptance, the tasks not yet started are exactly those in the queue, and a bounded queue never
  exceeds its capacity.
\<close>

theorem pool_runs_in_order:
  assumes "pool_reach threads cap p"
  shows "accepted p = started p @ items (ptasks p) \<and> (cap = 0 \<or> length (items (ptasks p)) \<le> cap)"
  using pool_reach_inv [OF assms] by (auto simp: pool_inv_def)

lemma pool_example_reach: "pool_reach 1 0 (snd (addTask CHR ''x'' (pool_new 1 0)))"
  by (intro pool_reach.step [OF pool_reach.init] pool_step.Add)

theorem pool_runs_in_order_witness:
  "accepted (snd (addTask CHR ''x'' (pool_new 1 0))) =
     started (snd (addTask CHR ''x'' (pool_new 1 0))) @ items (ptasks (snd (addTask CHR ''x'' (pool_new 1 0)))) \<and>
   ((0::nat) = 0 \<or> length (items (ptasks (snd (addTask CHR ''x'' (pool_new 1 0))))) \<le> 0)"
  by (rule pool_runs_in_order [OF pool_example_reach])

text \<open>
  Tasks posted to an event loop run on it in the order of posting: with
  an unbounded queue, a wake-up after any posts runs every task once, stops at the first that fails,
  and otherwise returns with the queue empty, whatever the tasks do as long as they post nothing.
\<close>

theorem safeCall_runs_in_order:
  assumes "sq_open q" "items q = []"
  shows "drain (\<lambda>t s. rbind (f t s) (\<lambda>s'. Inr (s', []))) (fold safeCall ts q) s =
     Some (rbind (run_list f ts s) (\<lambda>s'. Inr ((fold safeCall ts q)\<lparr>items := []\<rparr>, s')))"
  by (simp add: drain_run_list safeCall_order [OF assms(1)] assms(2))

theorem safeCall_runs_in_order_witness:
  "drain (\<lambda>t s. rbind (if t = 0 then Inl Fatal else Inr (s @ [t])) (\<lambda>s'. Inr (s', [])))
       (fold safeCall [2, 1::nat] (sq_new 0)) [] =
     Some (rbind (run_list (\<lambda>t s. if t = 0 then Inl Fatal else Inr (s @ [t])) [2, 1] [])
       (\<lambda>s'. Inr ((fold safeCall [2, 1] (sq_new 0))\<lparr>items := []\<rparr>, s')))"
  by (rule safeCall_runs_in_order) (simp_all add: sq_open_def sq_new_def)

section \<open>Joining the pool\<close>

text \<open>\<open>join\<close> returns when every worker has left. The destructor asserts that \<open>exit\<close> was called and reports the tasks left over.\<close>

definition pool_joined :: "'t pool \<Rightarrow> bool" where
  "pool_joined p \<longleftrightarrow> list_all (\<lambda>w. w = Stopped) (workers p)"

definition pool_destroy :: "'t pool \<Rightarrow> nat res" where
  "pool_destroy p = (if \<not> sq_exited (ptasks p) then Inl Fatal else Inr (sq_size (ptasks p)))"

text \<open>The steps of the workers alone.\<close>

inductive worker_step :: "'t pool \<Rightarrow> 't pool \<Rightarrow> bool" where
  WHead: "i < length (workers p) \<Longrightarrow> workers p ! i = AtHead \<Longrightarrow> worker_step p (worker_head i p)"
| WPop: "i < length (workers p) \<Longrightarrow> workers p ! i = InWait \<Longrightarrow> wait_ready wait_infinite timedout (ptasks p) \<Longrightarrow>
    worker_step p (worker_pop i p)"

definition worker_left :: "worker \<Rightarrow> nat" where
  "worker_left w = (case w of InWait \<Rightarrow> 2 | AtHead \<Rightarrow> 1 | Stopped \<Rightarrow> 0)"

lemma sum_worker_update:
  "i < length ws \<Longrightarrow> worker_left w < worker_left (ws ! i) \<Longrightarrow> sum_list (map worker_left (ws[i := w])) < sum_list (map worker_left ws)"
  using member_le_sum_list [of "worker_left (ws ! i)" "map worker_left ws"] by (simp add: map_update sum_list_update)

lemma worker_step_left:
  assumes "worker_step p p'" "sq_exited (ptasks p)"
  shows "sq_exited (ptasks p') \<and> sum_list (map worker_left (workers p')) < sum_list (map worker_left (workers p))"
  using assms(1)
proof cases
  case (WHead i)
  then show ?thesis using assms(2) sum_worker_update [of i "workers p" Stopped] by (simp add: worker_head_def worker_left_def)
next
  case (WPop i)
  then show ?thesis using assms(2) sum_worker_update [of i "workers p" AtHead]
    by (auto simp: worker_pop_def worker_left_def sq_pop_def split: list.splits)
qed

lemma worker_run_left:
  "(worker_step ^^ k) p p' \<Longrightarrow> sq_exited (ptasks p) \<Longrightarrow>
   sq_exited (ptasks p') \<and> k + sum_list (map worker_left (workers p')) \<le> sum_list (map worker_left (workers p))"
proof (induction k arbitrary: p')
  case (Suc k)
  then obtain q where q: "(worker_step ^^ k) p q" "worker_step q p'" by auto
  then show ?case using Suc.IH [OF q(1) Suc.prems(2)] worker_step_left [OF q(2)] by auto
qed simp

text \<open>
  After \<open>exit\<close> the workers leave by themselves: they take at most two steps each, and when none can take
  another, \<open>join\<close> returns. A worker may start one more task on the way; what is left in the queue is not run.
\<close>

theorem pool_join_returns:
  assumes "sq_exited (ptasks p)" "(worker_step ^^ k) p p'"
  shows "k \<le> 2 * length (workers p) \<and> ((\<forall>q. \<not> worker_step p' q) \<longrightarrow> pool_joined p' \<and> pool_destroy p' = Inr (length (items (ptasks p'))))"
proof -
  have "sum_list (map worker_left ws) \<le> 2 * length ws" for ws
    by (induction ws) (auto simp: worker_left_def split: worker.split)
  then have k: "k \<le> 2 * length (workers p)" using worker_run_left [OF assms(2,1)] by (meson add_leD1 le_trans)
  have ex: "sq_exited (ptasks p')" using worker_run_left [OF assms(2,1)] by blast
  have "pool_joined p'" if stuck: "\<forall>q. \<not> worker_step p' q"
  proof -
    have "workers p' ! i = Stopped" if "i < length (workers p')" for i
      using stuck WHead [of i p'] WPop [of i p' False] that ex by (cases "workers p' ! i") (auto simp: wait_ready_def)
    then show ?thesis by (simp add: pool_joined_def list_all_length)
  qed
  then show ?thesis using k ex by (simp add: pool_destroy_def sq_size_def)
qed

end
