(* ===== verification/Sessions.thy ===== *)
theory Sessions
  imports StreamBuff Tasks Channel
begin

text \<open>
  \<open>StoreSession\<close> and \<open>SessionService\<close> (\<open>src/src/service/SessionService/\<close>). The service runs
  on the admin thread and hands the work on a session to the store thread as tasks that capture the
  session's address; sessions live in a heap and \<open>None\<close> marks one whose last \<open>shared_ptr\<close> is
  gone. The results of the system calls a task will make are part of the task.
\<close>

section \<open>\<open>StoreSession\<close>\<close>

type_synonym addr = "string \<times> 16 word"

text \<open>The constructor does not initialise \<open>channel_\<close>.\<close>

datatype chanptr = UninitPtr | NullPtr | ChanPtr channel

record session =
  sfd :: int
  sbuff :: streambuf
  saddr :: addr
  schan :: chanptr
  outStreams :: "addr list"

definition session_new :: "addr \<Rightarrow> session" where
  "session_new a = \<lparr>sfd = 0, sbuff = sb_new, saddr = a, schan = UninitPtr, outStreams = []\<rparr>"

text \<open>\<open>bindAddr\<close>, given the descriptor of the new socket, the result of \<open>bind\<close> and \<open>errno\<close>.\<close>

definition bindAddr :: "int \<Rightarrow> int \<Rightarrow> int \<Rightarrow> session \<Rightarrow> int \<times> session" where
  "bindAddr sock ret errno s = (if ret \<noteq> 0 then errno else 0, s\<lparr>sfd := sock\<rparr>)"

definition attatchToLoop :: "session \<Rightarrow> session" where
  "attatchToLoop s = s\<lparr>schan := ChanPtr (new_channel (sfd s) kReadEvent)\<rparr>"

text \<open>The read callback; \<open>None\<close> stands for a failing \<open>recvfrom\<close>.\<close>

definition readCallBack :: "string option \<Rightarrow> session \<Rightarrow> session res" where
  "readCallBack pkt s =
     (case schan s of UninitPtr \<Rightarrow> Inl UninitRead
      | NullPtr \<Rightarrow> Inr s
      | ChanPtr ch \<Rightarrow>
          if ch_fd ch < 0 then Inr s
          else case pkt of None \<Rightarrow> Inr s
            | Some p \<Rightarrow> rbind (recv_packet p (sbuff s)) (\<lambda>b. Inr (s\<lparr>sbuff := b\<rparr>)))"

text \<open>\<open>sendTo\<close>: the descriptor it writes to, if it does.\<close>

definition sendTo :: "session \<Rightarrow> int option res" where
  "sendTo s =
     (case schan s of UninitPtr \<Rightarrow> Inl UninitRead | NullPtr \<Rightarrow> Inr None
      | ChanPtr ch \<Rightarrow> Inr (if ch_fd ch < 0 then None else Some (ch_fd ch)))"

text \<open>\<open>closeUDP\<close>: deleting the channel closes it, which calls the read callback once more, now
  with \<open>channel_\<close> set to \<open>NULL\<close>.\<close>

definition closeUDP :: "session \<Rightarrow> session res" where
  "closeUDP s =
     (case schan s of UninitPtr \<Rightarrow> Inl UninitRead | NullPtr \<Rightarrow> Inr s
      | ChanPtr ch \<Rightarrow> readCallBack None (s\<lparr>schan := NullPtr\<rparr>))"

definition push_out :: "addr \<Rightarrow> session \<Rightarrow> session" where
  "push_out a s = s\<lparr>outStreams := outStreams s @ [a]\<rparr>"

definition erase_out :: "addr \<Rightarrow> session \<Rightarrow> session" where
  "erase_out a s = s\<lparr>outStreams := remove1 a (outStreams s)\<rparr>"

datatype store_task = BindAddr int int int | Attatch | CloseUDP | AddOut addr | RemoveOut addr

fun run_task :: "store_task \<Rightarrow> session \<Rightarrow> session res" where
  "run_task (BindAddr sock ret errno) s = Inr (snd (bindAddr sock ret errno s))"
| "run_task Attatch s = Inr (attatchToLoop s)"
| "run_task CloseUDP s = closeUDP s"
| "run_task (AddOut a) s = Inr (push_out a s)"
| "run_task (RemoveOut a) s = Inr (erase_out a s)"

section \<open>\<open>SessionService\<close>\<close>

record service =
  storeSesCount :: "64 word"
  loadSesCount :: "64 word"
  liveSesCount :: "64 word"
  sid :: "64 word"                                 \<comment> \<open>\<open>id_\<close>\<close>
  maxStoreConn :: "64 word"
  storeMap :: "(64 word \<times> nat) list"              \<comment> \<open>\<open>storeSess_\<close>, to heap addresses\<close>
  heap :: "session option list"
  storeQ :: "(nat \<times> store_task) safequeue"        \<comment> \<open>the task queue of \<open>storeLoop_\<close>\<close>

definition service_new :: service where
  "service_new = \<lparr>storeSesCount = 0, loadSesCount = 0, liveSesCount = 0, sid = 0, maxStoreConn = 200,
     storeMap = [], heap = [], storeQ = sq_new 0\<rparr>"

text \<open>\<open>storeLoop_->safeCall\<close> of a session's method.\<close>

definition post_task :: "nat \<Rightarrow> store_task \<Rightarrow> service \<Rightarrow> service" where
  "post_task a t sv = sv\<lparr>storeQ := safeCall (a, t) (storeQ sv)\<rparr>"

definition existStoreSes :: "64 word \<Rightarrow> service \<Rightarrow> bool" where
  "existStoreSes i sv = mhas (storeMap sv) i"

definition getStoreSes :: "64 word \<Rightarrow> service \<Rightarrow> nat option" where
  "getStoreSes i sv = map_of (storeMap sv) i"

text \<open>
  \<open>newStoreSes\<close>. \<open>prePareStore\<close> posts the bind task and has no \<open>return\<close>, so the value the
  caller tests is whatever the call leaves behind: the parameter \<open>left\<close>.
\<close>

definition newStoreSes :: "int \<times> int \<times> int \<Rightarrow> int \<Rightarrow> 16 word \<Rightarrow> service \<Rightarrow> 64 word \<times> service" where
  "newStoreSes kern left port sv =
     (if storeSesCount sv < maxStoreConn sv
      then
        (let a = length (heap sv); i = sid sv + 1; (sock, ret, errno) = kern;
             sv1 = post_task a (BindAddr sock ret errno)
                     (sv\<lparr>sid := i, heap := heap sv @ [Some (session_new (''127.0.0.1'', port))]\<rparr>)
         in if left = 0 then (i, sv1\<lparr>storeMap := mput i a (storeMap sv1)\<rparr>)
            else (0, sv1\<lparr>heap := (heap sv1)[a := None]\<rparr>))
      else (0, sv))"

definition startStoreSes :: "64 word \<Rightarrow> service \<Rightarrow> service" where
  "startStoreSes i sv =
     (case map_of (storeMap sv) i of None \<Rightarrow> sv
      | Some a \<Rightarrow> post_task a Attatch (sv\<lparr>storeSesCount := storeSesCount sv + 1\<rparr>))"

definition stopStoreSes :: "64 word \<Rightarrow> service \<Rightarrow> service" where
  "stopStoreSes i sv =
     (case map_of (storeMap sv) i of None \<Rightarrow> sv
      | Some a \<Rightarrow>
          (let sv1 = post_task a CloseUDP (sv\<lparr>storeSesCount := storeSesCount sv - 1\<rparr>)
           in sv1\<lparr>storeMap := mdel i (storeMap sv1), heap := (heap sv1)[a := None]\<rparr>))"

definition attatchLive :: "64 word \<Rightarrow> addr \<Rightarrow> service \<Rightarrow> service" where
  "attatchLive i a sv =
     (case map_of (storeMap sv) i of None \<Rightarrow> sv
      | Some p \<Rightarrow> post_task p (AddOut a) (sv\<lparr>liveSesCount := liveSesCount sv + 1\<rparr>))"

definition detachLive :: "64 word \<Rightarrow> addr \<Rightarrow> service \<Rightarrow> service" where
  "detachLive i a sv =
     (case map_of (storeMap sv) i of None \<Rightarrow> sv
      | Some p \<Rightarrow> post_task p (RemoveOut a) (sv\<lparr>liveSesCount := liveSesCount sv - 1\<rparr>))"

text \<open>\<open>ses->startStore()\<close> and \<open>ses->stopStore()\<close> through a \<open>StoreSesPtr\<close>.\<close>

definition startStore :: "nat option \<Rightarrow> service \<Rightarrow> service res" where
  "startStore ses sv = (case ses of None \<Rightarrow> Inl NullDeref | Some a \<Rightarrow> Inr (post_task a Attatch sv))"

definition stopStore :: "nat option \<Rightarrow> service \<Rightarrow> service res" where
  "stopStore ses sv = (case ses of None \<Rightarrow> Inl NullDeref | Some a \<Rightarrow> Inr (post_task a CloseUDP sv))"

section \<open>The store thread\<close>

definition exec :: "nat \<times> store_task \<Rightarrow> session option list \<Rightarrow> session option list res" where
  "exec at h =
     (case h ! fst at of None \<Rightarrow> Inl UseAfterFree
      | Some s \<Rightarrow> rbind (run_task (snd at) s) (\<lambda>s'. Inr (h[fst at := Some s'])))"

text \<open>A wake-up of the store loop runs every posted task; a packet arrives on a session's channel.\<close>

definition store_wake :: "service \<Rightarrow> service res option" where
  "store_wake sv =
     map_option (\<lambda>r. rbind r (\<lambda>(q, h). Inr (sv\<lparr>storeQ := q, heap := h\<rparr>)))
       (drain (\<lambda>t h. rbind (exec t h) (\<lambda>h'. Inr (h', []))) (storeQ sv) (heap sv))"

definition store_packet :: "nat \<Rightarrow> string option \<Rightarrow> service \<Rightarrow> service res" where
  "store_packet a pkt sv =
     (case heap sv ! a of None \<Rightarrow> Inl UseAfterFree
      | Some s \<Rightarrow> rbind (readCallBack pkt s) (\<lambda>s'. Inr (sv\<lparr>heap := (heap sv)[a := Some s']\<rparr>)))"

lemma store_wake_run:
  "store_wake sv = Some (rbind (run_list exec (items (storeQ sv)) (heap sv))
     (\<lambda>h. Inr (sv\<lparr>storeQ := (storeQ sv)\<lparr>items := []\<rparr>, heap := h\<rparr>)))"
  by (simp add: store_wake_def drain_run_list rbind_assoc)

section \<open>Sessions do not interfere\<close>

text \<open>The tasks of one session, in order.\<close>

definition own :: "nat \<Rightarrow> (nat \<times> store_task) list \<Rightarrow> store_task list" where
  "own a ts = map snd (filter (\<lambda>t. fst t = a) ts)"

lemma own_simps [simp]:
  "own a [] = []" "own a (t # ts) = (if fst t = a then snd t # own a ts else own a ts)"
  "own a (xs @ ys) = own a xs @ own a ys"
  by (auto simp: own_def)

text \<open>A session may be closed only after it was attached: \<open>ready\<close> says whether \<open>channel_\<close> has
  been assigned.\<close>

fun safe_tasks :: "bool \<Rightarrow> store_task list \<Rightarrow> bool" where
  "safe_tasks True ts = True"
| "safe_tasks False [] = True"
| "safe_tasks False (Attatch # ts) = True"
| "safe_tasks False (CloseUDP # ts) = False"
| "safe_tasks False (t # ts) = safe_tasks False ts"

definition ready :: "session \<Rightarrow> bool" where
  "ready s \<longleftrightarrow> schan s \<noteq> UninitPtr"

lemma ready_simps [simp]:
  "ready (snd (bindAddr k r e s)) = ready s" "ready (attatchToLoop s)"
  "ready (push_out a s) = ready s" "ready (erase_out a s) = ready s"
  by (simp_all add: ready_def bindAddr_def attatchToLoop_def push_out_def erase_out_def)

lemma closeUDP_ready:
  "ready s \<Longrightarrow> \<exists>s'. closeUDP s = Inr s' \<and> ready s' \<and> sbuff s' = sbuff s \<and> outStreams s' = outStreams s"
  "\<not> ready s \<Longrightarrow> closeUDP s = Inl UninitRead"
  by (auto simp: closeUDP_def ready_def readCallBack_def split: chanptr.splits)

lemma run_task_safe:
  assumes "safe_tasks (ready s) (t # ts)"
  shows "\<exists>s'. run_task t s = Inr s' \<and> safe_tasks (ready s') ts"
proof (cases "ready s")
  case True
  then show ?thesis using closeUDP_ready(1) [of s] by (cases t) auto
next
  case False
  then show ?thesis using assms by (cases t) auto
qed

lemma run_session_iff:
  "(\<exists>s'. run_list run_task ts s = Inr s') \<longleftrightarrow> safe_tasks (ready s) ts"
proof (induction ts arbitrary: s)
  case Nil
  then show ?case by (cases "ready s") auto
next
  case (Cons t ts)
  show ?case
  proof (cases "safe_tasks (ready s) (t # ts)")
    case True
    then show ?thesis using run_task_safe [OF True] Cons.IH by auto
  next
    case False
    show ?thesis
    proof (cases "t = CloseUDP")
      case True
      then show ?thesis using False closeUDP_ready(2) [of s] by (cases "ready s") auto
    next
      case t: False
      then show ?thesis using False Cons.IH by (cases t; cases "ready s") auto
    qed
  qed
qed

definition alive :: "session option list \<Rightarrow> (nat \<times> store_task) list \<Rightarrow> bool" where
  "alive h ts \<longleftrightarrow> (\<forall>t \<in> set ts. fst t < length h \<and> h ! fst t \<noteq> None)"

lemma alive_update: "alive h ts \<Longrightarrow> alive (h[b := Some x]) ts"
proof -
  assume h: "alive h ts"
  show ?thesis unfolding alive_def
  proof
    fix t assume "t \<in> set ts"
    then have "fst t < length h" "h ! fst t \<noteq> None" using h by (auto simp: alive_def)
    then show "fst t < length (h[b := Some x]) \<and> h[b := Some x] ! fst t \<noteq> None"
      by (cases "fst t = b") auto
  qed
qed

lemma alive_Cons: "alive h (t # ts) \<longleftrightarrow> fst t < length h \<and> h ! fst t \<noteq> None \<and> alive h ts"
  by (simp add: alive_def)

lemma exec_live: "h ! b = Some s \<Longrightarrow> exec (b, k) h = rbind (run_task k s) (\<lambda>s'. Inr (h[b := Some s']))"
  by (simp add: exec_def)

text \<open>A successful run has run each session's own tasks on it and on nothing else.\<close>

lemma run_exec_own:
  "run_list exec ts h = Inr h' \<Longrightarrow> alive h ts \<Longrightarrow>
   length h' = length h \<and>
   (\<forall>a < length h. case h ! a of None \<Rightarrow> h' ! a = None
      | Some s \<Rightarrow> (\<exists>s'. run_list run_task (own a ts) s = Inr s' \<and> h' ! a = Some s'))"
proof (induction ts arbitrary: h)
  case Nil
  then show ?case by (auto split: option.splits)
next
  case (Cons t ts)
  obtain b k where t: "t = (b, k)" by (cases t)
  have b: "b < length h" "h ! b \<noteq> None" using Cons.prems(2) by (auto simp: alive_Cons t)
  then obtain s s1 where s: "h ! b = Some s" "run_task k s = Inr s1"
      "run_list exec ts (h[b := Some s1]) = Inr h'"
    using Cons.prems(1) by (auto simp: exec_live t)
  have "alive (h[b := Some s1]) ts" using Cons.prems(2) by (simp add: alive_Cons alive_update)
  note ih = Cons.IH [OF s(3) this]
  show ?case
  proof (intro conjI allI impI)
    show "length h' = length h" using ih by simp
    fix a assume a: "a < length h"
    show "case h ! a of None \<Rightarrow> h' ! a = None
      | Some s \<Rightarrow> (\<exists>s'. run_list run_task (own a (t # ts)) s = Inr s' \<and> h' ! a = Some s')"
      using ih a s b by (cases "a = b") (auto simp: t split: option.splits)
  qed
qed

lemma run_exec_total:
  "alive h ts \<Longrightarrow> (\<And>a s. a < length h \<Longrightarrow> h ! a = Some s \<Longrightarrow> safe_tasks (ready s) (own a ts)) \<Longrightarrow>
   \<exists>h'. run_list exec ts h = Inr h'"
proof (induction ts arbitrary: h)
  case Nil
  then show ?case by simp
next
  case (Cons t ts)
  obtain b k where t: "t = (b, k)" by (cases t)
  obtain s where s: "b < length h" "h ! b = Some s" using Cons.prems(1) by (auto simp: alive_Cons t)
  have "safe_tasks (ready s) (k # own b ts)" using Cons.prems(2) [OF s] by (simp add: t)
  then obtain s1 where s1: "run_task k s = Inr s1" "safe_tasks (ready s1) (own b ts)"
    using run_task_safe by blast
  have al: "alive (h[b := Some s1]) ts" using Cons.prems(1) by (simp add: alive_Cons alive_update)
  have "safe_tasks (ready r) (own a ts)" if "a < length (h[b := Some s1])" "h[b := Some s1] ! a = Some r" for a r
  proof (cases "a = b")
    case True
    then show ?thesis using that s s1 by simp
  next
    case False
    then show ?thesis using that Cons.prems(2) [of a r] by (simp add: t)
  qed
  then obtain h' where "run_list exec ts (h[b := Some s1]) = Inr h'" using Cons.IH [OF al] by blast
  then show ?case using s s1 by (simp add: exec_live t)
qed

section \<open>The service's invariant\<close>

definition service_ok :: "service \<Rightarrow> bool" where
  "service_ok sv \<longleftrightarrow> mok (storeMap sv) \<and> sq_open (storeQ sv) \<and>
     sid sv = of_nat (length (heap sv)) \<and> length (heap sv) < 2 ^ 64 \<and>
     (\<forall>i a. map_of (storeMap sv) i = Some a \<longrightarrow> 0 < unat i \<and> a = unat i - 1 \<and> a < length (heap sv) \<and> heap sv ! a \<noteq> None) \<and>
     alive (heap sv) (items (storeQ sv))"

lemma unat_of_nat64: "n < 2 ^ 64 \<Longrightarrow> unat (of_nat n :: 64 word) = n"
  by (simp add: unat_of_nat take_bit_eq_mod)

lemma service_new_ok: "service_ok service_new"
  by (simp add: service_ok_def service_new_def sq_open_def sq_new_def alive_def)

lemma post_task_simps [simp]:
  "storeMap (post_task a t sv) = storeMap sv" "heap (post_task a t sv) = heap sv"
  "sid (post_task a t sv) = sid sv" "storeSesCount (post_task a t sv) = storeSesCount sv"
  "maxStoreConn (post_task a t sv) = maxStoreConn sv"
  by (simp_all add: post_task_def)

lemma post_task_q:
  "sq_open (storeQ sv) \<Longrightarrow> items (storeQ (post_task a t sv)) = items (storeQ sv) @ [(a, t)] \<and>
     sq_open (storeQ (post_task a t sv))"
  by (simp add: post_task_def safeCall_def sq_push_def sq_open_def)

lemma post_task_ok:
  assumes "service_ok sv" "a < length (heap sv)" "heap sv ! a \<noteq> None"
  shows "service_ok (post_task a t sv)"
  using assms post_task_q [of sv a t] by (auto simp: service_ok_def alive_def)

lemma getStoreSes_alive:
  "service_ok sv \<Longrightarrow> getStoreSes i sv = Some a \<Longrightarrow> a < length (heap sv) \<and> heap sv ! a \<noteq> None"
  by (auto simp: service_ok_def getStoreSes_def)

lemma start_stop_ok:
  assumes "service_ok sv"
  shows "startStore (getStoreSes i sv) sv = Inr sv' \<Longrightarrow> service_ok sv'"
    and "stopStore (getStoreSes i sv) sv = Inr sv' \<Longrightarrow> service_ok sv'"
  using getStoreSes_alive [OF assms] post_task_ok [OF assms]
  by (auto simp: startStore_def stopStore_def split: option.splits)

text \<open>A new session gets an unused id and a place of its own.\<close>

lemma newStoreSes_ok:
  assumes "service_ok sv" "storeSesCount sv < maxStoreConn sv" "length (heap sv) < 2 ^ 64 - 1"
    and "newStoreSes kern 0 port sv = (i, sv')"
  shows "service_ok sv'" "unat i = length (heap sv) + 1" "getStoreSes i sv = None"
    "getStoreSes i sv' = Some (length (heap sv))" "\<And>j. j \<noteq> i \<Longrightarrow> getStoreSes j sv' = getStoreSes j sv"
    "heap sv' = heap sv @ [Some (session_new (''127.0.0.1'', port))]"
    "storeSesCount sv' = storeSesCount sv" "maxStoreConn sv' = maxStoreConn sv"
    "items (storeQ sv') = items (storeQ sv) @ [(length (heap sv), case kern of (k, r, e) \<Rightarrow> BindAddr k r e)]"
proof -
  obtain k r e where kern: "kern = (k, r, e)" by (cases kern)
  let ?n = "length (heap sv)"
  let ?s0 = "sv\<lparr>sid := sid sv + 1, heap := heap sv @ [Some (session_new (''127.0.0.1'', port))]\<rparr>"
  let ?s1 = "post_task ?n (BindAddr k r e) ?s0"
  have e: "i = sid sv + 1" "sv' = ?s1\<lparr>storeMap := mput i ?n (storeMap sv)\<rparr>"
    using assms(2,4) by (auto simp: newStoreSes_def kern Let_def)
  have ok: "mok (storeMap sv)" "sq_open (storeQ sv)" "sid sv = of_nat ?n"
    using assms(1) by (auto simp: service_ok_def)
  have i: "i = of_nat (?n + 1)" by (simp add: e(1) ok(3) add.commute)
  show ui: "unat i = ?n + 1" unfolding i using assms(3) by (intro unat_of_nat64) simp
  show fresh: "getStoreSes i sv = None"
  proof (rule ccontr)
    assume "getStoreSes i sv \<noteq> None"
    then obtain a where "map_of (storeMap sv) i = Some a" by (auto simp: getStoreSes_def)
    then have "a = unat i - 1" "a < ?n" using assms(1) by (auto simp: service_ok_def)
    then show False using ui by simp
  qed
  have q: "items (storeQ sv') = items (storeQ sv) @ [(?n, BindAddr k r e)]" "sq_open (storeQ sv')"
    using post_task_q [of ?s0 ?n "BindAddr k r e"] ok(2) by (simp_all add: e(2))
  then show "items (storeQ sv') = items (storeQ sv) @ [(?n, case kern of (k, r, e) \<Rightarrow> BindAddr k r e)]"
    by (simp add: kern)
  show h: "heap sv' = heap sv @ [Some (session_new (''127.0.0.1'', port))]"
    and "storeSesCount sv' = storeSesCount sv" "maxStoreConn sv' = maxStoreConn sv"
    by (simp_all add: e(2))
  have mp: "map_of (storeMap sv') = (map_of (storeMap sv))(i \<mapsto> ?n)" using ok(1) by (simp add: e(2))
  then show "getStoreSes i sv' = Some ?n" "\<And>j. j \<noteq> i \<Longrightarrow> getStoreSes j sv' = getStoreSes j sv"
    by (simp_all add: getStoreSes_def)
  have old: "0 < unat j \<and> a = unat j - 1 \<and> a < ?n \<and> heap sv ! a \<noteq> None" if "map_of (storeMap sv) j = Some a" for j a
    using assms(1) that by (simp add: service_ok_def)
  have al: "alive (heap sv) (items (storeQ sv))" using assms(1) by (simp add: service_ok_def)
  show "service_ok sv'"
    unfolding service_ok_def
  proof (intro conjI allI impI)
    show "mok (storeMap sv')" using ok(1) by (simp add: e(2))
    show "sq_open (storeQ sv')" by (rule q(2))
    show "sid sv' = of_nat (length (heap sv'))" using i e(1) by (simp add: e(2) add.commute)
    show "length (heap sv') < 2 ^ 64" using assms(3) by (simp add: h)
    show "alive (heap sv') (items (storeQ sv'))" using al by (auto simp: q(1) h alive_def nth_append)
    fix j a assume "map_of (storeMap sv') j = Some a"
    then have "(j = i \<and> a = ?n) \<or> (0 < unat j \<and> a = unat j - 1 \<and> a < ?n \<and> heap sv ! a \<noteq> None)"
      using old [of j a] by (auto simp: mp split: if_splits)
    then show "0 < unat j" "a = unat j - 1" "a < length (heap sv')" "heap sv' ! a \<noteq> None"
      using ui by (auto simp: h nth_append)
  qed
qed

section \<open>What the stream manager relies on\<close>

text \<open>
  The interface of the session service to its client: \<open>ok\<close> is the invariant, \<open>room\<close> says that
  another session may be created, \<open>get\<close> is the session pointer of an id.
\<close>

locale session_provider =
  fixes ok :: "'v \<Rightarrow> bool"
    and room :: "'v \<Rightarrow> bool"
    and new :: "'k \<Rightarrow> 16 word \<Rightarrow> 'v \<Rightarrow> 64 word \<times> 'v"
    and get :: "64 word \<Rightarrow> 'v \<Rightarrow> 'p option"
    and start :: "'p option \<Rightarrow> 'v \<Rightarrow> 'v res"
    and stop :: "'p option \<Rightarrow> 'v \<Rightarrow> 'v res"
  assumes new_room: "ok v \<Longrightarrow> room v \<Longrightarrow> new k p v = (i, v') \<Longrightarrow>
      ok v' \<and> i \<noteq> 0 \<and> get i v = None \<and> get i v' \<noteq> None \<and> (\<forall>j. j \<noteq> i \<longrightarrow> get j v' = get j v)"
    and get_0: "ok v \<Longrightarrow> get 0 v = None"
    and start_null: "start None v = Inl NullDeref"
    and stop_null: "stop None v = Inl NullDeref"
    and start_ok: "ok v \<Longrightarrow> get i v = Some a \<Longrightarrow>
      \<exists>v'. start (Some a) v = Inr v' \<and> ok v' \<and> (\<forall>j. get j v' = get j v) \<and> room v' = room v"
    and stop_ok: "ok v \<Longrightarrow> get i v = Some a \<Longrightarrow>
      \<exists>v'. stop (Some a) v = Inr v' \<and> ok v' \<and> (\<forall>j. get j v' = get j v) \<and> room v' = room v"
begin

text \<open>The provider never takes a session away: an id once valid stays valid.\<close>

lemma get_mono:
  "ok v \<Longrightarrow> room v \<Longrightarrow> new k p v = (i, v') \<Longrightarrow> get j v \<noteq> None \<Longrightarrow> get j v' \<noteq> None"
  using new_room by metis

lemma start_iff: "ok v \<Longrightarrow> (\<exists>v'. start (get i v) v = Inr v') \<longleftrightarrow> get i v \<noteq> None"
  using start_ok [of v i] start_null by (cases "get i v") auto

lemma stop_iff: "ok v \<Longrightarrow> (\<exists>v'. stop (get i v) v = Inr v') \<longleftrightarrow> get i v \<noteq> None"
  using stop_ok [of v i] stop_null by (cases "get i v") auto

end

text \<open>There is room as long as the counter is below the limit and ids have not run out.\<close>

definition has_room :: "service \<Rightarrow> bool" where
  "has_room sv \<longleftrightarrow> storeSesCount sv < maxStoreConn sv \<and> length (heap sv) < 2 ^ 64 - 1"

lemma getStoreSes_0: "service_ok sv \<Longrightarrow> getStoreSes 0 sv = None"
  unfolding service_ok_def getStoreSes_def by (metis unat_0 less_irrefl not_None_eq)

lemma post_task_get [simp]: "getStoreSes j (post_task a t sv) = getStoreSes j sv"
  by (simp add: getStoreSes_def)

interpretation ses: session_provider service_ok has_room "\<lambda>k. newStoreSes k 0" getStoreSes startStore stopStore
proof (unfold_locales, goal_cases)
  case (1 v k p i v')
  then have a: "storeSesCount v < maxStoreConn v" "length (heap v) < 2 ^ 64 - 1" by (auto simp: has_room_def)
  note n = newStoreSes_ok [OF 1(1) a 1(3)]
  have "i \<noteq> 0" using n(2) by auto
  then show ?case using n(1,3,4,5) by simp
next
  case (2 v)
  then show ?case by (rule getStoreSes_0)
next
  case (5 v i a)
  then show ?case using getStoreSes_alive [OF 5] post_task_ok [of v a Attatch] by (simp add: startStore_def has_room_def)
next
  case (6 v i a)
  then show ?case using getStoreSes_alive [OF 6] post_task_ok [of v a CloseUDP] by (simp add: stopStore_def has_room_def)
qed (simp_all add: startStore_def stopStore_def)

text \<open>A session that was never attached must not be stopped.\<close>

lemma stop_unattached:
  assumes "service_ok sv" "has_room sv" "items (storeQ sv) = []" "newStoreSes kern 0 port sv = (i, sv1)"
  shows "\<exists>sv2. stopStore (getStoreSes i sv1) sv1 = Inr sv2 \<and> store_wake sv2 = Some (Inl UninitRead)"
proof -
  have r: "storeSesCount sv < maxStoreConn sv" "length (heap sv) < 2 ^ 64 - 1"
    using assms(2) by (auto simp: has_room_def)
  note n = newStoreSes_ok [OF assms(1) r assms(4)]
  obtain k e er where kern: "kern = (k, e, er)" by (cases kern)
  let ?a = "length (heap sv)" and ?s = "session_new (''127.0.0.1'', port)"
  have q: "items (storeQ (post_task ?a CloseUDP sv1)) = [(?a, BindAddr k e er), (?a, CloseUDP)]"
    using post_task_q [of sv1 ?a CloseUDP] n(1,9) assms(3) by (simp add: service_ok_def kern)
  have "run_list exec [(?a, BindAddr k e er), (?a, CloseUDP)] (heap sv @ [Some ?s]) = Inl UninitRead"
    by (simp add: exec_live [of _ _ ?s] exec_live [of _ _ "snd (bindAddr k e er ?s)"] closeUDP_def
        bindAddr_def session_new_def)
  then have "store_wake (post_task ?a CloseUDP sv1) = Some (Inl UninitRead)"
    by (simp add: store_wake_run q n(6))
  then show ?thesis by (simp add: n(4) stopStore_def)
qed

section \<open>Properties\<close>


text \<open>A service with one session, bound, attached and closed.\<close>

definition one_session :: service where
  "one_session = post_task 0 CloseUDP (post_task 0 Attatch (snd (newStoreSes (7, 0, 0) 0 3000 service_new)))"

lemma one_session_items: "items (storeQ one_session) = [(0, BindAddr 7 0 0), (0, Attatch), (0, CloseUDP)]"
  by (simp add: one_session_def newStoreSes_def service_new_def post_task_def safeCall_def sq_push_def sq_new_def)

lemma one_session_heap: "heap one_session = [Some (session_new (''127.0.0.1'', 3000))]"
  by (simp add: one_session_def newStoreSes_def service_new_def)


text \<open>
  Stopping a session that was never started reads the uninitialised
  \<open>channel_\<close>: after \<open>newStoreSes\<close> and \<open>stopStore\<close> on an idle service, the next wake-up of the
  store thread is undefined behaviour.
\<close>

theorem close_before_attach:
  assumes "service_ok sv" "has_room sv" "items (storeQ sv) = []" "newStoreSes kern 0 port sv = (i, sv1)"
  shows "\<exists>sv2. stopStore (getStoreSes i sv1) sv1 = Inr sv2 \<and> store_wake sv2 = Some (Inl UninitRead)"
  by (rule stop_unattached [OF assms])

theorem close_before_attach_witness:
  "\<exists>sv2. stopStore (getStoreSes 1 (snd (newStoreSes (7, 0, 0) 0 3000 service_new)))
       (snd (newStoreSes (7, 0, 0) 0 3000 service_new)) = Inr sv2 \<and> store_wake sv2 = Some (Inl UninitRead)"
proof (rule close_before_attach [OF service_new_ok])
  show "has_room service_new" "items (storeQ service_new) = []"
    by (simp_all add: has_room_def service_new_def sq_new_def)
  show "newStoreSes (7, 0, 0) 0 3000 service_new = (1, snd (newStoreSes (7, 0, 0) 0 3000 service_new))"
    by (simp add: newStoreSes_def service_new_def)
qed

text \<open>
  \<open>stopStoreSes\<close> erases the session while the task it has just posted
  still refers to it: the next wake-up of the store thread uses the freed session. And a session
  that was never counted by \<open>startStoreSes\<close> takes the counter below zero, after which every
  \<open>newStoreSes\<close> is refused.
\<close>

theorem stop_frees_session:
  assumes "service_ok sv" "getStoreSes i sv = Some a" "items (storeQ sv) = []" "storeSesCount sv = 0"
    and "maxStoreConn sv = 200"
  shows "store_wake (stopStoreSes i sv) = Some (Inl UseAfterFree) \<and>
         newStoreSes kern left port (stopStoreSes i sv) = (0, stopStoreSes i sv)"
proof -
  have a: "a < length (heap sv)" using getStoreSes_alive [OF assms(1,2)] by simp
  let ?s0 = "sv\<lparr>storeSesCount := storeSesCount sv - 1\<rparr>"
  have st: "stopStoreSes i sv = (post_task a CloseUDP ?s0)\<lparr>storeMap := mdel i (storeMap sv), heap := (heap sv)[a := None]\<rparr>"
    using assms(2) by (simp add: stopStoreSes_def getStoreSes_def Let_def)
  have "items (storeQ (post_task a CloseUDP ?s0)) = [(a, CloseUDP)]"
    using post_task_q [of ?s0 a CloseUDP] assms(1,3) by (simp add: service_ok_def)
  then have "store_wake (stopStoreSes i sv) = Some (Inl UseAfterFree)"
    using a by (simp add: st store_wake_run exec_def)
  moreover have "\<not> storeSesCount (stopStoreSes i sv) < maxStoreConn (stopStoreSes i sv)"
    using assms(4,5) by (simp add: st word_less_nat_alt unsigned_minus_1_eq_mask mask_eq_exp_minus_1)
  ultimately show ?thesis by (simp add: newStoreSes_def)
qed

theorem stop_frees_session_witness:
  "store_wake (stopStoreSes 1 (service_new\<lparr>sid := 1, storeMap := [(1, 0)], heap := [Some (session_new (''127.0.0.1'', 3000))]\<rparr>)) =
     Some (Inl UseAfterFree) \<and>
   newStoreSes (7, 0, 0) 0 3010 (stopStoreSes 1 (service_new\<lparr>sid := 1, storeMap := [(1, 0)], heap := [Some (session_new (''127.0.0.1'', 3000))]\<rparr>)) =
     (0, stopStoreSes 1 (service_new\<lparr>sid := 1, storeMap := [(1, 0)], heap := [Some (session_new (''127.0.0.1'', 3000))]\<rparr>))"
  by (rule stop_frees_session [of _ _ 0])
     (auto simp: service_ok_def service_new_def sq_open_def sq_new_def alive_def mok_Cons getStoreSes_def split: if_splits)

text \<open>
  Session ids: while there is room and the bind task is handed over, \<open>newStoreSes\<close>
  returns a non-zero id no session has, the id leads to the new session, every other id keeps its
  session, and the session's first task is its bind.
\<close>

theorem session_ids:
  assumes "service_ok sv" "has_room sv" "newStoreSes (k, r, e) 0 port sv = (i, sv')"
  shows "i \<noteq> 0 \<and> getStoreSes i sv = None \<and> (\<exists>a. getStoreSes i sv' = Some a \<and>
           heap sv' ! a = Some (session_new (''127.0.0.1'', port)) \<and>
           own a (items (storeQ sv')) = [BindAddr k r e]) \<and>
         (\<forall>j. j \<noteq> i \<longrightarrow> getStoreSes j sv' = getStoreSes j sv) \<and> service_ok sv'"
proof -
  have rm: "storeSesCount sv < maxStoreConn sv" "length (heap sv) < 2 ^ 64 - 1"
    using assms(2) by (auto simp: has_room_def)
  note n = newStoreSes_ok [OF assms(1) rm assms(3)]
  have "\<forall>t \<in> set (items (storeQ sv)). fst t < length (heap sv)"
    using assms(1) by (auto simp: service_ok_def alive_def)
  then have "own (length (heap sv)) (items (storeQ sv)) = []" by (auto simp: own_def filter_empty_conv)
  then show ?thesis using n ses.new_room [OF assms(1,2) assms(3)] by (auto simp: own_def)
qed

theorem session_ids_witness:
  "(1 :: 64 word) \<noteq> 0 \<and> getStoreSes 1 service_new = None \<and>
   (\<exists>a. getStoreSes 1 (snd (newStoreSes (7, 0, 0) 0 3000 service_new)) = Some a \<and>
      heap (snd (newStoreSes (7, 0, 0) 0 3000 service_new)) ! a = Some (session_new (''127.0.0.1'', 3000)) \<and>
      own a (items (storeQ (snd (newStoreSes (7, 0, 0) 0 3000 service_new)))) = [BindAddr 7 0 0])"
proof -
  have "newStoreSes (7, 0, 0) 0 3000 service_new = (1, snd (newStoreSes (7, 0, 0) 0 3000 service_new))"
    "has_room service_new"
    by (simp_all add: newStoreSes_def service_new_def has_room_def)
  from session_ids [OF service_new_ok this(2,1)] show ?thesis by blast
qed

end
