(* ===== verification/Streams.thy ===== *)
theory Streams
  imports ExtCodec Sessions
begin

text \<open>
  Store plans and \<open>StreamMgr\<close> (\<open>src/src/manager/Plan.h\<close>, \<open>StreamMgr.h\<close>, \<open>StreamMgr.cc\<close>).
  The manager's state extends that of its connection to the management server (\<open>msConn_\<close> points
  to it once set) with the fields of the class, the session service it points to and the static
  maps of \<open>ExternalMsgCodec\<close>. The messages are those of \<open>protobuf/MS_DS.proto\<close>; their
  serialisation is the protobuf parameter.
\<close>

section \<open>Messages\<close>

record plan_info =
  i_streamid :: string
  i_cameraip :: string
  i_cameraport :: string
  i_streamtype :: string
  i_moreinformation :: string
  i_expireddays :: "32 word"
  i_coderate :: "32 word"
  i_framerate :: "32 word"                        \<comment> \<open>the bits of the \<open>float\<close>\<close>
  i_storetimephrase :: "(int \<times> 32 word) list"    \<comment> \<open>\<open>weekday\<close>, \<open>storetime\<close>\<close>

record store_plan =
  sp_empty :: bool
  sp_infos :: "plan_info list"

datatype ms_msg =
    DSRegister string "32 word" "32 word"
  | DSRegisterACK "32 word"
  | StorePlan store_plan
  | ReadyStoreStreamInfo string string
  | ReadyStoreStreamInfoACK string

fun ms_name :: "ms_msg \<Rightarrow> string" where
  "ms_name (DSRegister _ _ _) = ''MS_DS.DSRegister''"
| "ms_name (DSRegisterACK _) = ''MS_DS.DSRegisterACK''"
| "ms_name (StorePlan _) = ''MS_DS.StorePlan''"
| "ms_name (ReadyStoreStreamInfo _ _) = ''MS_DS.ReadyStoreStreamInfo''"
| "ms_name (ReadyStoreStreamInfoACK _) = ''MS_DS.ReadyStoreStreamInfoACK''"

section \<open>\<open>Plan\<close>\<close>

record plan =
  streamId :: string
  cameraIp :: string
  cameraPort :: string
  streamType :: string
  extraInfo :: string
  expiryDays :: "32 word"
  codeRate :: "32 word"
  frameRate :: "32 word"
  timePhrase :: "32 word list"

text \<open>The loop of the constructor; \<open>operator[]\<close> of the vector is unchecked.\<close>

fun set_phrases :: "(int \<times> 32 word) list \<Rightarrow> 32 word list \<Rightarrow> 32 word list res" where
  "set_phrases [] tp = Inr tp"
| "set_phrases ((day, time) # ps) tp =
     (if 0 \<le> day \<and> nat day < length tp then set_phrases ps (tp[nat day := time]) else Inl OutOfBounds)"

definition plan_new :: "plan_info \<Rightarrow> plan res" where
  "plan_new info =
     rbind (set_phrases (i_storetimephrase info) (replicate 8 0)) (\<lambda>tp.
     Inr \<lparr>streamId = i_streamid info, cameraIp = i_cameraip info, cameraPort = i_cameraport info,
       streamType = i_streamtype info, extraInfo = i_moreinformation info,
       expiryDays = i_expireddays info, codeRate = i_coderate info, frameRate = i_framerate info,
       timePhrase = tp\<rparr>)"

section \<open>\<open>StreamMgr\<close>\<close>

record ses_info =
  sessionId :: "64 word"
  ses_para1 :: "32 word"
  ses_para2 :: "32 word"

definition ses_info_new :: "64 word \<Rightarrow> ses_info" where
  "ses_info_new i = \<lparr>sessionId = i, ses_para1 = 0, ses_para2 = 0\<rparr>"

record mgr = conn +
  prePlans :: "(string \<times> plan) list"
  curPlans :: "(string \<times> plan) list"
  delPlans :: "(string \<times> plan) list"      \<comment> \<open>an \<open>unordered_map\<close>: the order is arbitrary\<close>
  storeSess :: "(string \<times> ses_info) list"
  loadSess :: "(string \<times> ses_info) list"
  sesService :: "service option"            \<comment> \<open>what \<open>sesServicePtr_\<close> points to\<close>
  msConn :: bool                            \<comment> \<open>\<open>msConn_\<close> is set\<close>
  mport :: "16 word"
  portInterval :: "16 word"
  reg :: registry

text \<open>The fields as the constructor leaves them, over the connection \<open>c\<close>.\<close>

definition mgr_new :: "conn \<Rightarrow> registry \<Rightarrow> mgr" where
  "mgr_new c r = conn.extend c
     (mgr.fields [] [] [] [] [] None False 3000 10 r)"

definition getCurDay :: "nat \<Rightarrow> nat" where
  "getCurDay tm_wday = (if tm_wday = 0 then 7 else tm_wday)"

definition getCurHour :: "nat \<Rightarrow> nat" where
  "getCurHour tm_hour = tm_hour"

definition stream_exists :: "string \<Rightarrow> mgr \<Rightarrow> bool" where
  "stream_exists stm w = mhas (storeSess w) stm"

definition existLoadSes :: "string \<Rightarrow> mgr \<Rightarrow> bool" where
  "existLoadSes stm w = mhas (loadSess w) stm"

definition getStoreSesId :: "string \<Rightarrow> mgr \<Rightarrow> 64 word" where
  "getStoreSesId stm w = (case map_of (storeSess w) stm of Some i \<Rightarrow> sessionId i | None \<Rightarrow> 0)"

definition getLoadSesId :: "string \<Rightarrow> mgr \<Rightarrow> 64 word" where
  "getLoadSesId stm w = (case map_of (loadSess w) stm of Some i \<Rightarrow> sessionId i | None \<Rightarrow> 0)"

definition setSesServicePtr :: "service \<Rightarrow> mgr \<Rightarrow> mgr" where
  "setSesServicePtr sv w = w\<lparr>sesService := Some sv\<rparr>"

definition setMSConn :: "mgr \<Rightarrow> mgr" where
  "setMSConn w = w\<lparr>msConn := True\<rparr>"

definition inviteStream :: "ms_msg protobuf \<Rightarrow> string \<Rightarrow> 16 word \<Rightarrow> mgr \<Rightarrow> mgr res" where
  "inviteStream P stm port w =
     (if \<not> msConn w then Inl NullDeref
      else rbind (encode_msg P (ReadyStoreStreamInfo stm (to_string (unat port))) 0 0 0 (outb w) (reg w)) (\<lambda>(out, r).
        sendOutput (w\<lparr>outb := out, reg := r\<rparr>)))"

text \<open>What the system will answer: the socket and bind results for a port, and the value
  \<open>prePareStore\<close> happens to return.\<close>

record os_env =
  bind_of :: "16 word \<Rightarrow> int \<times> int \<times> int"
  prep_left :: int

definition createStream :: "ms_msg protobuf \<Rightarrow> os_env \<Rightarrow> string \<Rightarrow> mgr \<Rightarrow> mgr res" where
  "createStream P env stm w =
     (case sesService w of None \<Rightarrow> Inl NullDeref
      | Some sv \<Rightarrow>
          (let (i, sv') = newStoreSes (bind_of env (mport w)) (prep_left env) (mport w) sv;
               w1 = w\<lparr>sesService := Some sv'\<rparr> in
           rbind (if i \<noteq> 0
                  then inviteStream P stm (mport w1) (w1\<lparr>storeSess := mput stm (ses_info_new i) (storeSess w1)\<rparr>)
                  else Inr w1) (\<lambda>w2.
           Inr (w2\<lparr>mport := mport w2 + portInterval w2\<rparr>))))"

text \<open>\<open>storeSess_[streamid]\<close>, and \<open>encode("MS_DS.Bye", para1, para2, 0, \<dots>)\<close>.\<close>

definition ses_at :: "string \<Rightarrow> mgr \<Rightarrow> ses_info \<times> mgr" where
  "ses_at stm w = (let (i, m) = mindex (ses_info_new 0) stm (storeSess w) in (i, w\<lparr>storeSess := m\<rparr>))"

definition byeStream :: "string \<Rightarrow> mgr \<Rightarrow> mgr res" where
  "byeStream stm w =
     (let (i, w1) = ses_at stm w in
      if \<not> msConn w1 then Inl NullDeref
      else rbind (encode_name ''MS_DS.Bye'' (ses_para1 i) (ses_para2 i) 0 (outb w1) (reg w1)) (\<lambda>(out, r).
        sendOutput (w1\<lparr>outb := out, reg := r\<rparr>)))"

text \<open>\<open>sesServicePtr_->getStoreSes(id)->stopStore()\<close> and \<open>\<dots>->startStore()\<close>.\<close>

definition on_session :: "(nat option \<Rightarrow> service \<Rightarrow> service res) \<Rightarrow> 64 word \<Rightarrow> mgr \<Rightarrow> mgr res" where
  "on_session f i w =
     (case sesService w of None \<Rightarrow> Inl NullDeref
      | Some sv \<Rightarrow> rbind (f (getStoreSes i sv) sv) (\<lambda>sv'. Inr (w\<lparr>sesService := Some sv'\<rparr>)))"

definition stopStream :: "string \<Rightarrow> mgr \<Rightarrow> mgr res" where
  "stopStream stm w =
     rbind (byeStream stm w) (\<lambda>w1.
     let (i, w2) = ses_at stm w1 in
     rbind (on_session stopStore (sessionId i) w2) (\<lambda>w3.
     Inr (w3\<lparr>storeSess := mdel stm (storeSess w3)\<rparr>)))"

text \<open>A range \<open>for\<close> over a map with the keys \<open>ks\<close> (still to visit): when the body has erased the
  current element, advancing the iterator is undefined. No body here inserts into its own map.\<close>

fun iterate :: "('w \<Rightarrow> 'k list) \<Rightarrow> ('k \<Rightarrow> 'w \<Rightarrow> 'w res) \<Rightarrow> 'k list \<Rightarrow> 'w \<Rightarrow> 'w res" where
  "iterate keys body [] w = Inr w"
| "iterate keys body (k # ks) w =
     rbind (body k w) (\<lambda>w'. if k \<in> set (keys w') then iterate keys body ks w' else Inl IterInvalid)"

definition stopAllStream :: "mgr \<Rightarrow> mgr res" where
  "stopAllStream w =
     rbind (iterate (\<lambda>w. map fst (storeSess w)) stopStream (map fst (storeSess w)) w) (\<lambda>w'.
     Inr (w'\<lparr>storeSess := []\<rparr>))"

definition startStream :: "string \<Rightarrow> 32 word \<Rightarrow> 32 word \<Rightarrow> 32 word \<Rightarrow> mgr \<Rightarrow> mgr res" where
  "startStream stm p1 p2 er w =
     (if er \<noteq> 0
      then (let (i, w1) = ses_at stm w in
            rbind (on_session stopStore (sessionId i) w1) (\<lambda>w2.
            Inr (w2\<lparr>storeSess := mdel stm (storeSess w2)\<rparr>)))
      else (let (i, w1) = ses_at stm w;
                w2 = w1\<lparr>storeSess := mput stm (i\<lparr>ses_para1 := p1, ses_para2 := p2\<rparr>) (storeSess w1)\<rparr> in
            on_session startStore (sessionId i) w2))"

section \<open>Plans\<close>

text \<open>Iterators into the two plan maps; iterators of different maps are different.\<close>

datatype plan_map = PreMap | CurMap
datatype plan_iter = At plan_map string | End plan_map

definition plan_find :: "plan_map \<Rightarrow> string \<Rightarrow> mgr \<Rightarrow> plan_iter" where
  "plan_find m k w =
     (if mhas (case m of PreMap \<Rightarrow> prePlans w | CurMap \<Rightarrow> curPlans w) k then At m k else End m)"

definition diffStorePlan :: "mgr \<Rightarrow> mgr" where
  "diffStorePlan w =
     w\<lparr>delPlans := fold (\<lambda>(k, p) d.
        if plan_find CurMap k w = End PreMap then (if mhas d k then d else d @ [(k, p)]) else d)
        (prePlans w) (delPlans w)\<rparr>"

fun add_plans :: "plan_info list \<Rightarrow> mgr \<Rightarrow> mgr res" where
  "add_plans [] w = Inr w"
| "add_plans (info # infos) w =
     rbind (plan_new info) (\<lambda>p. add_plans infos (w\<lparr>curPlans := mput (i_streamid info) p (curPlans w)\<rparr>))"

definition updateStorePlan :: "store_plan \<Rightarrow> mgr \<Rightarrow> mgr res" where
  "updateStorePlan msg w =
     rbind (if sp_empty msg then Inr (w\<lparr>curPlans := [], prePlans := []\<rparr>)
            else add_plans (sp_infos msg) (w\<lparr>prePlans := curPlans w, curPlans := []\<rparr>)) (\<lambda>w'.
     Inr (diffStorePlan w'))"

text \<open>\<open>plan.second->timePhrase[curDay] & (1 << curHour)\<close>\<close>

definition scheduled :: "nat \<Rightarrow> nat \<Rightarrow> plan \<Rightarrow> bool" where
  "scheduled day hour p \<longleftrightarrow> (timePhrase p ! day) AND push_bit hour 1 \<noteq> 0"

definition check_plan :: "ms_msg protobuf \<Rightarrow> os_env \<Rightarrow> nat \<Rightarrow> nat \<Rightarrow> plan \<Rightarrow> mgr \<Rightarrow> mgr res" where
  "check_plan P env day hour p w =
     (if length (timePhrase p) \<le> day then Inl OutOfBounds
      else if scheduled day hour p
      then (if stream_exists (streamId p) w then Inr w
            else createStream P env (streamId p) (w\<lparr>delPlans := mdel (streamId p) (delPlans w)\<rparr>))
      else (if stream_exists (streamId p) w then stopStream (streamId p) w else Inr w))"

fun check_plans :: "ms_msg protobuf \<Rightarrow> os_env \<Rightarrow> nat \<Rightarrow> nat \<Rightarrow> plan list \<Rightarrow> mgr \<Rightarrow> mgr res" where
  "check_plans P env day hour [] w = Inr w"
| "check_plans P env day hour (p # ps) w = rbind (check_plan P env day hour p w) (check_plans P env day hour ps)"

definition stop_deleted :: "string \<Rightarrow> mgr \<Rightarrow> mgr res" where
  "stop_deleted k w =
     (case map_of (delPlans w) k of None \<Rightarrow> Inl IterInvalid
      | Some p \<Rightarrow> rbind (stopStream (streamId p) w) (\<lambda>w'. Inr (w'\<lparr>delPlans := mdel k (delPlans w')\<rparr>)))"

definition checkStorePlan :: "ms_msg protobuf \<Rightarrow> os_env \<Rightarrow> nat \<Rightarrow> nat \<Rightarrow> mgr \<Rightarrow> mgr res" where
  "checkStorePlan P env tm_wday tm_hour w =
     (let day = getCurDay tm_wday; hour = getCurHour tm_hour in
      rbind (check_plans P env day hour (map snd (curPlans w)) w) (\<lambda>w1.
      iterate (\<lambda>w. map fst (delPlans w)) stop_deleted (map fst (delPlans w1)) w1))"

section \<open>Frame lemmas\<close>

text \<open>Everything the manager adds to the connection, but the code registry.\<close>

definition same_mgr :: "mgr \<Rightarrow> mgr \<Rightarrow> bool" where
  "same_mgr w w' \<longleftrightarrow> prePlans w' = prePlans w \<and> curPlans w' = curPlans w \<and> delPlans w' = delPlans w \<and>
     storeSess w' = storeSess w \<and> loadSess w' = loadSess w \<and> sesService w' = sesService w \<and>
     msConn w' = msConn w \<and> mport w' = mport w \<and> portInterval w' = portInterval w"

lemma mgr_more: "conn.more (w' :: mgr) = conn.more w \<Longrightarrow> same_mgr w w' \<and> reg w' = reg w"
  by (cases w; cases w') (simp add: same_mgr_def)

text \<open>Handing an encoded frame to the connection.\<close>

lemma send_frame:
  assumes "out_ok w" "buffer_ok out" "bytes out = bytes (outb w) @ fr"
  shows "\<exists>w'. sendOutput (w\<lparr>outb := out, reg := r\<rparr>) = Inr w' \<and> out_ok w' \<and> same_mgr w w' \<and> same_life w w' \<and>
           reg w' = r \<and> inb w' = inb w \<and> stream w' = stream w @ fr"
proof -
  let ?w = "w\<lparr>outb := out, reg := r\<rparr>"
  have "out_ok ?w" using assms(2) by (simp add: out_ok_def)
  then obtain w' where w': "sendOutput ?w = Inr w'" "out_ok w'" "inb w' = inb ?w" "stream w' = stream ?w"
      "same_life ?w w'"
    using sendOutput_spec by blast
  have "conn.more w' = conn.more ?w" by (rule sendOutput_more [OF w'(1)])
  then have "same_mgr ?w w'" "reg w' = reg ?w" using mgr_more by blast+
  moreover have "same_mgr w w'" if "same_mgr ?w w'" using that by (simp add: same_mgr_def)
  moreover have "same_life w w'" using w'(5) by (simp add: same_life_def)
  ultimately show ?thesis using w' assms(3) by (simp add: stream_def)
qed

lemma inviteStream_ok:
  assumes "msConn w" "out_ok w"
  shows "\<exists>w' c. inviteStream P stm port w = Inr w' \<and> out_ok w' \<and> same_mgr w w' \<and> same_life w w' \<and> inb w' = inb w \<and>
           c = fst (getCmd (full_name P (ReadyStoreStreamInfo stm (to_string (unat port)))) (reg w)) \<and>
           stream w' = stream w @ ext_frame c 0 0 0 (serialize P (ReadyStoreStreamInfo stm (to_string (unat port))))"
proof -
  let ?m = "ReadyStoreStreamInfo stm (to_string (unat port))"
  obtain out where out: "encode_msg P ?m 0 0 0 (outb w) (reg w) = Inr (out, snd (getCmd (full_name P ?m) (reg w)))"
      "buffer_ok out" "bytes out = bytes (outb w) @ ext_frame (fst (getCmd (full_name P ?m) (reg w))) 0 0 0 (serialize P ?m)"
    using encode_total(1) [OF assms(2) [unfolded out_ok_def], of P ?m 0 0 0 "reg w"] by blast
  from send_frame [OF assms(2) out(2,3), of "snd (getCmd (full_name P ?m) (reg w))"]
  show ?thesis using out(1) assms(1) by (auto simp: inviteStream_def)
qed

lemma ses_at_present: "map_of (storeSess w) stm = Some i \<Longrightarrow> ses_at stm w = (i, w)"
  by (cases w) (simp add: ses_at_def mindex_present)

lemma ses_at_absent:
  "map_of (storeSess w) stm = None \<Longrightarrow>
     ses_at stm w = (ses_info_new 0, w\<lparr>storeSess := mput stm (ses_info_new 0) (storeSess w)\<rparr>)"
  by (simp add: ses_at_def mindex_absent)

lemma byeStream_ok:
  assumes "msConn w" "out_ok w" "map_of (storeSess w) stm = Some i"
  shows "\<exists>w'. byeStream stm w = Inr w' \<and> out_ok w' \<and> same_mgr w w' \<and> same_life w w' \<and> inb w' = inb w \<and>
           stream w' = stream w @ ext_frame (fst (getCmd ''MS_DS.Bye'' (reg w))) (ses_para1 i) (ses_para2 i) 0 []"
proof -
  obtain out where out: "encode_name ''MS_DS.Bye'' (ses_para1 i) (ses_para2 i) 0 (outb w) (reg w) =
        Inr (out, snd (getCmd ''MS_DS.Bye'' (reg w)))" "buffer_ok out"
      "bytes out = bytes (outb w) @ ext_frame (fst (getCmd ''MS_DS.Bye'' (reg w))) (ses_para1 i) (ses_para2 i) 0 []"
    using encode_total(2) [OF assms(2) [unfolded out_ok_def], of "''MS_DS.Bye''" "ses_para1 i" "ses_para2 i" 0 "reg w"]
    by blast
  from send_frame [OF assms(2) out(2,3), of "snd (getCmd ''MS_DS.Bye'' (reg w))"]
  show ?thesis using out(1) assms by (auto simp: byeStream_def ses_at_present)
qed

section \<open>Streams and their sessions\<close>

text \<open>Every stream of the manager has a session in the service. \<open>storeSesCount_\<close> is never moved by
  the manager, which does not go through \<open>startStoreSes\<close> and \<open>stopStoreSes\<close>.\<close>

definition sessions_ok :: "mgr \<Rightarrow> bool" where
  "sessions_ok w \<longleftrightarrow> mok (storeSess w) \<and> out_ok w \<and> msConn w \<and>
     (\<exists>sv. sesService w = Some sv \<and> service_ok sv \<and> storeSesCount sv = 0 \<and> maxStoreConn sv = 200 \<and>
       (\<forall>s i. map_of (storeSess w) s = Some i \<longrightarrow> getStoreSes (sessionId i) sv \<noteq> None))"

definition created :: "mgr \<Rightarrow> nat" where
  "created w = (case sesService w of None \<Rightarrow> 0 | Some sv \<Rightarrow> length (heap sv))"

definition same_plans :: "mgr \<Rightarrow> mgr \<Rightarrow> bool" where
  "same_plans w w' \<longleftrightarrow> prePlans w' = prePlans w \<and> curPlans w' = curPlans w \<and> loadSess w' = loadSess w \<and>
     msConn w' = msConn w \<and> portInterval w' = portInterval w"

lemma same_mgr_plans: "same_mgr w w' \<Longrightarrow> same_plans w w'"
  by (simp add: same_mgr_def same_plans_def)

lemma same_plans_trans: "same_plans a b \<Longrightarrow> same_plans b c \<Longrightarrow> same_plans a c"
  by (simp add: same_plans_def)

lemma createStream_ok:
  assumes "sessions_ok w" "prep_left env = 0" "created w < 2 ^ 64 - 1"
  shows "\<exists>w' i. createStream P env stm w = Inr w' \<and> sessions_ok w' \<and> same_plans w w' \<and> delPlans w' = delPlans w \<and>
           storeSess w' = mput stm (ses_info_new i) (storeSess w) \<and> created w' = created w + 1 \<and>
           mport w' = mport w + portInterval w"
proof -
  obtain sv where sv: "sesService w = Some sv" "service_ok sv" "storeSesCount sv = 0" "maxStoreConn sv = 200"
      "\<forall>s i. map_of (storeSess w) s = Some i \<longrightarrow> getStoreSes (sessionId i) sv \<noteq> None"
    and w: "mok (storeSess w)" "out_ok w" "msConn w"
    using assms(1) by (auto simp: sessions_ok_def)
  obtain i sv' where n: "newStoreSes (bind_of env (mport w)) 0 (mport w) sv = (i, sv')" by fastforce
  have room: "storeSesCount sv < maxStoreConn sv" "length (heap sv) < 2 ^ 64 - 1"
    using sv assms(3) by (auto simp: created_def)
  note new = newStoreSes_ok [OF sv(2) room n]
  have i: "i \<noteq> 0" using new(2) by auto
  let ?w = "w\<lparr>sesService := Some sv', storeSess := mput stm (ses_info_new i) (storeSess w)\<rparr>"
  obtain w1 where w1: "inviteStream P stm (mport w) ?w = Inr w1" "out_ok w1" "same_mgr ?w w1"
    using inviteStream_ok [of ?w P stm "mport w"] w by (auto simp: out_ok_def)
  let ?w' = "w1\<lparr>mport := mport w1 + portInterval w1\<rparr>"
  have "createStream P env stm w = Inr ?w'" using sv(1) n i w1(1) assms(2) by (simp add: createStream_def)
  moreover have "getStoreSes (sessionId x) sv' \<noteq> None" if "map_of (mput stm (ses_info_new i) (storeSess w)) s = Some x" for s x
    using that sv(5) new(4,5) w(1) by (cases "sessionId x = i") (auto simp: ses_info_new_def split: if_splits)
  then have "sessions_ok ?w'"
    using w1(2,3) w new(1,7,8) sv(3,4) by (auto simp: sessions_ok_def same_mgr_def out_ok_def)
  moreover have "created ?w' = created w + 1" using w1(3) new(6) sv(1) by (simp add: created_def same_mgr_def)
  ultimately show ?thesis using w1(3) by (auto simp: same_mgr_def same_plans_def)
qed

lemma on_session_ok:
  assumes "sessions_ok w" "map_of (storeSess w) stm = Some i" "f = startStore \<or> f = stopStore"
  shows "\<exists>w'. on_session f (sessionId i) w = Inr w' \<and> sessions_ok w' \<and> created w' = created w \<and>
           (\<exists>sv'. w' = w\<lparr>sesService := Some sv'\<rparr>)"
proof -
  obtain sv where sv: "sesService w = Some sv" "service_ok sv" "storeSesCount sv = 0" "maxStoreConn sv = 200"
      "\<forall>s i. map_of (storeSess w) s = Some i \<longrightarrow> getStoreSes (sessionId i) sv \<noteq> None"
    using assms(1) by (auto simp: sessions_ok_def)
  obtain a where a: "getStoreSes (sessionId i) sv = Some a" using sv(5) assms(2) by auto
  obtain t where t: "f (Some a) sv = Inr (post_task a t sv)"
    using assms(3) by (auto simp: startStore_def stopStore_def)
  have "service_ok (post_task a t sv)" using post_task_ok getStoreSes_alive [OF sv(2) a] sv(2) by blast
  then have "sessions_ok (w\<lparr>sesService := Some (post_task a t sv)\<rparr>)"
    using assms(1) sv by (simp add: sessions_ok_def out_ok_def)
  moreover have "on_session f (sessionId i) w = Inr (w\<lparr>sesService := Some (post_task a t sv)\<rparr>)"
    using sv(1) a t by (simp add: on_session_def)
  ultimately show ?thesis using sv(1) by (auto simp: created_def)
qed

lemma stopStream_ok:
  assumes "sessions_ok w" "map_of (storeSess w) stm = Some i"
  shows "\<exists>w'. stopStream stm w = Inr w' \<and> sessions_ok w' \<and> same_plans w w' \<and> delPlans w' = delPlans w \<and>
           storeSess w' = mdel stm (storeSess w) \<and> created w' = created w \<and> mport w' = mport w"
proof -
  have w: "msConn w" "out_ok w" using assms(1) by (auto simp: sessions_ok_def)
  obtain w1 where w1: "byeStream stm w = Inr w1" "out_ok w1" "same_mgr w w1"
    using byeStream_ok [OF w assms(2)] by blast
  have ok1: "sessions_ok w1" using assms(1) w1(2,3) by (auto simp: sessions_ok_def same_mgr_def)
  have m1: "map_of (storeSess w1) stm = Some i" using assms(2) w1(3) by (simp add: same_mgr_def)
  obtain w2 sv where w2: "on_session stopStore (sessionId i) w1 = Inr w2" "sessions_ok w2" "created w2 = created w1"
      "w2 = w1\<lparr>sesService := Some sv\<rparr>"
    using on_session_ok [OF ok1 m1, of stopStore] by blast
  let ?w' = "w2\<lparr>storeSess := mdel stm (storeSess w2)\<rparr>"
  have "stopStream stm w = Inr ?w'" using w1(1) w2(1) by (simp add: stopStream_def ses_at_present [OF m1])
  moreover have "sessions_ok ?w'" using w2(2) by (auto simp: sessions_ok_def out_ok_def split: if_splits)
  moreover have "created ?w' = created w" using w2(3,4) w1(3) by (simp add: created_def same_mgr_def)
  ultimately show ?thesis using w1(3) w2(4) by (auto simp: same_mgr_def same_plans_def)
qed

section \<open>Checking the plans\<close>

definition plans_ok :: "mgr \<Rightarrow> bool" where
  "plans_ok w \<longleftrightarrow> mok (curPlans w) \<and> delPlans w = [] \<and>
     (\<forall>(k, p) \<in> set (curPlans w). streamId p = k \<and> length (timePhrase p) = 8)"

lemma check_plan_ok:
  assumes "sessions_ok w" "delPlans w = []" "day < length (timePhrase p)" "prep_left env = 0" "created w < 2 ^ 64 - 1"
  shows "\<exists>w'. check_plan P env day hour p w = Inr w' \<and> sessions_ok w' \<and> same_plans w w' \<and> delPlans w' = [] \<and>
           created w' \<le> created w + 1 \<and>
           (\<forall>k. stream_exists k w' \<longleftrightarrow> (if k = streamId p then scheduled day hour p else stream_exists k w))"
proof -
  have m: "mok (storeSess w)" using assms(1) by (simp add: sessions_ok_def)
  have nop: "w\<lparr>delPlans := mdel (streamId p) (delPlans w)\<rparr> = w" using assms(2) by (cases w) (simp add: mdel_def)
  consider "scheduled day hour p" "stream_exists (streamId p) w" | "scheduled day hour p" "\<not> stream_exists (streamId p) w"
    | "\<not> scheduled day hour p" "stream_exists (streamId p) w" | "\<not> scheduled day hour p" "\<not> stream_exists (streamId p) w"
    by blast
  then show ?thesis
  proof cases
    case 2
    obtain w' i where w': "createStream P env (streamId p) w = Inr w'" "sessions_ok w'" "same_plans w w'"
        "delPlans w' = delPlans w" "storeSess w' = mput (streamId p) (ses_info_new i) (storeSess w)"
        "created w' = created w + 1"
      using createStream_ok [OF assms(1,4,5)] by blast
    have "stream_exists k w' \<longleftrightarrow> (if k = streamId p then scheduled day hour p else stream_exists k w)" for k
      using 2 m by (auto simp: stream_exists_def w'(5))
    then show ?thesis using 2 w' assms(2,3) nop by (auto simp: check_plan_def)
  next
    case 3
    then obtain i where i: "map_of (storeSess w) (streamId p) = Some i" by (auto simp: stream_exists_def mhas_def)
    obtain w' where w': "stopStream (streamId p) w = Inr w'" "sessions_ok w'" "same_plans w w'"
        "delPlans w' = delPlans w" "storeSess w' = mdel (streamId p) (storeSess w)" "created w' = created w"
      using stopStream_ok [OF assms(1) i] by blast
    have "stream_exists k w' \<longleftrightarrow> (if k = streamId p then scheduled day hour p else stream_exists k w)" for k
      using 3 by (auto simp: stream_exists_def w'(5))
    then show ?thesis using 3 w' assms(2,3) by (auto simp: check_plan_def)
  qed (use assms in \<open>auto simp: check_plan_def same_plans_def\<close>)
qed

lemma check_plans_ok:
  "sessions_ok w \<Longrightarrow> delPlans w = [] \<Longrightarrow> prep_left env = 0 \<Longrightarrow> created w + length ps < 2 ^ 64 \<Longrightarrow>
   (\<And>p. p \<in> set ps \<Longrightarrow> day < length (timePhrase p)) \<Longrightarrow> distinct (map streamId ps) \<Longrightarrow>
   \<exists>w'. check_plans P env day hour ps w = Inr w' \<and> sessions_ok w' \<and> same_plans w w' \<and> delPlans w' = [] \<and>
     created w' \<le> created w + length ps \<and>
     (\<forall>k. stream_exists k w' \<longleftrightarrow> (case map_of (map (\<lambda>p. (streamId p, p)) ps) k of
        Some p \<Rightarrow> scheduled day hour p | None \<Rightarrow> stream_exists k w))"
proof (induction ps arbitrary: w)
  case Nil
  then show ?case by (auto simp: same_plans_def)
next
  case (Cons p ps)
  have "day < length (timePhrase p)" "created w < 2 ^ 64 - 1" using Cons.prems(4,5) by auto
  then obtain w1 where w1: "check_plan P env day hour p w = Inr w1" "sessions_ok w1" "same_plans w w1"
      "delPlans w1 = []" "created w1 \<le> created w + 1"
      "\<forall>k. stream_exists k w1 \<longleftrightarrow> (if k = streamId p then scheduled day hour p else stream_exists k w)"
    using check_plan_ok [OF Cons.prems(1,2) _ Cons.prems(3)] by blast
  have "created w1 + length ps < 2 ^ 64" using w1(5) Cons.prems(4) by simp
  then obtain w2 where w2: "check_plans P env day hour ps w1 = Inr w2" "sessions_ok w2" "same_plans w1 w2"
      "delPlans w2 = []" "created w2 \<le> created w1 + length ps" "\<forall>k. stream_exists k w2 \<longleftrightarrow> (case map_of (map (\<lambda>p. (streamId p, p)) ps) k of
        Some p \<Rightarrow> scheduled day hour p | None \<Rightarrow> stream_exists k w1)"
    using Cons.IH [OF w1(2,4) Cons.prems(3)] Cons.prems(5,6) by auto
  have no: "map_of (map (\<lambda>p. (streamId p, p)) ps) (streamId p) = None"
    using Cons.prems(6) by (auto simp: map_of_eq_None_iff)
  have "stream_exists k w2 \<longleftrightarrow> (case map_of (map (\<lambda>p. (streamId p, p)) (p # ps)) k of
        Some p \<Rightarrow> scheduled day hour p | None \<Rightarrow> stream_exists k w)" for k
    using w2(6) w1(6) no by (cases "k = streamId p") (simp_all split: option.splits)
  moreover have "created w2 \<le> created w + length (p # ps)" using w1(5) w2(5) by simp
  ultimately show ?case using w1(1) w2 same_plans_trans [OF w1(3) w2(3)] by auto
qed

lemma curPlans_map:
  assumes "plans_ok w"
  shows "map (\<lambda>p. (streamId p, p)) (map snd (curPlans w)) = curPlans w"
proof -
  have "((\<lambda>p. (streamId p, p)) \<circ> snd) x = x" if "x \<in> set (curPlans w)" for x
    using assms that by (cases x) (auto simp: plans_ok_def)
  then show ?thesis by (simp add: map_idI)
qed

lemma checkStorePlan_ok:
  assumes "sessions_ok w" "plans_ok w" "prep_left env = 0" "tm_wday < 7"
    and "created w + length (curPlans w) < 2 ^ 64"
  shows "\<exists>w'. checkStorePlan P env tm_wday tm_hour w = Inr w' \<and> sessions_ok w' \<and> plans_ok w' \<and> same_plans w w' \<and>
     created w' \<le> created w + length (curPlans w) \<and>
     (\<forall>k. stream_exists k w' \<longleftrightarrow> (case map_of (curPlans w) k of
        Some p \<Rightarrow> scheduled (getCurDay tm_wday) (getCurHour tm_hour) p | None \<Rightarrow> stream_exists k w))"
proof -
  let ?ps = "map snd (curPlans w)" and ?day = "getCurDay tm_wday" and ?hour = "getCurHour tm_hour"
  have "map streamId ?ps = map fst (curPlans w)"
    using arg_cong [OF curPlans_map [OF assms(2)], of "map fst"] by (simp add: o_def)
  moreover have "distinct (map fst (curPlans w))" using assms(2) unfolding plans_ok_def by (intro mok_distinct) blast
  ultimately have "distinct (map streamId ?ps)" by (simp only:)
  moreover have "?day < length (timePhrase p)" if "p \<in> set ?ps" for p
    using that assms(2,4) by (auto simp: plans_ok_def getCurDay_def)
  moreover have "delPlans w = []" using assms(2) by (simp add: plans_ok_def)
  ultimately obtain w' where w': "check_plans P env ?day ?hour ?ps w = Inr w'" "sessions_ok w'" "same_plans w w'"
      "delPlans w' = []" "created w' \<le> created w + length ?ps"
      "\<forall>k. stream_exists k w' \<longleftrightarrow> (case map_of (map (\<lambda>p. (streamId p, p)) ?ps) k of
        Some p \<Rightarrow> scheduled ?day ?hour p | None \<Rightarrow> stream_exists k w)"
    using check_plans_ok [OF assms(1) _ assms(3), of ?ps ?day P ?hour] assms(5) by auto
  have "plans_ok w'" using assms(2) w'(3,4) by (simp add: plans_ok_def same_plans_def)
  then show ?thesis using w'(1-5) w'(6) [unfolded curPlans_map [OF assms(2)]]
    by (auto simp: checkStorePlan_def)
qed

section \<open>Receiving plans\<close>

definition info_ok :: "plan_info \<Rightarrow> bool" where
  "info_ok info \<longleftrightarrow> (\<forall>(d, t) \<in> set (i_storetimephrase info). 0 \<le> d \<and> d < 8)"

lemma set_phrases_ok:
  "\<forall>(d, t) \<in> set ps. 0 \<le> d \<and> d < int (length tp) \<Longrightarrow>
   \<exists>tp'. set_phrases ps tp = Inr tp' \<and> length tp' = length tp \<and>
     (\<forall>d < length tp. tp' ! d = (case map_of (rev ps) (int d) of Some t \<Rightarrow> t | None \<Rightarrow> tp ! d))"
proof (induction ps arbitrary: tp)
  case Nil
  then show ?case by simp
next
  case (Cons x ps)
  obtain e t where x: "x = (e, t)" by (cases x)
  have e: "0 \<le> e" "nat e < length tp" using Cons.prems by (auto simp: x)
  have "\<forall>(d, u) \<in> set ps. 0 \<le> d \<and> d < int (length (tp[nat e := t]))" using Cons.prems by auto
  from Cons.IH [OF this] obtain tp' where tp': "set_phrases ps (tp[nat e := t]) = Inr tp'" "length tp' = length tp"
      "\<forall>d < length tp. tp' ! d = (case map_of (rev ps) (int d) of Some t \<Rightarrow> t | None \<Rightarrow> tp[nat e := t] ! d)"
    by auto
  have "tp' ! d = (case map_of (rev (x # ps)) (int d) of Some t \<Rightarrow> t | None \<Rightarrow> tp ! d)" if "d < length tp" for d
    using that tp'(3) e by (auto simp: x map_add_def nth_list_update split: option.splits)
  then show ?case using tp' e by (auto simp: x)
qed

lemma plan_new_ok:
  assumes "info_ok info"
  shows "\<exists>p. plan_new info = Inr p \<and> streamId p = i_streamid info \<and> length (timePhrase p) = 8 \<and>
           (\<forall>d < 8. timePhrase p ! d = (case map_of (rev (i_storetimephrase info)) (int d) of Some t \<Rightarrow> t | None \<Rightarrow> 0))"
proof -
  have "\<forall>(d, t) \<in> set (i_storetimephrase info). 0 \<le> d \<and> d < int (length (replicate 8 (0 :: 32 word)))"
    using assms by (auto simp: info_ok_def)
  from set_phrases_ok [OF this] show ?thesis by (auto simp: plan_new_def split: option.splits)
qed

definition plan_of :: "plan_info \<Rightarrow> plan" where
  "plan_of info = (case plan_new info of Inr p \<Rightarrow> p | Inl _ \<Rightarrow> undefined)"

lemma plan_new_plan_of: "info_ok info \<Longrightarrow> plan_new info = Inr (plan_of info)"
  using plan_new_ok by (fastforce simp: plan_of_def)

lemma plan_of_simps:
  assumes "info_ok info"
  shows "streamId (plan_of info) = i_streamid info" "length (timePhrase (plan_of info)) = 8"
  using plan_new_ok [OF assms] by (auto simp: plan_of_def)

definition plan_puts :: "plan_info list \<Rightarrow> (string \<times> plan) list \<Rightarrow> (string \<times> plan) list" where
  "plan_puts infos m = fold (\<lambda>(k, p). mput k p) (map (\<lambda>info. (i_streamid info, plan_of info)) infos) m"

lemma add_plans_ok:
  "\<forall>info \<in> set infos. info_ok info \<Longrightarrow> add_plans infos w = Inr (w\<lparr>curPlans := plan_puts infos (curPlans w)\<rparr>)"
proof (induction infos arbitrary: w)
  case Nil
  then show ?case by (cases w) (simp add: plan_puts_def)
next
  case (Cons info infos)
  then show ?case by (simp add: plan_new_plan_of plan_puts_def)
qed

lemma plan_puts_lookup:
  "map_of (plan_puts infos []) k = map_of (rev (map (\<lambda>info. (i_streamid info, plan_of info)) infos)) k"
  unfolding plan_puts_def
  by (subst smap.get_fold_put) (auto split: option.splits)

lemma mok_plan_puts: "mok m \<Longrightarrow> mok (plan_puts infos m)"
  unfolding plan_puts_def by (rule smap.ok_fold_put)

text \<open>\<open>diffStorePlan\<close> finds nothing to delete: an iterator of \<open>curPlans_\<close> is never \<open>prePlans_.end()\<close>.\<close>

lemma diffStorePlan_nop: "diffStorePlan w = w"
proof -
  have "plan_find CurMap k w \<noteq> End PreMap" for k by (simp add: plan_find_def)
  then have "fold (\<lambda>(k, p) d. if plan_find CurMap k w = End PreMap then (if mhas d k then d else d @ [(k, p)]) else d)
      xs d = d" for xs and d :: "(string \<times> plan) list"
    by (induction xs arbitrary: d) auto
  then show ?thesis by (cases w) (simp add: diffStorePlan_def)
qed

lemma updateStorePlan_ok:
  assumes "\<forall>info \<in> set (sp_infos msg). info_ok info"
  shows "updateStorePlan msg w = Inr (if sp_empty msg then w\<lparr>curPlans := [], prePlans := []\<rparr>
     else w\<lparr>prePlans := curPlans w, curPlans := plan_puts (sp_infos msg) []\<rparr>)"
  using add_plans_ok [OF assms] by (auto simp: updateStorePlan_def diffStorePlan_nop)

lemma updateStorePlan_plans_ok:
  assumes "plans_ok w" "\<forall>info \<in> set (sp_infos msg). info_ok info" "updateStorePlan msg w = Inr w'"
  shows "plans_ok w'"
proof -
  have "streamId p = k \<and> length (timePhrase p) = 8" if "(k, p) \<in> set (plan_puts (sp_infos msg) [])" for k p
  proof -
    have "map_of (plan_puts (sp_infos msg) []) k = Some p"
      using that mok_plan_puts [of "[]"] by (intro map_of_is_SomeI mok_distinct) auto
    then have "(k, p) \<in> set (map (\<lambda>info. (i_streamid info, plan_of info)) (sp_infos msg))"
      unfolding plan_puts_lookup by (metis map_of_SomeD set_rev)
    then show ?thesis using assms(2) plan_of_simps by auto
  qed
  then show ?thesis using assms mok_plan_puts [of "[]"]
    by (auto simp: updateStorePlan_ok plans_ok_def split: if_splits)
qed

section \<open>Running many creations\<close>

lemma create_all_ok:
  "sessions_ok w \<Longrightarrow> prep_left env = 0 \<Longrightarrow> created w + length ss < 2 ^ 64 \<Longrightarrow>
   \<exists>w'. run_list (createStream P env) ss w = Inr w' \<and> sessions_ok w' \<and> portInterval w' = portInterval w \<and>
     created w' = created w + length ss \<and> mport w' = mport w + of_nat (length ss) * portInterval w \<and>
     (\<forall>k. stream_exists k w' \<longleftrightarrow> k \<in> set ss \<or> stream_exists k w)"
proof (induction ss arbitrary: w)
  case Nil
  then show ?case by simp
next
  case (Cons s ss)
  have "created w < 2 ^ 64 - 1" using Cons.prems(3) by simp
  then obtain w1 i where w1: "createStream P env s w = Inr w1" "sessions_ok w1" "same_plans w w1"
      "storeSess w1 = mput s (ses_info_new i) (storeSess w)" "created w1 = created w + 1"
      "mport w1 = mport w + portInterval w"
    using createStream_ok [OF Cons.prems(1,2)] by blast
  have "mok (storeSess w)" using Cons.prems(1) by (simp add: sessions_ok_def)
  then have ex: "stream_exists k w1 \<longleftrightarrow> k = s \<or> stream_exists k w" for k
    by (simp add: stream_exists_def w1(4))
  have "portInterval w1 = portInterval w" using w1(3) by (simp add: same_plans_def)
  then show ?case using Cons.IH [OF w1(2) Cons.prems(2)] Cons.prems(3) w1(1,5,6) ex
    by (auto simp: algebra_simps)
qed

text \<open>The ports of two attempts, ten apart each, meet again after \<open>2 ^ 15\<close> attempts.\<close>

lemma port_period: "(3000 + of_nat i * 10 = (3000 + of_nat j * 10 :: 16 word)) \<longleftrightarrow> i mod 32768 = j mod 32768"
proof -
  have "(of_nat (i * 10) = (of_nat (j * 10) :: 16 word)) \<longleftrightarrow> i * 10 mod 65536 = j * 10 mod 65536"
    unfolding word_of_nat_eq_iff take_bit_eq_mod by simp
  also have "\<dots> \<longleftrightarrow> 5 * i mod 32768 = 5 * j mod 32768"
    using mod_mult_mult1 [of 2 "5 * i" 32768] mod_mult_mult1 [of 2 "5 * j" 32768] by (simp add: mult.commute)
  also have "\<dots> \<longleftrightarrow> i mod 32768 = j mod 32768"
  proof
    assume "5 * i mod 32768 = 5 * j mod 32768"
    then have "19661 * (5 * i) mod 32768 = 19661 * (5 * j) mod 32768" by (rule mod_mult_cong [OF refl])
    moreover have "19661 * (5 * n) mod 32768 = n mod 32768" for n :: nat
      using mod_mult_self2 [of n 32768 "3 * n"] by (simp add: algebra_simps)
    ultimately show "i mod 32768 = j mod 32768" by simp
  qed (rule mod_mult_cong [OF refl])
  finally show ?thesis by simp
qed

section \<open>Properties\<close>

text \<open>A manager with an idle service and a connected management server, for concrete instances; its
  protobuf library knows the acknowledgement only.\<close>

definition demo_pb :: "ms_msg protobuf" where
  "demo_pb = \<lparr>full_name = ms_name, serialize = (\<lambda>m. case m of ReadyStoreStreamInfoACK s \<Rightarrow> s | _ \<Rightarrow> ''x''),
     known_type = (\<lambda>t. t = ''MS_DS.ReadyStoreStreamInfoACK''), parse = (\<lambda>t s. Some (ReadyStoreStreamInfoACK s))\<rparr>"

definition demo_env :: os_env where
  "demo_env = \<lparr>bind_of = (\<lambda>_. (7, 0, 0)), prep_left = 0\<rparr>"

definition demo_mgr :: mgr where
  "demo_mgr = setMSConn (setSesServicePtr service_new (mgr_new idle_conn reg_new))"

lemma demo_mgr_ok: "sessions_ok demo_mgr" "created demo_mgr = 0" "mport demo_mgr = 3000" "portInterval demo_mgr = 10"
    "storeSess demo_mgr = []" "curPlans demo_mgr = []" "delPlans demo_mgr = []" "sesService demo_mgr = Some service_new"
  using service_new_ok
  by (simp_all add: sessions_ok_def demo_mgr_def setMSConn_def setSesServicePtr_def mgr_new_def conn.defs mgr.defs
      idle_conn_def conn_new_def out_ok_def created_def service_new_def)

definition demo_info :: plan_info where
  "demo_info = \<lparr>i_streamid = ''cam'', i_cameraip = [], i_cameraport = [], i_streamtype = [], i_moreinformation = [],
     i_expireddays = 0, i_coderate = 0, i_framerate = 0, i_storetimephrase = [(7, 1)]\<rparr>"

definition demo_planned :: mgr where
  "demo_planned = demo_mgr\<lparr>curPlans := plan_puts [demo_info] []\<rparr>"

lemma demo_info_ok: "info_ok demo_info"
  by (simp add: info_ok_def demo_info_def)

lemma demo_planned_ok: "sessions_ok demo_planned" "plans_ok demo_planned" "created demo_planned = 0"
    "curPlans demo_planned = [(''cam'', plan_of demo_info)]"
proof -
  show c: "curPlans demo_planned = [(''cam'', plan_of demo_info)]"
    by (simp add: demo_planned_def plan_puts_def mput_Nil demo_info_def [THEN arg_cong [of _ _ i_streamid]])
  show "sessions_ok demo_planned" using demo_mgr_ok(1) by (simp add: demo_planned_def sessions_ok_def out_ok_def)
  show "created demo_planned = 0" using demo_mgr_ok(2) by (simp add: demo_planned_def created_def)
  have d: "delPlans demo_planned = []" "i_streamid demo_info = ''cam''"
    using demo_mgr_ok(7) by (simp_all add: demo_planned_def demo_info_def)
  show "plans_ok demo_planned"
    using plan_of_simps [OF demo_info_ok] by (simp add: plans_ok_def c d mok_Cons)
qed



text \<open>
  A store plan message replaces the plans: the new current plans are exactly
  those of the message (the last one for a repeated stream id), with the store time of each weekday
  in place and 0 for the others, the previous plans are the old current ones; an empty message drops
  both.
\<close>

theorem plans_replaced:
  assumes "\<forall>info \<in> set (sp_infos msg). info_ok info"
  shows "\<exists>w'. updateStorePlan msg w = Inr w' \<and>
    (if sp_empty msg then curPlans w' = [] \<and> prePlans w' = []
     else prePlans w' = curPlans w \<and> (\<forall>k.
       case map_of (rev (map (\<lambda>info. (i_streamid info, info)) (sp_infos msg))) k of
         None \<Rightarrow> map_of (curPlans w') k = None
       | Some info \<Rightarrow> \<exists>p. map_of (curPlans w') k = Some p \<and> streamId p = k \<and>
           (\<forall>d < 8. timePhrase p ! d = (case map_of (rev (i_storetimephrase info)) (int d) of Some t \<Rightarrow> t | None \<Rightarrow> 0))))"
proof (cases "sp_empty msg")
  case True
  then show ?thesis by (simp add: updateStorePlan_ok [OF assms])
next
  case False
  let ?m = "rev (map (\<lambda>info. (i_streamid info, info)) (sp_infos msg))"
  have "rev (map (\<lambda>info. (i_streamid info, plan_of info)) (sp_infos msg)) = map (\<lambda>(k, info). (k, plan_of info)) ?m"
    by (simp add: rev_map o_def)
  then have look: "map_of (plan_puts (sp_infos msg) []) k = map_option plan_of (map_of ?m k)" for k
    unfolding plan_puts_lookup by (simp add: map_of_map)
  have "\<exists>p. map_of (plan_puts (sp_infos msg) []) k = Some p \<and> streamId p = k \<and>
      (\<forall>d < 8. timePhrase p ! d = (case map_of (rev (i_storetimephrase info)) (int d) of Some t \<Rightarrow> t | None \<Rightarrow> 0))"
    if "map_of ?m k = Some info" for k info
  proof -
    have "info \<in> set (sp_infos msg)" "i_streamid info = k" using map_of_SomeD [OF that] by auto
    then have "info_ok info" using assms by blast
    then show ?thesis using plan_new_ok [of info] plan_new_plan_of [of info] look [of k] that \<open>i_streamid info = k\<close> by auto
  qed
  then show ?thesis using False look by (auto simp: updateStorePlan_ok [OF assms] split: option.splits)
qed

theorem plans_replaced_witness:
  "\<exists>w'. updateStorePlan \<lparr>sp_empty = False, sp_infos = [demo_info]\<rparr> demo_mgr = Inr w' \<and>
     prePlans w' = [] \<and> (\<exists>p. map_of (curPlans w') ''cam'' = Some p \<and> timePhrase p ! 7 = 1 \<and> timePhrase p ! 1 = 0)"
proof -
  have ok: "\<forall>info \<in> set (sp_infos \<lparr>sp_empty = False, sp_infos = [demo_info]\<rparr>). info_ok info"
    using demo_info_ok by simp
  have d: "i_streamid demo_info = ''cam''" "i_storetimephrase demo_info = [(7, 1)]" by (simp_all add: demo_info_def)
  obtain w' where w': "updateStorePlan \<lparr>sp_empty = False, sp_infos = [demo_info]\<rparr> demo_mgr = Inr w'"
      "prePlans w' = curPlans demo_mgr"
      "\<exists>p. map_of (curPlans w') ''cam'' = Some p \<and> streamId p = ''cam'' \<and>
        (\<forall>d < 8. timePhrase p ! d = (case map_of (rev (i_storetimephrase demo_info)) (int d) of Some t \<Rightarrow> t | None \<Rightarrow> 0))"
    using plans_replaced [OF ok, of demo_mgr] by (auto simp: d dest!: spec [of _ "''cam''"])
  then obtain p where p: "map_of (curPlans w') ''cam'' = Some p"
      "\<forall>d < 8. timePhrase p ! d = (case map_of (rev (i_storetimephrase demo_info)) (int d) of Some t \<Rightarrow> t | None \<Rightarrow> 0)" by blast
  have "timePhrase p ! 7 = 1" "timePhrase p ! 1 = 0" using p(2) [rule_format, of 7] p(2) [rule_format, of 1] by (simp_all add: d)
  then show ?thesis using w'(1,2) p(1) demo_mgr_ok(6) by auto
qed

text \<open>
  C38. A stream whose plan is withdrawn goes on recording:
  \<open>diffStorePlan\<close> compares an iterator of \<open>curPlans_\<close> with \<open>prePlans_.end()\<close>, so \<open>delPlans_\<close>
  stays empty, and no later plan check stops the stream.
\<close>

theorem removed_plan_keeps_recording:
  assumes "sessions_ok w" "plans_ok w" "stream_exists k w" "prep_left env = 0" "tm_wday < 7"
    and "\<forall>info \<in> set (sp_infos msg). info_ok info \<and> i_streamid info \<noteq> k"
    and "created w + length (sp_infos msg) < 2 ^ 64"
  shows "\<exists>w1 w2. updateStorePlan msg w = Inr w1 \<and> delPlans w1 = [] \<and> map_of (curPlans w1) k = None \<and>
           checkStorePlan P env tm_wday tm_hour w1 = Inr w2 \<and> stream_exists k w2"
proof -
  have ok: "\<forall>info \<in> set (sp_infos msg). info_ok info" using assms(6) by blast
  obtain w1 where w1: "updateStorePlan msg w = Inr w1" using updateStorePlan_ok [OF ok] by blast
  note w1' = w1 [unfolded updateStorePlan_ok [OF ok]]
  have p1: "plans_ok w1" by (rule updateStorePlan_plans_ok [OF assms(2) ok w1])
  have s1: "sessions_ok w1" "created w1 = created w" "stream_exists k w1"
    using assms(1,3) w1' by (auto simp: sessions_ok_def out_ok_def created_def stream_exists_def)
  have "length (plan_puts (sp_infos msg) []) \<le> length (sp_infos msg)"
    unfolding plan_puts_def by (rule order_trans [OF length_fold_mput]) simp
  then have len: "created w1 + length (curPlans w1) < 2 ^ 64" using s1(2) assms(7) w1' by auto
  have "map_of (curPlans w1) k = None"
  proof (cases "sp_empty msg")
    case True
    then show ?thesis using w1' by auto
  next
    case False
    then have "map_of (curPlans w1) k = map_of (plan_puts (sp_infos msg) []) k" using w1' by auto
    moreover have "map_of (rev (map (\<lambda>info. (i_streamid info, plan_of info)) (sp_infos msg))) k = None"
      using assms(6) by (auto simp: map_of_eq_None_iff)
    ultimately show ?thesis by (simp add: plan_puts_lookup)
  qed
  then show ?thesis
    using checkStorePlan_ok [OF s1(1) p1 assms(4,5) len, of P tm_hour] w1 s1(3) p1 by (auto simp: plans_ok_def)
qed

definition demo_recording :: mgr where
  "demo_recording = (case createStream demo_pb demo_env ''cam'' demo_mgr of Inr w \<Rightarrow> w | Inl _ \<Rightarrow> demo_mgr)"

lemma demo_recording_ok:
  "createStream demo_pb demo_env ''cam'' demo_mgr = Inr demo_recording" "sessions_ok demo_recording"
  "plans_ok demo_recording" "stream_exists ''cam'' demo_recording" "created demo_recording = 1"
  "\<exists>i. map_of (storeSess demo_recording) ''cam'' = Some (ses_info_new i)"
proof -
  obtain w i where w: "createStream demo_pb demo_env ''cam'' demo_mgr = Inr w" "sessions_ok w" "same_plans demo_mgr w"
      "delPlans w = delPlans demo_mgr" "storeSess w = mput ''cam'' (ses_info_new i) (storeSess demo_mgr)" "created w = created demo_mgr + 1"
    using createStream_ok [OF demo_mgr_ok(1), of demo_env demo_pb "''cam''"] demo_mgr_ok(2) by (auto simp: demo_env_def)
  then have "demo_recording = w" by (simp add: demo_recording_def)
  then show "createStream demo_pb demo_env ''cam'' demo_mgr = Inr demo_recording" "sessions_ok demo_recording"
    "plans_ok demo_recording" "stream_exists ''cam'' demo_recording" "created demo_recording = 1"
    "\<exists>i. map_of (storeSess demo_recording) ''cam'' = Some (ses_info_new i)"
    using w demo_mgr_ok by (auto simp: plans_ok_def same_plans_def stream_exists_def mhas_def)
qed

theorem removed_plan_keeps_recording_witness:
  "\<exists>w1 w2. updateStorePlan \<lparr>sp_empty = True, sp_infos = []\<rparr> demo_recording = Inr w1 \<and> delPlans w1 = [] \<and>
     map_of (curPlans w1) ''cam'' = None \<and> checkStorePlan demo_pb demo_env 1 12 w1 = Inr w2 \<and> stream_exists ''cam'' w2"
  by (rule removed_plan_keeps_recording [OF demo_recording_ok(2-4)])
     (simp_all add: demo_env_def demo_recording_ok(5))

text \<open>
  An acknowledgement for a stream the manager does not have, whether
  positive or negative, dereferences a null session pointer: \<open>storeSess_[streamid]\<close> inserts session
  id 0, for which the service has no session.
\<close>

theorem ack_for_unknown_stream:
  assumes "sessions_ok w" "\<not> stream_exists k w"
  shows "startStream k p1 p2 er w = Inl NullDeref"
proof -
  obtain sv where sv: "sesService w = Some sv" "service_ok sv" using assms(1) by (auto simp: sessions_ok_def)
  have "map_of (storeSess w) k = None" using assms(2) by (simp add: stream_exists_def mhas_def)
  then show ?thesis
    using sv getStoreSes_0 [OF sv(2)]
    by (simp add: startStream_def ses_at_absent on_session_def stopStore_def startStore_def ses_info_new_def)
qed

theorem ack_for_unknown_stream_witness: "startStream ''cam'' 0 0 0 demo_mgr = Inl NullDeref"
  by (rule ack_for_unknown_stream [OF demo_mgr_ok(1)]) (simp add: stream_exists_def demo_mgr_ok(5))

text \<open>
  C39. A refused invitation brings the store thread into undefined behaviour:
  when the management server answers the invitation of a newly created stream with an error, the
  session is told to close before it was ever attached, and the store thread's next wake-up reads the
  uninitialised \<open>channel_\<close>.
\<close>

theorem refused_invite_corrupts:
  assumes "sessions_ok w" "prep_left env = 0" "created w < 2 ^ 64 - 1" "er \<noteq> 0"
    and "sesService w = Some sv" "items (storeQ sv) = []"
  shows "\<exists>w1 w2 sv2. createStream P env k w = Inr w1 \<and> startStream k p1 p2 er w1 = Inr w2 \<and>
           \<not> stream_exists k w2 \<and> sesService w2 = Some sv2 \<and> store_wake sv2 = Some (Inl UninitRead)"
proof -
  have ok: "service_ok sv" "has_room sv" "mok (storeSess w)" "out_ok w" "msConn w"
    using assms(1,3,5) by (auto simp: sessions_ok_def has_room_def created_def)
  obtain i sv1 where n: "newStoreSes (bind_of env (mport w)) 0 (mport w) sv = (i, sv1)" by fastforce
  obtain sv2 where sv2: "stopStore (getStoreSes i sv1) sv1 = Inr sv2" "store_wake sv2 = Some (Inl UninitRead)"
    using stop_unattached [OF ok(1,2) assms(6) n] by blast
  have i: "i \<noteq> 0" using ses.new_room [OF ok(1,2) n] by simp
  let ?w = "w\<lparr>sesService := Some sv1, storeSess := mput k (ses_info_new i) (storeSess w)\<rparr>"
  obtain w1 where w1: "inviteStream P k (mport w) ?w = Inr w1" "same_mgr ?w w1"
    using inviteStream_ok [of ?w P k "mport w"] ok(4,5) by (auto simp: out_ok_def)
  let ?w1 = "w1\<lparr>mport := mport w1 + portInterval w1\<rparr>"
  have c: "createStream P env k w = Inr ?w1"
    using assms(2,5) n i w1(1) by (simp add: createStream_def)
  have "map_of (storeSess ?w1) k = Some (ses_info_new i)" "sesService ?w1 = Some sv1"
    using w1(2) ok(3) by (simp_all add: same_mgr_def)
  then have "startStream k p1 p2 er ?w1 = Inr (?w1\<lparr>sesService := Some sv2, storeSess := mdel k (storeSess ?w1)\<rparr>)"
    using assms(4) sv2(1) by (simp add: startStream_def ses_at_present on_session_def ses_info_new_def)
  then show ?thesis using c sv2(2) by (auto simp: stream_exists_def)
qed

theorem refused_invite_corrupts_witness:
  "\<exists>w1 w2 sv2. createStream demo_pb demo_env ''cam'' demo_mgr = Inr w1 \<and> startStream ''cam'' 0 0 1 w1 = Inr w2 \<and>
     \<not> stream_exists ''cam'' w2 \<and> sesService w2 = Some sv2 \<and> store_wake sv2 = Some (Inl UninitRead)"
  by (rule refused_invite_corrupts [OF demo_mgr_ok(1) _ _ _ demo_mgr_ok(8)])
     (simp_all add: demo_env_def demo_mgr_ok service_new_def sq_new_def)

text \<open>
  The head of a bye message carries the stream's two parameters one field
  too early: \<open>byeStream\<close> passes \<open>para1, para2, 0\<close> where \<open>encode\<close> takes the error, \<open>para1\<close>
  and \<open>para2\<close>, so the receiver reads \<open>para1\<close> as an error code.
\<close>

theorem bye_shifts_parameters:
  assumes "sessions_ok w" "map_of (storeSess w) k = Some i" "registered (reg w) ''MS_DS.Bye'' c"
  shows "\<exists>w' head. byeStream k w = Inr w' \<and> stream w' = stream w @ head \<and> length head = 20 \<and>
           read_head head = \<lparr>cmd = c, hlength = 0, err = ses_para1 i, para1 = ses_para2 i, para2 = 0\<rparr>"
proof -
  have w: "msConn w" "out_ok w" using assms(1) by (auto simp: sessions_ok_def)
  obtain w' where "byeStream k w = Inr w'" "stream w' = stream w @ ext_frame c (ses_para1 i) (ses_para2 i) 0 []"
    using byeStream_ok [OF w assms(2)] registered_lookup(1) [OF assms(3)] by auto
  then show ?thesis using read_head_frame [of c "ses_para1 i" "ses_para2 i" 0 "[]" "[]"] by auto
qed

theorem bye_shifts_parameters_witness:
  "\<exists>w' head. byeStream ''cam'' (demo_mgr\<lparr>storeSess := [(''cam'', \<lparr>sessionId = 1, ses_para1 = 8, ses_para2 = 9\<rparr>)],
       sesService := Some (snd (newStoreSes (7, 0, 0) 0 3000 service_new)), reg := onCodec 5 ''MS_DS.Bye'' reg_new\<rparr>) = Inr w' \<and>
     stream w' = stream (demo_mgr\<lparr>storeSess := [(''cam'', \<lparr>sessionId = 1, ses_para1 = 8, ses_para2 = 9\<rparr>)],
       sesService := Some (snd (newStoreSes (7, 0, 0) 0 3000 service_new)), reg := onCodec 5 ''MS_DS.Bye'' reg_new\<rparr>) @ head \<and>
     length head = 20 \<and>
     read_head head = \<lparr>cmd = 5, hlength = 0, err = ses_para1 \<lparr>sessionId = 1, ses_para1 = 8, ses_para2 = 9\<rparr>,
       para1 = ses_para2 \<lparr>sessionId = 1, ses_para1 = 8, ses_para2 = 9\<rparr>, para2 = 0\<rparr>"
proof (rule bye_shifts_parameters)
  have n: "newStoreSes (7, 0, 0) 0 3000 service_new = (1, snd (newStoreSes (7, 0, 0) 0 3000 service_new))"
    "storeSesCount service_new < maxStoreConn service_new" "length (heap service_new) < 2 ^ 64 - 1"
    by (simp_all add: newStoreSes_def service_new_def)
  note new = newStoreSes_ok [OF service_new_ok n(2,3,1)]
  have "storeSesCount service_new = 0" "maxStoreConn service_new = 200" by (simp_all add: service_new_def)
  then show "sessions_ok (demo_mgr\<lparr>storeSess := [(''cam'', \<lparr>sessionId = 1, ses_para1 = 8, ses_para2 = 9\<rparr>)],
       sesService := Some (snd (newStoreSes (7, 0, 0) 0 3000 service_new)), reg := onCodec 5 ''MS_DS.Bye'' reg_new\<rparr>)"
    using new(1,4,7,8) demo_mgr_ok(1) by (simp add: sessions_ok_def mok_Cons out_ok_def)
qed (simp_all add: registered_onCodec reg_new_ok)

text \<open>
  The limit of 200 store sessions is never reached: creating any
  number of streams succeeds, because only \<open>startStoreSes\<close> counts sessions and the manager does not
  use it; each attempt takes the next port, ten further, so that two attempts get the same port
  exactly when their numbers differ by a multiple of 32768.
\<close>

theorem session_limit_not_enforced:
  assumes "sessions_ok w" "prep_left env = 0" "created w + length ss < 2 ^ 64" "mport w = 3000" "portInterval w = 10"
  shows "\<exists>w'. run_list (createStream P env) ss w = Inr w' \<and> created w' = created w + length ss \<and>
           mport w' = 3000 + of_nat (length ss) * 10 \<and> sessions_ok w' \<and>
           (\<forall>i j. (3000 + of_nat i * 10 = (3000 + of_nat j * 10 :: 16 word)) \<longleftrightarrow> i mod 32768 = j mod 32768)"
  using create_all_ok [OF assms(1-3), of P] assms(4,5) port_period by auto

theorem session_limit_not_enforced_witness:
  "\<exists>w'. run_list (createStream demo_pb demo_env) (replicate 1000 ''cam'') demo_mgr = Inr w' \<and> created w' = 1000"
  using session_limit_not_enforced [OF demo_mgr_ok(1), of demo_env "replicate 1000 ''cam''" demo_pb] demo_mgr_ok(2-4)
  by (auto simp: demo_env_def)

text \<open>
  \<open>stopAllStream\<close> is undefined for every non-empty set of streams: its
  range loop erases, through \<open>stopStream\<close>, the very element it stands on.
\<close>

theorem stop_all_invalid_iterator:
  assumes "sessions_ok w" "storeSess w \<noteq> []"
  shows "stopAllStream w = Inl IterInvalid"
proof -
  obtain k i rest where s: "storeSess w = (k, i) # rest" using assms(2) by (cases "storeSess w") auto
  then obtain w1 where w1: "stopStream k w = Inr w1" "storeSess w1 = mdel k (storeSess w)"
    using stopStream_ok [OF assms(1), of k i] by auto
  have "k \<notin> set (map fst (storeSess w1))" by (auto simp: w1(2) mdel_def)
  then show ?thesis using w1(1) by (simp add: stopAllStream_def s)
qed

theorem stop_all_invalid_iterator_witness: "stopAllStream demo_recording = Inl IterInvalid"
proof (rule stop_all_invalid_iterator [OF demo_recording_ok(2)])
  show "storeSess demo_recording \<noteq> []" using demo_recording_ok(6) by auto
qed

text \<open>
  A stopped stream's session is never released: after \<open>stopStream\<close> the
  stream is gone from the manager, but the service still holds its session under its id, and only the
  close task has been queued for it.
\<close>

theorem stop_leaks_session:
  assumes "sessions_ok w" "map_of (storeSess w) k = Some i" "sesService w = Some sv"
  shows "\<exists>w' sv' a. stopStream k w = Inr w' \<and> \<not> stream_exists k w' \<and> sesService w' = Some sv' \<and>
           getStoreSes (sessionId i) sv' = Some a \<and> heap sv' = heap sv \<and>
           items (storeQ sv') = items (storeQ sv) @ [(a, CloseUDP)]"
proof -
  have w: "msConn w" "out_ok w" "service_ok sv" "getStoreSes (sessionId i) sv \<noteq> None"
    using assms by (auto simp: sessions_ok_def)
  then obtain a where a: "getStoreSes (sessionId i) sv = Some a" by auto
  obtain w1 where w1: "byeStream k w = Inr w1" "same_mgr w w1" using byeStream_ok [OF w(1,2) assms(2)] by blast
  have m: "map_of (storeSess w1) k = Some i" "sesService w1 = Some sv" using assms(2,3) w1(2) by (simp_all add: same_mgr_def)
  have "stopStream k w = Inr (w1\<lparr>sesService := Some (post_task a CloseUDP sv), storeSess := mdel k (storeSess w1)\<rparr>)"
    using w1(1) m a by (simp add: stopStream_def ses_at_present on_session_def stopStore_def)
  then show ?thesis using a w(3) post_task_q [of sv a CloseUDP] by (auto simp: stream_exists_def service_ok_def)
qed

theorem stop_leaks_session_witness:
  "\<exists>w'. stopStream ''cam'' demo_recording = Inr w' \<and> \<not> stream_exists ''cam'' w'"
proof -
  obtain i where i: "map_of (storeSess demo_recording) ''cam'' = Some (ses_info_new i)" using demo_recording_ok(6) by blast
  obtain sv where sv: "sesService demo_recording = Some sv" using demo_recording_ok(2) by (auto simp: sessions_ok_def)
  show ?thesis using stop_leaks_session [OF demo_recording_ok(2) i sv] by blast
qed

end
