(* ===== verification/Server.thy ===== *)
theory Server
  imports Streams
begin

text \<open>
  \<open>DSServer\<close> (\<open>src/src/service/DSServer.cc\<close>): the registration of codes and handlers, the
  connection to the management server with its two callbacks, and the periodic plan check. The
  server's callbacks are user callbacks of \<open>TcpConn\<close>, so the connection's life-cycle results apply
  to them through the interpretation of its user interface.
\<close>

section \<open>The server\<close>

definition MSG_DS_MS_INVITE_CAMERA :: "32 word" where "MSG_DS_MS_INVITE_CAMERA = 0x1005"
definition MSG_DS_MS_INVITE_CAMERA_ACK :: "32 word" where "MSG_DS_MS_INVITE_CAMERA_ACK = 0x1006"
definition MSG_DS_MS_STORE_FINISH :: "32 word" where "MSG_DS_MS_STORE_FINISH = 0x1013"
definition MSG_MS_DS_STOREPLAN :: "32 word" where "MSG_MS_DS_STOREPLAN = 0x610"
definition MSG_MS_DS_DSREGISTER :: "32 word" where "MSG_MS_DS_DSREGISTER = 0x611"
definition MSG_MS_DS_DSREGISTERACK :: "32 word" where "MSG_MS_DS_DSREGISTERACK = 0x612"

text \<open>The \<open>onCodec\<close> calls of \<open>initAdmin\<close> on the static maps.\<close>

definition init_codec :: "registry \<Rightarrow> registry" where
  "init_codec r =
     onCodec MSG_DS_MS_STORE_FINISH ''MS_DS.Bye''
     (onCodec MSG_DS_MS_INVITE_CAMERA_ACK ''MS_DS.ReadyStoreStreamInfoACK''
     (onCodec MSG_DS_MS_INVITE_CAMERA ''MS_DS.ReadyStoreStreamInfo''
     (onCodec MSG_MS_DS_STOREPLAN ''MS_DS.StorePlan''
     (onCodec MSG_MS_DS_DSREGISTERACK ''MS_DS.DSRegisterACK''
     (onCodec MSG_MS_DS_DSREGISTER ''MS_DS.DSRegister'' r)))))"

text \<open>The \<open>onMsg\<close> calls; a failing \<open>dynamic_cast\<close> gives a null message, which the handlers
  dereference.\<close>

definition ds_handlers :: "(ms_msg, mgr) handlers" where
  "ds_handlers =
     onMsg ''MS_DS.ReadyStoreStreamInfoACK'' (\<lambda>info m w. case m of
         ReadyStoreStreamInfoACK stm \<Rightarrow> startStream stm (para1 info) (para2 info) (err info) w
       | _ \<Rightarrow> Inl NullDeref)
     (onMsg ''MS_DS.StorePlan'' (\<lambda>info m w. case m of StorePlan sp \<Rightarrow> updateStorePlan sp w | _ \<Rightarrow> Inl NullDeref)
     (onMsg ''MS_DS.DSRegisterACK'' (\<lambda>info m w. case m of DSRegisterACK _ \<Rightarrow> Inr w | _ \<Rightarrow> Inl NullDeref) []))"

definition initAdmin :: "conn \<Rightarrow> registry \<Rightarrow> mgr" where
  "initAdmin c r = mgr_new c (init_codec r)"

definition initStore :: "mgr \<Rightarrow> mgr" where
  "initStore w = setSesServicePtr service_new w"

text \<open>\<open>registerToMS\<close>: the connection with its reconnect interval; \<open>fd\<close> is the new socket. The two
  callbacks it installs follow.\<close>

definition registerToMS :: "int \<Rightarrow> int \<Rightarrow> mgr \<Rightarrow> mgr res" where
  "registerToMS fd port w =
     rbind (connect fd port 0 w) (\<lambda>w'. Inr (w'\<lparr>reconnectInterval := 5 * 1000\<rparr>))"

definition ms_state :: "ms_msg protobuf \<Rightarrow> string \<Rightarrow> 32 word \<Rightarrow> 32 word \<Rightarrow> mgr \<Rightarrow> mgr res" where
  "ms_state P ip port pid w =
     (if tstate w = Connected
      then rbind (encode_msg P (DSRegister ip port pid) 0 0 0 (outb w) (reg w)) (\<lambda>(out, r).
           rbind (sendOutput (w\<lparr>outb := out, reg := r\<rparr>)) (\<lambda>w'. Inr (setMSConn w')))
      else Inr w)"

definition ms_read :: "ms_msg protobuf \<Rightarrow> string \<Rightarrow> mgr \<Rightarrow> mgr res" where
  "ms_read P junk w =
     (if msgComplete (inb w)
      then rbind (decode P junk (inb w) head_new (reg w)) (\<lambda>(msg, info, inp, r).
             let w1 = w\<lparr>inb := inp, reg := r\<rparr> in
             if msg \<noteq> None \<or> hlength info = 0 then handle P ds_handlers info msg w1 else Inr w1)
      else Inr w)"

section \<open>The server as a user of its connection\<close>

text \<open>\<open>fine w w'\<close>: what a user callback may do to its connection, between two states.\<close>

definition fine :: "mgr \<Rightarrow> mgr \<Rightarrow> bool" where
  "fine w w' \<longleftrightarrow> (out_ok w \<longrightarrow> out_ok w' \<and> same_life w w')"

lemma keeps_fine: "keeps f \<longleftrightarrow> (\<forall>w w'. f w = Inr w' \<longrightarrow> fine w w')"
  by (auto simp: keeps_def fine_def)

lemma fine_refl [simp]: "fine w w"
  by (simp add: fine_def)

lemma fine_trans: "fine a b \<Longrightarrow> fine b c \<Longrightarrow> fine a c"
  by (simp add: fine_def same_life_def)

text \<open>Changes to the manager's own fields.\<close>

lemma fine_fields [simp]:
  "fine w (w'\<lparr>storeSess := a\<rparr>) = fine w w'" "fine w (w'\<lparr>sesService := b\<rparr>) = fine w w'"
  "fine w (w'\<lparr>curPlans := d\<rparr>) = fine w w'" "fine w (w'\<lparr>prePlans := d\<rparr>) = fine w w'"
  "fine w (w'\<lparr>delPlans := d\<rparr>) = fine w w'" "fine w (w'\<lparr>mport := e\<rparr>) = fine w w'"
  "fine w (w'\<lparr>reg := r\<rparr>) = fine w w'" "fine w (w'\<lparr>inb := x\<rparr>) = fine w w'"
  "fine w (w'\<lparr>msConn := y\<rparr>) = fine w w'"
  by (simp_all add: fine_def out_ok_def same_life_def)

lemma fine_ses_at: "ses_at stm w = (i, w') \<Longrightarrow> fine w w'"
  by (auto simp: ses_at_def split: prod.splits)

lemma fine_send:
  assumes "sendOutput (w\<lparr>outb := out, reg := r\<rparr>) = Inr w'" "out_ok w \<Longrightarrow> buffer_ok out"
  shows "fine w w'"
proof (cases "out_ok w")
  case True
  let ?w = "w\<lparr>outb := out, reg := r\<rparr>"
  have "out_ok ?w" using assms(2) True by (simp add: out_ok_def)
  then show ?thesis using sendOutput_spec [of ?w] assms(1) by (auto simp: fine_def same_life_def)
qed (simp add: fine_def)

lemma encode_out:
  "encode_msg P m e p1 p2 (outb w) r = Inr (out, r') \<Longrightarrow> out_ok w \<Longrightarrow> buffer_ok out"
  "encode_name t e p1 p2 (outb w) r = Inr (out, r') \<Longrightarrow> out_ok w \<Longrightarrow> buffer_ok out"
  using encode_total(1) [of "outb w" P m e p1 p2 r] encode_total(2) [of "outb w" t e p1 p2 r]
  by (auto simp: out_ok_def)

lemma fine_invite: "inviteStream P stm port w = Inr w' \<Longrightarrow> fine w w'"
  by (auto simp: inviteStream_def split: if_splits dest: encode_out(1) intro: fine_send)

lemma fine_bye:
  assumes "byeStream stm w = Inr w'"
  shows "fine w w'"
proof -
  obtain i w1 where s: "ses_at stm w = (i, w1)" by (cases "ses_at stm w")
  obtain out r where "encode_name ''MS_DS.Bye'' (ses_para1 i) (ses_para2 i) 0 (outb w1) (reg w1) = Inr (out, r)"
      "sendOutput (w1\<lparr>outb := out, reg := r\<rparr>) = Inr w'"
    using assms by (auto simp: byeStream_def s split: if_splits)
  then have "fine w1 w'" using encode_out(2) by (blast intro: fine_send)
  then show ?thesis using fine_ses_at [OF s] fine_trans by blast
qed

lemma fine_on_session: "on_session f i w = Inr w' \<Longrightarrow> fine w w'"
  by (auto simp: on_session_def split: option.splits)

lemma fine_stop:
  assumes "stopStream stm w = Inr w'"
  shows "fine w w'"
proof -
  obtain w1 where w1: "byeStream stm w = Inr w1" using assms by (auto simp: stopStream_def)
  obtain i w2 where s: "ses_at stm w1 = (i, w2)" by (cases "ses_at stm w1")
  obtain w3 where "on_session stopStore (sessionId i) w2 = Inr w3" "w' = w3\<lparr>storeSess := mdel stm (storeSess w3)\<rparr>"
    using assms w1 s by (auto simp: stopStream_def)
  then have "fine w2 w'" using fine_on_session by simp
  then show ?thesis using fine_bye [OF w1] fine_ses_at [OF s] fine_trans by blast
qed

lemma fine_create:
  assumes "createStream P env stm w = Inr w'"
  shows "fine w w'"
proof -
  obtain sv i sv' where e: "sesService w = Some sv"
      "newStoreSes (bind_of env (mport w)) (prep_left env) (mport w) sv = (i, sv')"
    using assms by (auto simp: createStream_def split: option.splits prod.splits)
  let ?w1 = "w\<lparr>sesService := Some sv'\<rparr>"
  have "fine w w2" if "inviteStream P stm (mport w) (?w1\<lparr>storeSess := m\<rparr>) = Inr w2" for m w2
    using fine_invite [OF that] fine_trans [of w "?w1\<lparr>storeSess := m\<rparr>" w2] by simp
  then show ?thesis using assms e by (auto simp: createStream_def Let_def split: if_splits)
qed

lemma fine_start:
  assumes "startStream stm p1 p2 er w = Inr w'"
  shows "fine w w'"
proof -
  obtain i w1 where s: "ses_at stm w = (i, w1)" by (cases "ses_at stm w")
  have "fine w w2" if "on_session f j (w1\<lparr>storeSess := m\<rparr>) = Inr w2" for f j m w2
    using fine_on_session [OF that] fine_ses_at [OF s] fine_trans [of w "w1\<lparr>storeSess := m\<rparr>" w2] by simp
  moreover have "fine w w2" if "on_session f j w1 = Inr w2" for f j w2
    using fine_on_session [OF that] fine_ses_at [OF s] fine_trans by blast
  ultimately show ?thesis using assms by (auto simp: startStream_def s split: if_splits)
qed

lemma fine_update:
  assumes "updateStorePlan sp w = Inr w'"
  shows "fine w w'"
proof -
  have "fine w w2" if "add_plans infos w1 = Inr w2" "fine w w1" for infos w1 w2
    using that by (induction infos w1 rule: add_plans.induct) auto
  from this [of "sp_infos sp" "w\<lparr>prePlans := curPlans w, curPlans := []\<rparr>"] show ?thesis
    using assms by (auto simp: updateStorePlan_def diffStorePlan_nop split: if_splits)
qed

lemma fine_check_plan: "check_plan P env day hour p w = Inr w' \<Longrightarrow> fine w w'"
  by (auto simp: check_plan_def split: if_splits dest: fine_create fine_stop
      intro: fine_trans [of w "w\<lparr>delPlans := mdel (streamId p) (delPlans w)\<rparr>"])

lemma fine_check_plans: "check_plans P env day hour ps w = Inr w' \<Longrightarrow> fine w w'"
  by (induction ps arbitrary: w) (auto dest: fine_check_plan intro: fine_trans)

lemma fine_iterate:
  assumes "\<And>k w w'. body k w = Inr w' \<Longrightarrow> fine w w'"
  shows "iterate keys body ks w = Inr w' \<Longrightarrow> fine w w'"
  by (induction ks arbitrary: w) (auto dest!: assms intro: fine_trans split: if_splits)

lemma fine_stop_deleted: "stop_deleted k w = Inr w' \<Longrightarrow> fine w w'"
  by (auto simp: stop_deleted_def split: option.splits dest: fine_stop)

lemma fine_checkStorePlan:
  assumes "checkStorePlan P env d h w = Inr w'"
  shows "fine w w'"
proof -
  obtain w1 where w1: "check_plans P env (getCurDay d) (getCurHour h) (map snd (curPlans w)) w = Inr w1"
      "iterate (\<lambda>w. map fst (delPlans w)) stop_deleted (map fst (delPlans w1)) w1 = Inr w'"
    using assms by (auto simp: checkStorePlan_def)
  have "fine w1 w'" using fine_iterate [of stop_deleted, OF fine_stop_deleted w1(2)] .
  then show ?thesis using fine_check_plans [OF w1(1)] fine_trans by blast
qed

lemma fine_handle: "handle P ds_handlers info msg w = Inr w' \<Longrightarrow> fine w w'"
  by (auto simp: handle_def ds_handlers_def onMsg_def mput_def dest: fine_update fine_start
      split: option.splits if_splits ms_msg.splits)

lemma fine_read: "ms_read P junk w = Inr w' \<Longrightarrow> fine w w'"
  by (auto simp: ms_read_def Let_def split: if_splits dest!: fine_handle
      intro: fine_trans [of w "w\<lparr>inb := _, reg := _\<rparr>"])

lemma fine_state: "ms_state P ip port pid w = Inr w' \<Longrightarrow> fine w w'"
  by (auto simp: ms_state_def setMSConn_def split: if_splits dest!: fine_send dest: encode_out(1))

interpretation ds: conn_user "ms_read P junk" "ms_state P ip port pid" Inr
  by unfold_locales (auto simp: keeps_fine dest: fine_read fine_state)

section \<open>Receiving messages\<close>

lemma ds_handlers_lookup:
  "map_of ds_handlers ''MS_DS.StorePlan'' =
     Some (\<lambda>info m w. case m of StorePlan sp \<Rightarrow> updateStorePlan sp w | _ \<Rightarrow> Inl NullDeref)"
  "map_of ds_handlers ''MS_DS.ReadyStoreStreamInfoACK'' = Some (\<lambda>info m w. case m of
     ReadyStoreStreamInfoACK stm \<Rightarrow> startStream stm (para1 info) (para2 info) (err info) w | _ \<Rightarrow> Inl NullDeref)"
  "map_of ds_handlers ''MS_DS.DSRegisterACK'' = Some (\<lambda>info m w. case m of DSRegisterACK _ \<Rightarrow> Inr w | _ \<Rightarrow> Inl NullDeref)"
  by (simp_all add: ds_handlers_def onMsg_def)

text \<open>The read callback on an input that starts with the frame of a registered message: the message is
  handled, its frame and nothing else is consumed.\<close>

lemma ms_read_frame:
  assumes "buffer_ok (inb w)" "bytes (inb w) = ext_frame c e p1 p2 (serialize P m) @ rest"
    and "registered (reg w) (full_name P m) c" "protobuf_ok P m" "serialize P m \<noteq> []"
  shows "\<exists>inp. buffer_ok inp \<and> bytes inp = rest \<and>
           ms_read P junk w = handle P ds_handlers
             \<lparr>cmd = c, hlength = of_nat (length (serialize P m)), err = e, para1 = p1, para2 = p2\<rparr> (Some m)
             (w\<lparr>inb := inp\<rparr>)"
proof -
  obtain inp where inp: "buffer_ok inp" "bytes inp = rest"
      "decode P junk (inb w) head_new (reg w) = Inr (Some m,
         \<lparr>cmd = c, hlength = of_nat (length (serialize P m)), err = e, para1 = p1, para2 = p2\<rparr>, inp, reg w)"
    using decode_frame [OF assms(1,2,3,4,5), of junk head_new] by blast
  have "msgComplete (inb w)" using assms(1,2) by (simp add: msgComplete_def bsize_bytes)
  moreover have "w\<lparr>inb := inp, reg := reg w\<rparr> = w\<lparr>inb := inp\<rparr>" by (cases w) simp
  ultimately show ?thesis using inp by (auto simp: ms_read_def)
qed

lemma startStream_ok:
  assumes "sessions_ok w" "map_of (storeSess w) stm = Some i"
  shows "\<exists>w'. startStream stm p1 p2 er w = Inr w' \<and> sessions_ok w' \<and> curPlans w' = curPlans w \<and>
           delPlans w' = delPlans w \<and> (stream_exists stm w' \<longleftrightarrow> er = 0)"
proof (cases "er = 0")
  case True
  let ?w = "w\<lparr>storeSess := mput stm (i\<lparr>ses_para1 := p1, ses_para2 := p2\<rparr>) (storeSess w)\<rparr>"
  have m: "mok (storeSess w)" using assms(1) by (simp add: sessions_ok_def)
  have ok: "sessions_ok ?w" using assms m by (auto simp: sessions_ok_def out_ok_def)
  have l: "map_of (storeSess ?w) stm = Some (i\<lparr>ses_para1 := p1, ses_para2 := p2\<rparr>)" using m by simp
  obtain w' sv where "on_session startStore (sessionId i) ?w = Inr w'" "sessions_ok w'" "w' = ?w\<lparr>sesService := Some sv\<rparr>"
    using on_session_ok [OF ok l, of startStore] by auto
  then show ?thesis using True m by (auto simp: startStream_def ses_at_present [OF assms(2)] stream_exists_def)
next
  case False
  obtain w' sv where w': "on_session stopStore (sessionId i) w = Inr w'" "sessions_ok w'" "w' = w\<lparr>sesService := Some sv\<rparr>"
    using on_session_ok [OF assms, of stopStore] by blast
  have "sessions_ok (w'\<lparr>storeSess := mdel stm (storeSess w')\<rparr>)"
    using w'(2) by (auto simp: sessions_ok_def out_ok_def split: if_splits)
  then show ?thesis using False w' by (auto simp: startStream_def ses_at_present [OF assms(2)] stream_exists_def)
qed

section \<open>Sequences of events of the admin thread\<close>

datatype admin_event =
    PlanMsg store_plan
  | PlanCheck nat nat
  | InviteAck string "32 word" "32 word" "32 word"

fun run_event :: "ms_msg protobuf \<Rightarrow> os_env \<Rightarrow> admin_event \<Rightarrow> mgr \<Rightarrow> mgr res" where
  "run_event P env (PlanMsg sp) w = updateStorePlan sp w"
| "run_event P env (PlanCheck d h) w = checkStorePlan P env d h w"
| "run_event P env (InviteAck stm p1 p2 er) w = startStream stm p1 p2 er w"

text \<open>What a correct peer and clock provide: weekdays of the enumeration, a day of the week, answers to
  invitations that are still open; and ids have not run out.\<close>

fun event_ok :: "admin_event \<Rightarrow> mgr \<Rightarrow> bool" where
  "event_ok (PlanMsg sp) w = (\<forall>info \<in> set (sp_infos sp). info_ok info)"
| "event_ok (PlanCheck d h) w = (d < 7 \<and> created w + length (curPlans w) < 2 ^ 64)"
| "event_ok (InviteAck stm p1 p2 er) w = stream_exists stm w"

fun events_ok :: "ms_msg protobuf \<Rightarrow> os_env \<Rightarrow> admin_event list \<Rightarrow> mgr \<Rightarrow> bool" where
  "events_ok P env [] w = True"
| "events_ok P env (ev # evs) w =
     (event_ok ev w \<and> (case run_event P env ev w of Inl _ \<Rightarrow> True | Inr w' \<Rightarrow> events_ok P env evs w'))"

lemma run_event_ok:
  assumes "sessions_ok w" "plans_ok w" "prep_left env = 0" "event_ok ev w"
  shows "\<exists>w'. run_event P env ev w = Inr w' \<and> sessions_ok w' \<and> plans_ok w'"
proof (cases ev)
  case (PlanMsg sp)
  then have ok: "\<forall>info \<in> set (sp_infos sp). info_ok info" using assms(4) by simp
  obtain w' where w': "updateStorePlan sp w = Inr w'" using updateStorePlan_ok [OF ok] by blast
  have "sessions_ok w'" using w' [unfolded updateStorePlan_ok [OF ok]] assms(1)
    by (auto simp: sessions_ok_def out_ok_def)
  then show ?thesis using PlanMsg w' updateStorePlan_plans_ok [OF assms(2) ok w'] by simp
next
  case (PlanCheck d h)
  then show ?thesis using checkStorePlan_ok [OF assms(1-3)] assms(4) by fastforce
next
  case (InviteAck stm p1 p2 er)
  then obtain i where "map_of (storeSess w) stm = Some i" using assms(4) by (auto simp: stream_exists_def mhas_def)
  from startStream_ok [OF assms(1) this, of p1 p2 er] show ?thesis
    using InviteAck assms(2) by (auto simp: plans_ok_def)
qed

lemma run_events_ok:
  "sessions_ok w \<Longrightarrow> plans_ok w \<Longrightarrow> prep_left env = 0 \<Longrightarrow> events_ok P env evs w \<Longrightarrow>
   \<exists>w'. run_list (run_event P env) evs w = Inr w' \<and> sessions_ok w' \<and> plans_ok w'"
proof (induction evs arbitrary: w)
  case Nil
  then show ?case by simp
next
  case (Cons ev evs)
  obtain w1 where "run_event P env ev w = Inr w1" "sessions_ok w1" "plans_ok w1"
    using run_event_ok [OF Cons.prems(1-3), of ev P] Cons.prems(4) by auto
  then show ?case using Cons.IH [of w1] Cons.prems(3,4) by auto
qed

section \<open>Properties\<close>

text \<open>
  \<open>initAdmin\<close> registers every message type the server sends or handles with
  its code in both directions: looking up a type's code and that code's type leads back to the type.
\<close>

theorem codes_registered:
  "registered (init_codec reg_new) ''MS_DS.DSRegister'' 0x611 \<and>
   registered (init_codec reg_new) ''MS_DS.DSRegisterACK'' 0x612 \<and>
   registered (init_codec reg_new) ''MS_DS.StorePlan'' 0x610 \<and>
   registered (init_codec reg_new) ''MS_DS.ReadyStoreStreamInfo'' 0x1005 \<and>
   registered (init_codec reg_new) ''MS_DS.ReadyStoreStreamInfoACK'' 0x1006 \<and>
   registered (init_codec reg_new) ''MS_DS.Bye'' 0x1013"
  by (simp add: init_codec_def registered_onCodec onCodec_ok reg_new_ok MSG_DS_MS_INVITE_CAMERA_def
      MSG_DS_MS_INVITE_CAMERA_ACK_def MSG_DS_MS_STORE_FINISH_def MSG_MS_DS_STOREPLAN_def
      MSG_MS_DS_DSREGISTER_def MSG_MS_DS_DSREGISTERACK_def)

text \<open>
  C5. The life cycle of the server's connection, under any interleaving of
  dialling, read and write events, connect timeouts, closes, reconnect timers and the server's own
  tasks: a channel exists exactly while handshaking or connected, a reconnect is pending only after
  the connection closed or failed, a connection that reconnects has a destination, and the output
  buffer stays well formed.
\<close>

theorem connection_life_cycle:
  assumes "conn_reach (ms_read P junk) (ms_state P ip port pid) Inr w"
  shows "(chan w \<noteq> None \<longleftrightarrow> tstate w = Handshaking \<or> tstate w = Connected) \<and>
         (reconnecting w \<longrightarrow> tstate w = Closed \<or> tstate w = Failed) \<and>
         (0 \<le> reconnectInterval w \<and> tstate w \<noteq> Invalid \<longrightarrow> 0 < destPort w) \<and> buffer_ok (outb w)"
  using ds.conn_reach_inv [OF assms] by (simp add: conn_inv_def out_ok_def)

lemma fresh_reach:
  "conn_reach (ms_read demo_pb []) (ms_state demo_pb [] 0 0) Inr (initAdmin ((conn_new [] [])\<lparr>reconnectInterval := 5000\<rparr>) reg_new)"
  by (rule conn_reach.init [where ws = "[]" and rs = "[]" and ri = 5000])
     (simp add: initAdmin_def mgr_new_def conn.defs conn_new_def)

theorem connection_life_cycle_witness:
  "chan (initAdmin ((conn_new [] [])\<lparr>reconnectInterval := 5000\<rparr>) reg_new) = None \<and>
   buffer_ok (outb (initAdmin ((conn_new [] [])\<lparr>reconnectInterval := 5000\<rparr>) reg_new))"
  using connection_life_cycle [OF fresh_reach]
  by (simp add: initAdmin_def mgr_new_def conn.defs conn_new_def)


text \<open>A protobuf library that knows an empty plan list and the registration messages, for concrete
  instances.\<close>

definition plan_pb :: "ms_msg protobuf" where
  "plan_pb = \<lparr>full_name = ms_name, serialize = (\<lambda>m. ''p''),
     known_type = (\<lambda>t. t \<noteq> ''''), parse = (\<lambda>t s. if t = ''MS_DS.StorePlan'' then Some (StorePlan \<lparr>sp_empty = False, sp_infos = []\<rparr>)
       else if t = ''MS_DS.DSRegisterACK'' then Some (DSRegisterACK 1) else None)\<rparr>"

definition demo_server :: mgr where
  "demo_server = demo_mgr\<lparr>reg := init_codec reg_new\<rparr>"

lemma demo_server_simps:
  "tstate demo_server = Connected" "fd_open demo_server" "has_cbs demo_server" "inb demo_server = buf_new"
  "reg demo_server = init_codec reg_new" "sessions_ok demo_server" "plans_ok demo_server" "created demo_server = 0"
  "outb demo_server = buf_new" "storeSess demo_server = []" "curPlans demo_server = []"
  using demo_mgr_ok
  by (simp_all add: demo_server_def sessions_ok_def out_ok_def plans_ok_def created_def)
     (simp_all add: demo_mgr_def setMSConn_def setSesServicePtr_def mgr_new_def conn.defs idle_conn_def conn_new_def fd_open_def)

lemma init_codec_registered:
  "registered (init_codec reg_new) ''MS_DS.StorePlan'' 0x610" "registered (init_codec reg_new) ''MS_DS.DSRegister'' 0x611"
  "registered (init_codec reg_new) ''MS_DS.DSRegisterACK'' 0x612"
  by (simp_all add: init_codec_def registered_onCodec onCodec_ok reg_new_ok MSG_DS_MS_INVITE_CAMERA_def
      MSG_DS_MS_INVITE_CAMERA_ACK_def MSG_DS_MS_STORE_FINISH_def MSG_MS_DS_STOREPLAN_def
      MSG_MS_DS_DSREGISTER_def MSG_MS_DS_DSREGISTERACK_def)


text \<open>
  The read callback handles one message per read event: when two complete
  frames have arrived, the second stays in the input, unhandled, until the peer sends something else.
\<close>

theorem one_message_per_read:
  assumes "buffer_ok (inb w)" "bytes (inb w) = ext_frame c e p1 p2 (serialize P (DSRegisterACK g)) @ next"
    and "full_name P (DSRegisterACK g) = ''MS_DS.DSRegisterACK''" "registered (reg w) ''MS_DS.DSRegisterACK'' c"
    and "protobuf_ok P (DSRegisterACK g)" "serialize P (DSRegisterACK g) \<noteq> []"
  shows "\<exists>inp. ms_read P junk w = Inr (w\<lparr>inb := inp\<rparr>) \<and> bytes inp = next"
proof -
  have r: "registered (reg w) (full_name P (DSRegisterACK g)) c" using assms(3,4) by simp
  show ?thesis
    using ms_read_frame [OF assms(1,2) r assms(5,6), of junk]
    by (auto simp: handle_def assms(3) ds_handlers_lookup)
qed

theorem one_message_per_read_witness:
  "\<exists>inp. ms_read plan_pb [] (demo_server\<lparr>inb := full_buf (ext_frame 0x612 0 0 0 ''p'' @ ext_frame 0x610 0 0 0 ''p'')\<rparr>) =
       Inr (demo_server\<lparr>inb := full_buf (ext_frame 0x612 0 0 0 ''p'' @ ext_frame 0x610 0 0 0 ''p'')\<rparr>\<lparr>inb := inp\<rparr>) \<and>
     bytes inp = ext_frame 0x610 0 0 0 ''p''"
proof (rule one_message_per_read [where c = "0x612" and e = 0 and ?p1.0 = 0 and ?p2.0 = 0 and g = 1])
  show "registered (reg (demo_server\<lparr>inb := full_buf (ext_frame 0x612 0 0 0 ''p'' @ ext_frame 0x610 0 0 0 ''p'')\<rparr>))
      ''MS_DS.DSRegisterACK'' 0x612"
    using init_codec_registered(3) demo_server_simps(5) by simp
qed (simp_all add: plan_pb_def protobuf_ok_def)

text \<open>
  Any message without a body crashes the server: \<open>decode\<close> returns no
  message for a length of 0 and the read callback passes the null pointer to the dispatcher, which
  dereferences it. The peer needs 20 bytes for it, whatever the command.
\<close>

theorem empty_body_crashes:
  assumes "buffer_ok (inb w)" "bytes (inb w) = ext_frame c e p1 p2 [] @ rest"
  shows "ms_read P junk w = Inl NullDeref"
proof -
  have h: "read_head (bytes (inb w)) = \<lparr>cmd = c, hlength = 0, err = e, para1 = p1, para2 = p2\<rparr>"
    using read_head_frame [of c e p1 p2 "[]" rest] by (simp add: assms(2))
  have "20 \<le> bsize (inb w)" using assms by (simp add: bsize_bytes)
  then show ?thesis by (simp add: ms_read_def msgComplete_def decode_def h handle_def)
qed

theorem empty_body_crashes_witness:
  "ms_read plan_pb [] (demo_server\<lparr>inb := full_buf (ext_frame 0x612 0 0 0 [])\<rparr>) = Inl NullDeref"
  by (rule empty_body_crashes [where c = "0x612" and e = 0 and ?p1.0 = 0 and ?p2.0 = 0 and rest = "[]"]) simp_all

text \<open>
  A message with an unknown command blocks the connection for good: it is
  not consumed, so the input keeps starting with it and every later message behind it, however much
  has arrived, is left unhandled and the plans and streams stay as they are.
\<close>

theorem unknown_command_blocks:
  assumes "buffer_ok (inb w)" "bytes (inb w) = ext_frame c e p1 p2 body @ later" "body \<noteq> []" "length body < 2 ^ 31"
    and "map_of (cmd2Type (reg w)) c = None" "\<not> known_type P ''''"
  shows "\<exists>w'. ms_read P junk w = Inr w' \<and> inb w' = inb w \<and> same_mgr w w'"
proof -
  have h: "read_head (bytes (inb w)) = \<lparr>cmd = c, hlength = of_nat (length body), err = e, para1 = p1, para2 = p2\<rparr>"
    by (simp add: assms(2) read_head_frame)
  have "unat (of_nat (length body) :: 32 word) = length body" using assms(4) by (simp add: unat_of_nat take_bit_eq_mod)
  then have nz: "(of_nat (length body) :: 32 word) \<noteq> 0" using assms(3) by (metis length_0_conv unat_0)
  have "20 \<le> bsize (inb w)" using assms(1,2) by (simp add: bsize_bytes)
  then show ?thesis using nz assms(5,6)
    by (auto simp: ms_read_def msgComplete_def decode_def h getType_def mindex_absent same_mgr_def)
qed

theorem unknown_command_blocks_witness:
  "\<exists>w'. ms_read plan_pb [] (demo_server\<lparr>inb := full_buf (ext_frame 1 0 0 0 ''p'' @ ext_frame 0x610 0 0 0 ''p'')\<rparr>) = Inr w' \<and>
     inb w' = inb (demo_server\<lparr>inb := full_buf (ext_frame 1 0 0 0 ''p'' @ ext_frame 0x610 0 0 0 ''p'')\<rparr>) \<and>
     same_mgr (demo_server\<lparr>inb := full_buf (ext_frame 1 0 0 0 ''p'' @ ext_frame 0x610 0 0 0 ''p'')\<rparr>) w'"
proof (rule unknown_command_blocks [where c = 1 and e = 0 and ?p1.0 = 0 and ?p2.0 = 0 and body = "''p''"
      and later = "ext_frame 0x610 0 0 0 ''p''"])
  show "map_of (cmd2Type (reg (demo_server\<lparr>inb := full_buf (ext_frame 1 0 0 0 ''p'' @ ext_frame 0x610 0 0 0 ''p'')\<rparr>))) 1 = None"
    by (simp add: demo_server_simps init_codec_def onCodec_def reg_new_def MSG_DS_MS_INVITE_CAMERA_def
      MSG_DS_MS_INVITE_CAMERA_ACK_def MSG_DS_MS_STORE_FINISH_def MSG_MS_DS_STOREPLAN_def
      MSG_MS_DS_DSREGISTER_def MSG_MS_DS_DSREGISTERACK_def)
qed (simp_all add: plan_pb_def)

text \<open>
  Coming up, and after every reconnect, the server announces itself first:
  when the handshake completes, the registration message with the server's address is the next frame
  of the output stream, behind what was already queued, and the stream manager has its connection.
\<close>

theorem registers_on_connect:
  assumes "tstate w = Handshaking" "chan w = Some ch" "has_cbs w" "out_ok w"
    and "registered (reg w) (full_name P (DSRegister ip port pid)) c"
  shows "\<exists>w'. handleHandshake (ms_read P junk) (ms_state P ip port pid) ex True w = Inr (False, w') \<and>
           tstate w' = Connected \<and> msConn w' \<and>
           stream w' = stream w @ ext_frame c 0 0 0 (serialize P (DSRegister ip port pid)) \<and>
           (bytes (outb w') = [] \<or> chan_writeEnabled w')"
proof -
  let ?w = "w\<lparr>chan := Some (enableReadWrite True False ch), tstate := Connected\<rparr>"
  have out: "out_ok ?w" "buffer_ok (outb ?w)" using assms(4) by (simp_all add: out_ok_def)
  have r: "registered (reg ?w) (full_name P (DSRegister ip port pid)) c" using assms(5) by simp
  obtain o1 where o1: "encode_msg P (DSRegister ip port pid) 0 0 0 (outb ?w) (reg ?w) = Inr (o1, reg ?w)" "buffer_ok o1"
      "bytes o1 = bytes (outb ?w) @ ext_frame c 0 0 0 (serialize P (DSRegister ip port pid))"
    using encode_msg_frame [OF out(2) r] by blast
  let ?v = "?w\<lparr>outb := o1, reg := reg ?w\<rparr>"
  have "out_ok ?v" using o1(2) by (simp add: out_ok_def)
  then obtain w' where w': "sendOutput ?v = Inr w'" "stream w' = stream ?v" "same_life ?v w'" "chan ?v \<noteq> None \<longrightarrow> flushable w'"
    using sendOutput_spec [of ?v] by blast
  have "stream ?v = stream w @ ext_frame c 0 0 0 (serialize P (DSRegister ip port pid))"
    using o1(3) by (simp add: stream_def)
  moreover have "handleHandshake (ms_read P junk) (ms_state P ip port pid) ex True w = Inr (False, setMSConn w')"
    using assms(1-3) o1(1) w'(1) by (simp add: handleHandshake_def ms_state_def Let_def)
  moreover have "tstate w' = Connected" using w'(3) by (simp add: same_life_def)
  moreover have "flushable w'" using w'(4) by simp
  ultimately show ?thesis using w'(2)
    by (simp add: setMSConn_def stream_def flushable_def chan_writeEnabled_def)
qed

theorem registers_on_connect_witness:
  "\<exists>w'. handleHandshake (ms_read plan_pb []) (ms_state plan_pb ''127.0.0.1'' 2017 1) False True (demo_server\<lparr>tstate := Handshaking\<rparr>) =
       Inr (False, w') \<and> tstate w' = Connected \<and> msConn w'"
proof -
  have c: "chan (demo_server\<lparr>tstate := Handshaking\<rparr>) = Some (new_channel 5 1)"
    by (simp add: demo_server_def demo_mgr_def setMSConn_def setSesServicePtr_def mgr_new_def conn.defs idle_conn_def)
  have r: "registered (reg (demo_server\<lparr>tstate := Handshaking\<rparr>)) (full_name plan_pb (DSRegister ''127.0.0.1'' 2017 1)) 0x611"
    using init_codec_registered(2) demo_server_simps(5) by (simp add: plan_pb_def)
  have o: "has_cbs (demo_server\<lparr>tstate := Handshaking\<rparr>)" "out_ok (demo_server\<lparr>tstate := Handshaking\<rparr>)"
    using demo_server_simps by (simp_all add: out_ok_def)
  show ?thesis using registers_on_connect [OF _ c o r, of "[]" False] by auto
qed



end
