(* ===== verification/Timers.thy ===== *)
theory Timers
  imports Tasks
begin

text \<open>
  The timers of an event loop and its idle connections: \<open>runAt\<close>, \<open>cancel\<close>, \<open>handleTimeouts\<close>,
  \<open>repeatableTimeout\<close>, \<open>refreshNearest\<close>, \<open>loop_once\<close> and the idle lists of \<open>EventsImp\<close>
  (\<open>event_base.cc\<close>).

  A callback is a name of type \<open>'t\<close>; what it does is the parameter \<open>run\<close>, which acts on the
  loop's state and may call any of the operations here. \<open>util::timeMilli\<close> reads the field
  \<open>clock\<close>, which callbacks may advance. Time stamps and sequence numbers are integers: in
  milliseconds they stay far inside 64 bits; \<open>nextTimeout_\<close> is an \<open>int\<close> and is truncated where
  the code truncates it.
\<close>

section \<open>State\<close>

type_synonym timer_id = "int \<times> int"          \<comment> \<open>due time and sequence number\<close>

record 't repeatable =
  r_at :: int
  r_interval :: int
  r_timerid :: timer_id
  r_cb :: 't

text \<open>A pending timer: a callback, or the closure that calls \<open>repeatableTimeout\<close> on a node of
  \<open>timerReps_\<close>, named by its key.\<close>

datatype 't timer_task = Once 't | Repeat timer_id

record 't idle_node =
  n_ref :: nat                                \<comment> \<open>the identity of the list node\<close>
  n_updated :: int
  n_cb :: 't                                  \<comment> \<open>the callback with its connection\<close>

record 't events =
  ev_exit :: bool
  nextTimeout :: int
  timerReps :: "(timer_id \<times> 't repeatable) list"
  timers :: "(timer_id \<times> 't timer_task) list"
  timerSeq :: int
  idleConns :: "(int \<times> 't idle_node list) list"
  idleEnabled :: bool
  node_refs :: nat                            \<comment> \<open>list nodes allocated so far\<close>
  clock :: int                                \<comment> \<open>\<open>util::timeMilli()\<close>\<close>
  fired :: "(timer_id \<times> 't timer_task) list"   \<comment> \<open>ghost: the timers run so far\<close>

definition events_new :: "int \<Rightarrow> 't events" where
  "events_new now = \<lparr>ev_exit = False, nextTimeout = 2 ^ 30, timerReps = [], timers = [], timerSeq = 0,
     idleConns = [], idleEnabled = False, node_refs = 0, clock = now, fired = []\<rparr>"

type_synonym ('t, 'a) runner = "'t \<Rightarrow> ('t, 'a) events_scheme \<Rightarrow> ('t, 'a) events_scheme res"

section \<open>Timers\<close>

definition refreshNearest :: "('t, 'a) events_scheme \<Rightarrow> ('t, 'a) events_scheme" where
  "refreshNearest e = e\<lparr>nextTimeout :=
     (case timers e of
        [] \<Rightarrow> 2 ^ 30
      | (t, _) # _ \<Rightarrow> (let n = to_int32 (fst t - clock e) in if n < 0 then 0 else n))\<rparr>"

definition runAt :: "int \<Rightarrow> 't \<Rightarrow> int \<Rightarrow> ('t, 'a) events_scheme \<Rightarrow> timer_id \<times> ('t, 'a) events_scheme" where
  "runAt milli task interval e =
     (if ev_exit e then ((0, 0), e)
      else if interval \<noteq> 0 then
        (let tid = (- milli, timerSeq e + 1);
             tr = \<lparr>r_at = milli, r_interval = interval, r_timerid = (milli, timerSeq e + 2), r_cb = task\<rparr>
         in (tid, refreshNearest (e\<lparr>timerSeq := timerSeq e + 2, timerReps := mput tid tr (timerReps e),
                timers := mput (r_timerid tr) (Repeat tid) (timers e)\<rparr>)))
      else
        (let tid = (milli, timerSeq e + 1)
         in (tid, refreshNearest (e\<lparr>timerSeq := timerSeq e + 1,
                timers := (if mhas (timers e) tid then timers e else mput tid (Once task) (timers e))\<rparr>))))"

definition runAfter :: "int \<Rightarrow> 't \<Rightarrow> int \<Rightarrow> ('t, 'a) events_scheme \<Rightarrow> timer_id \<times> ('t, 'a) events_scheme" where
  "runAfter milli task interval e = runAt (clock e + milli) task interval e"

text \<open>A negative time marks a repeating timer; the result of \<open>find\<close> is dereferenced unchecked.\<close>

definition cancel :: "timer_id \<Rightarrow> ('t, 'a) events_scheme \<Rightarrow> (bool \<times> ('t, 'a) events_scheme) res" where
  "cancel tid e =
     (if fst tid < 0
      then (case map_of (timerReps e) tid of
              None \<Rightarrow> Inl IterInvalid
            | Some tr \<Rightarrow> Inr (True, e\<lparr>timers := mdel (r_timerid tr) (timers e), timerReps := mdel tid (timerReps e)\<rparr>))
      else if mhas (timers e) tid then Inr (True, e\<lparr>timers := mdel tid (timers e)\<rparr>)
      else Inr (False, e))"

text \<open>The callback runs last, when the timer is already set for its next time.\<close>

definition repeatableTimeout :: "('t, 'a) runner \<Rightarrow> timer_id \<Rightarrow> ('t, 'a) events_scheme \<Rightarrow> ('t, 'a) events_scheme res" where
  "repeatableTimeout run k e =
     (case map_of (timerReps e) k of
        None \<Rightarrow> Inl UseAfterFree
      | Some tr \<Rightarrow>
          (let at = r_at tr + r_interval tr;
               tr' = tr\<lparr>r_at := at, r_timerid := (at, timerSeq e + 1)\<rparr>
           in run (r_cb tr) (refreshNearest (e\<lparr>timerSeq := timerSeq e + 1, timerReps := mput k tr' (timerReps e),
                timers := mput (r_timerid tr') (Repeat k) (timers e)\<rparr>))))"

fun fire :: "('t, 'a) runner \<Rightarrow> 't timer_task \<Rightarrow> ('t, 'a) events_scheme \<Rightarrow> ('t, 'a) events_scheme res" where
  "fire run (Once t) e = run t e"
| "fire run (Repeat k) e = repeatableTimeout run k e"

text \<open>The loop of \<open>handleTimeouts\<close> up to the limit \<open>{now, 1L<<62}\<close>; a callback that keeps adding
  due timers keeps it going, so not returning is \<open>None\<close>.\<close>

partial_function (option) timeouts_loop ::
  "('t, 'a) runner \<Rightarrow> timer_id \<Rightarrow> ('t, 'a) events_scheme \<Rightarrow> ('t, 'a) events_scheme res option" where
  "timeouts_loop run lim e =
     (case timers e of
        [] \<Rightarrow> Some (Inr e)
      | (t, task) # rest \<Rightarrow>
          if t < lim
          then (case fire run task (e\<lparr>timers := rest, fired := fired e @ [(t, task)]\<rparr>) of
                  Inl x \<Rightarrow> Some (Inl x)
                | Inr e' \<Rightarrow> timeouts_loop run lim e')
          else Some (Inr e))"

definition handleTimeouts :: "('t, 'a) runner \<Rightarrow> ('t, 'a) events_scheme \<Rightarrow> ('t, 'a) events_scheme res option" where
  "handleTimeouts run e =
     map_option (\<lambda>r. rbind r (\<lambda>e'. Inr (refreshNearest e'))) (timeouts_loop run (clock e, 2 ^ 62) e)"

text \<open>One turn of the loop; \<open>poll\<close> waits at most the given time and dispatches channel events.\<close>

definition ev_loop_once ::
  "(int \<Rightarrow> ('t, 'a) events_scheme \<Rightarrow> ('t, 'a) events_scheme res) \<Rightarrow> ('t, 'a) runner \<Rightarrow> int \<Rightarrow>
   ('t, 'a) events_scheme \<Rightarrow> ('t, 'a) events_scheme res option" where
  "ev_loop_once poll run waitMs e =
     (case poll (min waitMs (nextTimeout e)) e of
        Inl x \<Rightarrow> Some (Inl x)
      | Inr e' \<Rightarrow> handleTimeouts run e')"

section \<open>Idle connections\<close>

text \<open>\<open>registerIdle\<close>; \<open>tick\<close> is the closure that calls \<open>callIdles\<close>. An \<open>IdleId\<close> is the list's
  key and the node.\<close>

definition registerIdle :: "'t \<Rightarrow> int \<Rightarrow> 't \<Rightarrow> ('t, 'a) events_scheme \<Rightarrow> (int \<times> nat) \<times> ('t, 'a) events_scheme" where
  "registerIdle tick idle cb e =
     (let e1 = (if idleEnabled e then e else (snd (runAfter 1000 tick 1000 e))\<lparr>idleEnabled := True\<rparr>);
          (lst, m) = mindex [] idle (idleConns e1);
          node = \<lparr>n_ref = node_refs e1, n_updated = clock e1 div 1000, n_cb = cb\<rparr>
      in ((idle, n_ref node), e1\<lparr>idleConns := mput idle (lst @ [node]) m, node_refs := node_refs e1 + 1\<rparr>))"

definition find_node :: "int \<times> nat \<Rightarrow> ('t, 'a) events_scheme \<Rightarrow> ('t idle_node \<times> 't idle_node list) res" where
  "find_node i e =
     (case map_of (idleConns e) (fst i) of None \<Rightarrow> Inl IterInvalid
      | Some lst \<Rightarrow> (case find (\<lambda>n. n_ref n = snd i) lst of None \<Rightarrow> Inl IterInvalid
          | Some n \<Rightarrow> Inr (n, filter (\<lambda>n. n_ref n \<noteq> snd i) lst)))"

definition unregisterIdle :: "int \<times> nat \<Rightarrow> ('t, 'a) events_scheme \<Rightarrow> ('t, 'a) events_scheme res" where
  "unregisterIdle i e = rbind (find_node i e) (\<lambda>(n, rest). Inr (e\<lparr>idleConns := mput (fst i) rest (idleConns e)\<rparr>))"

definition updateIdle :: "int \<times> nat \<Rightarrow> ('t, 'a) events_scheme \<Rightarrow> ('t, 'a) events_scheme res" where
  "updateIdle i e = rbind (find_node i e) (\<lambda>(n, rest).
     Inr (e\<lparr>idleConns := mput (fst i) (rest @ [n\<lparr>n_updated := clock e div 1000\<rparr>]) (idleConns e)\<rparr>))"

text \<open>The inner loop of \<open>callIdles\<close> works on \<open>auto lst = l.second\<close>, a copy of the list.\<close>

partial_function (option) idle_loop ::
  "('t, 'a) runner \<Rightarrow> int \<Rightarrow> int \<Rightarrow> 't idle_node list \<Rightarrow> ('t, 'a) events_scheme \<Rightarrow> ('t, 'a) events_scheme res option" where
  "idle_loop run now idle lst e =
     (case lst of
        [] \<Rightarrow> Some (Inr e)
      | node # rest \<Rightarrow>
          if n_updated node + idle > now then Some (Inr e)
          else (case run (n_cb node) e of
                  Inl x \<Rightarrow> Some (Inl x)
                | Inr e' \<Rightarrow> idle_loop run now idle (rest @ [node\<lparr>n_updated := now\<rparr>]) e'))"

text \<open>The outer loop steps to the next key the map has at that moment.\<close>

partial_function (option) idles_from ::
  "('t, 'a) runner \<Rightarrow> int \<Rightarrow> (int \<times> 't idle_node list) list \<Rightarrow> ('t, 'a) events_scheme \<Rightarrow> ('t, 'a) events_scheme res option" where
  "idles_from run now todo e =
     (case todo of
        [] \<Rightarrow> Some (Inr e)
      | (idle, lst) # _ \<Rightarrow>
          (case idle_loop run now idle lst e of
             None \<Rightarrow> None
           | Some (Inl x) \<Rightarrow> Some (Inl x)
           | Some (Inr e') \<Rightarrow> idles_from run now (dropWhile (\<lambda>p. fst p \<le> idle) (idleConns e')) e'))"

definition callIdles :: "('t, 'a) runner \<Rightarrow> ('t, 'a) events_scheme \<Rightarrow> ('t, 'a) events_scheme res option" where
  "callIdles run e = idles_from run (clock e div 1000) (idleConns e) e"

text \<open>\<open>loop\<close>: after \<open>exit\<close> everything pending is dropped and one last turn is taken; \<open>recon\<close> cleans up
  the connections waiting to reconnect.\<close>

partial_function (option) ev_loop ::
  "(int \<Rightarrow> ('t, 'a) events_scheme \<Rightarrow> ('t, 'a) events_scheme res) \<Rightarrow> ('t, 'a) runner \<Rightarrow>
   (('t, 'a) events_scheme \<Rightarrow> ('t, 'a) events_scheme res) \<Rightarrow>
   ('t, 'a) events_scheme \<Rightarrow> ('t, 'a) events_scheme res option" where
  "ev_loop poll run recon e =
     (if ev_exit e
      then (case recon (e\<lparr>timerReps := [], timers := [], idleConns := []\<rparr>) of
              Inl x \<Rightarrow> Some (Inl x)
            | Inr e' \<Rightarrow> ev_loop_once poll run 0 e')
      else (case ev_loop_once poll run 10000 e of
              None \<Rightarrow> None
            | Some (Inl x) \<Rightarrow> Some (Inl x)
            | Some (Inr e') \<Rightarrow> ev_loop poll run recon e'))"

declare split_paired_All [simp del] split_paired_Ex [simp del]

section \<open>The timer invariant\<close>

text \<open>Pending closures and \<open>timerReps_\<close> point at each other, and every sequence number was issued.\<close>

definition timers_ok :: "('t, 'a) events_scheme \<Rightarrow> bool" where
  "timers_ok e \<longleftrightarrow> mok (timers e) \<and> mok (timerReps e) \<and>
     (\<forall>i task. map_of (timers e) i = Some task \<longrightarrow> snd i \<le> timerSeq e) \<and>
     (\<forall>i k. map_of (timers e) i = Some (Repeat k) \<longrightarrow> (\<exists>r. map_of (timerReps e) k = Some r \<and> r_timerid r = i)) \<and>
     (\<forall>k r. map_of (timerReps e) k = Some r \<longrightarrow> snd k \<le> timerSeq e \<and> fst (r_timerid r) = r_at r \<and>
        map_of (timers e) (r_timerid r) = Some (Repeat k))"

lemma refresh_fields [simp]:
  "timers (refreshNearest e) = timers e" "timerReps (refreshNearest e) = timerReps e"
  "timerSeq (refreshNearest e) = timerSeq e" "clock (refreshNearest e) = clock e"
  "ev_exit (refreshNearest e) = ev_exit e" "fired (refreshNearest e) = fired e"
  "idleConns (refreshNearest e) = idleConns e" "events.more (refreshNearest e) = events.more e"
  by (simp_all add: refreshNearest_def)

lemma timers_ok_cong:
  "timers e' = timers e \<Longrightarrow> timerReps e' = timerReps e \<Longrightarrow> timerSeq e' = timerSeq e \<Longrightarrow> timers_ok e' = timers_ok e"
  by (simp add: timers_ok_def)

lemma events_new_ok: "timers_ok (events_new now)"
  by (simp add: timers_ok_def events_new_def)

lemma fresh_timer: "timers_ok e \<Longrightarrow> timerSeq e < s \<Longrightarrow> map_of (timers e) (t, s) = None"
  unfolding timers_ok_def by (metis not_None_eq snd_conv not_le)

lemma fresh_rep: "timers_ok e \<Longrightarrow> timerSeq e < s \<Longrightarrow> map_of (timerReps e) (t, s) = None"
  unfolding timers_ok_def by (metis not_None_eq snd_conv not_le)

lemma runAt_once:
  assumes "timers_ok e" "\<not> ev_exit e"
  shows "runAt milli task 0 e = ((milli, timerSeq e + 1), refreshNearest (e\<lparr>timerSeq := timerSeq e + 1,
           timers := mput (milli, timerSeq e + 1) (Once task) (timers e)\<rparr>))"
  using fresh_timer [OF assms(1), of "timerSeq e + 1" milli] assms(2) by (simp add: runAt_def mhas_def Let_def)

lemma ok_timer: "timers_ok e \<Longrightarrow> map_of (timers e) i = Some task \<Longrightarrow> snd i \<le> timerSeq e"
  unfolding timers_ok_def by blast

lemma ok_repeat:
  "timers_ok e \<Longrightarrow> map_of (timers e) i = Some (Repeat k) \<Longrightarrow> \<exists>r. map_of (timerReps e) k = Some r \<and> r_timerid r = i"
  unfolding timers_ok_def by blast

lemma ok_rep:
  "timers_ok e \<Longrightarrow> map_of (timerReps e) k = Some r \<Longrightarrow>
     snd k \<le> timerSeq e \<and> fst (r_timerid r) = r_at r \<and> map_of (timers e) (r_timerid r) = Some (Repeat k)"
  unfolding timers_ok_def by blast

lemma ok_mok: "timers_ok e \<Longrightarrow> mok (timers e) \<and> mok (timerReps e)"
  unfolding timers_ok_def by blast

lemma ok_times: "timers_ok e \<Longrightarrow> map_of (timers e) i = Some (Repeat k) \<Longrightarrow> map_of (timerReps e) k = Some r \<Longrightarrow> fst i = r_at r"
  using ok_repeat ok_rep by fastforce

lemma timers_okI:
  assumes "mok (timers e)" "mok (timerReps e)"
    and "\<And>i task. map_of (timers e) i = Some task \<Longrightarrow> snd i \<le> timerSeq e"
    and "\<And>i k. map_of (timers e) i = Some (Repeat k) \<Longrightarrow> \<exists>r. map_of (timerReps e) k = Some r \<and> r_timerid r = i"
    and "\<And>k r. map_of (timerReps e) k = Some r \<Longrightarrow>
       snd k \<le> timerSeq e \<and> fst (r_timerid r) = r_at r \<and> map_of (timers e) (r_timerid r) = Some (Repeat k)"
  shows "timers_ok e"
  using assms unfolding timers_ok_def by blast

text \<open>Adding a one-shot timer, and setting a repeating one (new or again) to a fresh time.\<close>

lemma add_once_ok:
  assumes "timers_ok e" "timerSeq e < s"
  shows "timers_ok (e\<lparr>timerSeq := s, timers := mput (t, s) (Once c) (timers e)\<rparr>)" (is "timers_ok ?e")
proof (rule timers_okI)
  note mok = ok_mok [OF assms(1)]
  note f = fresh_timer [OF assms, of t]
  show "mok (timers ?e)" "mok (timerReps ?e)" using mok by simp_all
  show "snd i \<le> timerSeq ?e" if "map_of (timers ?e) i = Some task" for i task
    using that ok_timer [OF assms(1), of i task] assms(2) mok by (auto split: if_splits)
  show "\<exists>r. map_of (timerReps ?e) k = Some r \<and> r_timerid r = i" if "map_of (timers ?e) i = Some (Repeat k)" for i k
    using that ok_repeat [OF assms(1), of i k] mok by (auto split: if_splits)
  show "snd k \<le> timerSeq ?e \<and> fst (r_timerid r) = r_at r \<and> map_of (timers ?e) (r_timerid r) = Some (Repeat k)"
    if "map_of (timerReps ?e) k = Some r" for k r
    using ok_rep [OF assms(1), of k r] that f assms(2) mok by auto
qed

lemma set_repeat_ok:
  assumes "timers_ok e" "timerSeq e < s" "snd k \<le> s" "r_timerid r = (r_at r, s)"
    and "map_of (timerReps e) k = None"
  shows "timers_ok (e\<lparr>timerSeq := s, timerReps := mput k r (timerReps e), timers := mput (r_at r, s) (Repeat k) (timers e)\<rparr>)"
    (is "timers_ok ?e")
proof (rule timers_okI)
  note mok = ok_mok [OF assms(1)]
  note f = fresh_timer [OF assms(1,2), of "r_at r"]
  show "mok (timers ?e)" "mok (timerReps ?e)" using mok by simp_all
  show "snd i \<le> timerSeq ?e" if "map_of (timers ?e) i = Some task" for i task
    using that ok_timer [OF assms(1), of i task] assms(2) mok by (auto split: if_splits)
  show "\<exists>r. map_of (timerReps ?e) k' = Some r \<and> r_timerid r = i" if "map_of (timers ?e) i = Some (Repeat k')" for i k'
    using that ok_repeat [OF assms(1), of i k'] mok assms(4,5) by (auto split: if_splits)
  show "snd k' \<le> timerSeq ?e \<and> fst (r_timerid r') = r_at r' \<and> map_of (timers ?e) (r_timerid r') = Some (Repeat k')"
    if "map_of (timerReps ?e) k' = Some r'" for k' r'
    using ok_rep [OF assms(1), of k' r'] that f assms(2-4) mok by (auto split: if_splits)
qed

lemma del_timer_ok:
  assumes "timers_ok e" "\<And>k. map_of (timers e) i \<noteq> Some (Repeat k)"
  shows "timers_ok (e\<lparr>timers := mdel i (timers e)\<rparr>)" (is "timers_ok ?e")
proof (rule timers_okI)
  show "mok (timers ?e)" "mok (timerReps ?e)" using ok_mok [OF assms(1)] by simp_all
  show "snd j \<le> timerSeq ?e" if "map_of (timers ?e) j = Some task" for j task
    using that ok_timer [OF assms(1), of j task] by (auto split: if_splits)
  show "\<exists>r. map_of (timerReps ?e) k = Some r \<and> r_timerid r = j" if "map_of (timers ?e) j = Some (Repeat k)" for j k
    using that ok_repeat [OF assms(1), of j k] by (auto split: if_splits)
  show "snd k \<le> timerSeq ?e \<and> fst (r_timerid r) = r_at r \<and> map_of (timers ?e) (r_timerid r) = Some (Repeat k)"
    if "map_of (timerReps ?e) k = Some r" for k r
    using ok_rep [OF assms(1), of k r] that assms(2) [of k] by auto
qed

lemma del_repeat_ok:
  assumes "timers_ok e" "map_of (timerReps e) k = Some r"
  shows "timers_ok (e\<lparr>timers := mdel (r_timerid r) (timers e), timerReps := mdel k (timerReps e)\<rparr>)" (is "timers_ok ?e")
proof (rule timers_okI)
  note k = ok_rep [OF assms]
  show "mok (timers ?e)" "mok (timerReps ?e)" using ok_mok [OF assms(1)] by simp_all
  show "snd j \<le> timerSeq ?e" if "map_of (timers ?e) j = Some task" for j task
    using that ok_timer [OF assms(1), of j task] by (auto split: if_splits)
  show "\<exists>r. map_of (timerReps ?e) k' = Some r \<and> r_timerid r = j" if "map_of (timers ?e) j = Some (Repeat k')" for j k'
    using that ok_repeat [OF assms(1), of j k'] assms(2) by (auto split: if_splits)
  show "snd k' \<le> timerSeq ?e \<and> fst (r_timerid r') = r_at r' \<and> map_of (timers ?e) (r_timerid r') = Some (Repeat k')"
    if "map_of (timerReps ?e) k' = Some r'" for k' r'
    using ok_rep [OF assms(1), of k' r'] that k by (auto split: if_splits)
qed

lemma runAt_repeat:
  assumes "\<not> ev_exit e" "interval \<noteq> 0"
  shows "runAt milli task interval e = ((- milli, timerSeq e + 1), refreshNearest (e\<lparr>timerSeq := timerSeq e + 2,
     timerReps := mput (- milli, timerSeq e + 1)
       \<lparr>r_at = milli, r_interval = interval, r_timerid = (milli, timerSeq e + 2), r_cb = task\<rparr> (timerReps e),
     timers := mput (milli, timerSeq e + 2) (Repeat (- milli, timerSeq e + 1)) (timers e)\<rparr>))"
  using assms by (simp add: runAt_def Let_def)

lemma timers_ok_refresh [simp]: "timers_ok (refreshNearest e) = timers_ok e"
  by (rule timers_ok_cong) simp_all

lemma runAt_ok:
  assumes "timers_ok e"
  shows "timers_ok (snd (runAt milli task interval e))"
proof -
  consider "ev_exit e" | "\<not> ev_exit e" "interval = 0" | "\<not> ev_exit e" "interval \<noteq> 0" by blast
  then show ?thesis
  proof cases
    case 1
    then show ?thesis using assms by (simp add: runAt_def)
  next
    case 2
    then show ?thesis using runAt_once [OF assms 2(1)] add_once_ok [OF assms, of "timerSeq e + 1"] by simp
  next
    case 3
    then show ?thesis
      using runAt_repeat [OF 3] fresh_rep [OF assms, of "timerSeq e + 1" "- milli"]
        set_repeat_ok [OF assms, of "timerSeq e + 2" "(- milli, timerSeq e + 1)"
          "\<lparr>r_at = milli, r_interval = interval, r_timerid = (milli, timerSeq e + 2), r_cb = task\<rparr>"] by simp
  qed
qed

lemma cancel_ok:
  assumes "timers_ok e" "cancel tid e = Inr (b, e')" "\<And>k. map_of (timers e) tid \<noteq> Some (Repeat k)"
  shows "timers_ok e'"
proof (cases "fst tid < 0")
  case True
  then show ?thesis using assms(1,2) del_repeat_ok [OF assms(1), of tid] by (auto simp: cancel_def split: option.splits)
next
  case False
  then show ?thesis using assms(1,2) del_timer_ok [OF assms(1,3)] by (auto simp: cancel_def split: if_splits)
qed

section \<open>Firing a timer\<close>

text \<open>The state in which the callback of the first pending timer runs: the timer is off the map, a
  repeating one already set again.\<close>

definition rearmed :: "timer_id \<Rightarrow> 't timer_task \<Rightarrow> (timer_id \<times> 't timer_task) list \<Rightarrow>
    ('t, 'a) events_scheme \<Rightarrow> ('t, 'a) events_scheme" where
  "rearmed t task rest e =
     (let e0 = e\<lparr>timers := rest, fired := fired e @ [(t, task)]\<rparr> in
      case task of
        Once _ \<Rightarrow> e0
      | Repeat k \<Rightarrow>
          (let r = the (map_of (timerReps e) k); at = r_at r + r_interval r in
           refreshNearest (e0\<lparr>timerSeq := timerSeq e + 1,
             timerReps := mput k (r\<lparr>r_at := at, r_timerid := (at, timerSeq e + 1)\<rparr>) (timerReps e),
             timers := mput (at, timerSeq e + 1) (Repeat k) rest\<rparr>)))"

fun task_cb :: "('t, 'a) events_scheme \<Rightarrow> 't timer_task \<Rightarrow> 't" where
  "task_cb e (Once c) = c"
| "task_cb e (Repeat k) = r_cb (the (map_of (timerReps e) k))"

lemma fire_runs:
  assumes "timers_ok e" "timers e = (t, task) # rest"
  shows "fire run task (e\<lparr>timers := rest, fired := fired e @ [(t, task)]\<rparr>) =
           run (task_cb e task) (rearmed t task rest e)"
proof (cases task)
  case (Repeat k)
  then have "map_of (timers e) t = Some (Repeat k)" using assms(2) by simp
  from ok_repeat [OF assms(1) this] obtain r where "map_of (timerReps e) k = Some r" by blast
  then show ?thesis using Repeat by (simp add: repeatableTimeout_def rearmed_def Let_def)
qed (simp add: rearmed_def)

lemma rearmed_ok:
  assumes "timers_ok e" "timers e = (t, task) # rest"
  shows "timers_ok (rearmed t task rest e)"
proof -
  have rest: "mdel t (timers e) = rest" using ok_mok [OF assms(1)] by (simp add: assms(2) mdel_hd)
  show ?thesis
  proof (cases task)
    case (Once c)
    then have "timers_ok (e\<lparr>timers := rest\<rparr>)" using del_timer_ok [OF assms(1), of t] rest assms(2) by simp
    then show ?thesis using Once by (simp add: rearmed_def timers_ok_def)
  next
    case (Repeat k)
    then obtain r where r: "map_of (timerReps e) k = Some r" "r_timerid r = t"
      using ok_repeat [OF assms(1), of t k] assms(2) by auto
    let ?e = "e\<lparr>timers := rest, timerReps := mdel k (timerReps e)\<rparr>" and ?at = "r_at r + r_interval r"
    have "timers_ok ?e" using del_repeat_ok [OF assms(1) r(1)] r(2) rest by simp
    from set_repeat_ok [OF this, of "timerSeq e + 1" k "r\<lparr>r_at := ?at, r_timerid := (?at, timerSeq e + 1)\<rparr>"]
    have "timers_ok (?e\<lparr>timerSeq := timerSeq e + 1,
        timerReps := mput k (r\<lparr>r_at := ?at, r_timerid := (?at, timerSeq e + 1)\<rparr>) (timerReps e),
        timers := mput (?at, timerSeq e + 1) (Repeat k) rest\<rparr>)"
      using ok_rep [OF assms(1) r(1)] ok_mok [OF assms(1)] by (simp add: mput_mdel)
    then show ?thesis using Repeat r(1) by (simp add: rearmed_def Let_def timers_ok_def)
  qed
qed

text \<open>Whatever the callbacks do to the timers, as long as they keep the invariant the loop keeps it, and it
  never reaches a destroyed \<open>TimerRepeatable\<close> itself: a failure is a callback's.\<close>

locale timer_client =
  fixes run :: "('t, 'a) runner"
  assumes run_ok: "timers_ok e \<Longrightarrow> run c e = Inr e' \<Longrightarrow> timers_ok e'"
begin

lemma timeouts_loop_ok:
  assumes "timeouts_loop run lim e = Some r" "timers_ok e"
  shows "(\<forall>x. r = Inl x \<longrightarrow> (\<exists>c e0. timers_ok e0 \<and> run c e0 = Inl x)) \<and> (\<forall>e'. r = Inr e' \<longrightarrow> timers_ok e')"
proof -
  have "r' = run \<longrightarrow> timers_ok e \<longrightarrow> (\<forall>x. r = Inl x \<longrightarrow> (\<exists>c e0. timers_ok e0 \<and> run c e0 = Inl x)) \<and> (\<forall>e'. r = Inr e' \<longrightarrow> timers_ok e')"
    if "timeouts_loop r' lim e = Some r" for r' lim e r
  proof (rule timeouts_loop.raw_induct [OF _ that], goal_cases)
    case (1 loop r' lim e r)
    show ?case
    proof (intro impI)
      assume r': "r' = run" and ok: "timers_ok e"
      show "(\<forall>x. r = Inl x \<longrightarrow> (\<exists>c e0. timers_ok e0 \<and> run c e0 = Inl x)) \<and> (\<forall>e'. r = Inr e' \<longrightarrow> timers_ok e')"
      proof (cases "timers e")
        case Nil
        then show ?thesis using 1(2) ok by auto
      next
        case (Cons p rest)
        obtain t task where p: "timers e = (t, task) # rest" by (cases p) (simp add: Cons)
        note f = fire_runs [OF ok p] and r = rearmed_ok [OF ok p]
        show ?thesis
          using 1 r' ok run_ok [OF r] r by (auto simp: p f split: if_splits sum.splits)
      qed
    qed
  qed
  then show ?thesis using assms by blast
qed

lemma handleTimeouts_ok:
  assumes "handleTimeouts run e = Some r" "timers_ok e"
  shows "(\<forall>x. r = Inl x \<longrightarrow> (\<exists>c e0. timers_ok e0 \<and> run c e0 = Inl x)) \<and> (\<forall>e'. r = Inr e' \<longrightarrow> timers_ok e')"
proof -
  obtain r0 where "timeouts_loop run (clock e, 2 ^ 62) e = Some r0" "r = rbind r0 (\<lambda>e'. Inr (refreshNearest e'))"
    using assms(1) by (auto simp: handleTimeouts_def)
  then show ?thesis using timeouts_loop_ok [OF _ assms(2)] by (cases r0) auto
qed

end

section \<open>What a turn of the timers does\<close>

text \<open>Callbacks that leave the timers alone, while the clock may go on. \<open>client e\<close> is the state without the
  timers. \<open>Q n cs w\<close> says that \<open>w\<close> is good for \<open>n\<close> more callbacks when \<open>cs\<close> have run.\<close>

definition client :: "('t, 'a) events_scheme \<Rightarrow> ('t, 'a) events_scheme" where
  "client e = e\<lparr>nextTimeout := 0, timerReps := [], timers := [], timerSeq := 0, fired := []\<rparr>"

lemma client_fields [simp]:
  "clock (client e) = clock e" "ev_exit (client e) = ev_exit e" "idleConns (client e) = idleConns e"
  "idleEnabled (client e) = idleEnabled e" "node_refs (client e) = node_refs e" "events.more (client e) = events.more e"
  by (simp_all add: client_def)

definition quiet :: "(nat \<Rightarrow> 't list \<Rightarrow> ('t, 'a) events_scheme \<Rightarrow> bool) \<Rightarrow> ('t, 'a) runner \<Rightarrow> bool" where
  "quiet Q run \<longleftrightarrow> (\<forall>n cs w. Q (Suc n) cs w \<longrightarrow> Q n cs w) \<and>
     (\<forall>n cs c e. Q (Suc n) cs (client e) \<longrightarrow> (\<exists>e'. run c e = Inr e' \<and> Q n (cs @ [c]) (client e') \<and>
        timers e' = timers e \<and> timerReps e' = timerReps e \<and> timerSeq e' = timerSeq e \<and>
        fired e' = fired e \<and> clock e \<le> clock e'))"

lemma quiet_mono: "quiet Q run \<Longrightarrow> Q n i w \<Longrightarrow> m \<le> n \<Longrightarrow> Q m i w"
proof (induction n)
  case (Suc n)
  then show ?case unfolding quiet_def le_Suc_eq by blast
qed simp

text \<open>How often a repeating timer is due up to \<open>now\<close>, and a bound on all of them together.\<close>

definition periods :: "int \<Rightarrow> 't repeatable \<Rightarrow> int" where
  "periods now r = (if r_at r \<le> now then (now - r_at r) div r_interval r + 1 else 0)"

definition backlog :: "int \<Rightarrow> ('t, 'a) events_scheme \<Rightarrow> nat" where
  "backlog now e = sum_list (map (\<lambda>(k, r). nat (now + 1 - r_at r)) (timerReps e))"

definition pending_once :: "('t, 'a) events_scheme \<Rightarrow> nat" where
  "pending_once e = length (filter (\<lambda>p. case snd p of Once _ \<Rightarrow> True | Repeat _ \<Rightarrow> False) (timers e))"

definition runs_of :: "timer_id \<Rightarrow> (timer_id \<times> 't timer_task) list \<Rightarrow> int" where
  "runs_of k fs = int (length (filter (\<lambda>f. snd f = Repeat k) fs))"

text \<open>\<open>served now e fs e'\<close>: running the timers \<open>fs\<close> takes \<open>e\<close> to \<open>e'\<close> with every timer due by
  \<open>now\<close> served as often as it is due.\<close>

definition served :: "int \<Rightarrow> ('t, 'a) events_scheme \<Rightarrow> (timer_id \<times> 't timer_task) list \<Rightarrow> ('t, 'a) events_scheme \<Rightarrow> bool" where
  "served now e fs e' \<longleftrightarrow>
     (\<forall>i c. (i, Once c) \<in> set fs \<longleftrightarrow> map_of (timers e) i = Some (Once c) \<and> fst i \<le> now) \<and>
     (\<forall>i c. map_of (timers e') i = Some (Once c) \<longleftrightarrow> map_of (timers e) i = Some (Once c) \<and> now < fst i) \<and>
     (\<forall>k. map_of (timerReps e) k = None \<longrightarrow> map_of (timerReps e') k = None \<and> runs_of k fs = 0) \<and>
     (\<forall>k r. map_of (timerReps e) k = Some r \<longrightarrow> (\<exists>r'. map_of (timerReps e') k = Some r' \<and>
        runs_of k fs = periods now r \<and> r_at r' = r_at r + periods now r * r_interval r \<and>
        r_interval r' = r_interval r \<and> r_cb r' = r_cb r))"

definition steady :: "('t, 'a) events_scheme \<Rightarrow> bool" where
  "steady e \<longleftrightarrow> (\<forall>k r. map_of (timerReps e) k = Some r \<longrightarrow> 0 < r_interval r)"

lemma periods_step:
  assumes "r_at r \<le> now" "0 < r_interval r"
  shows "periods now r = periods now (r\<lparr>r_at := r_at r + r_interval r, r_timerid := i\<rparr>) + 1"
proof (cases "r_at r + r_interval r \<le> now")
  case True
  have "(now - r_at r) div r_interval r = ((now - (r_at r + r_interval r)) + 1 * r_interval r) div r_interval r" by simp
  also have "\<dots> = (now - (r_at r + r_interval r)) div r_interval r + 1" using assms(2) by (subst div_mult_self1) auto
  finally show ?thesis using True assms by (simp add: periods_def)
next
  case False
  then show ?thesis using assms by (simp add: periods_def)
qed

lemma rearmed_fields [simp]:
  "fired (rearmed t task rest e) = fired e @ [(t, task)]"
  "client (rearmed t task rest e) = client e"
  "clock (rearmed t task rest e) = clock e"
  by (simp_all add: rearmed_def client_def refreshNearest_def Let_def split: timer_task.splits)

lemma rearmed_repeat:
  assumes "map_of (timerReps e) k = Some r"
  shows "timers (rearmed t (Repeat k) rest e) = mput (r_at r + r_interval r, timerSeq e + 1) (Repeat k) rest"
    and "timerReps (rearmed t (Repeat k) rest e) =
           mput k (r\<lparr>r_at := r_at r + r_interval r, r_timerid := (r_at r + r_interval r, timerSeq e + 1)\<rparr>) (timerReps e)"
    and "timerSeq (rearmed t (Repeat k) rest e) = timerSeq e + 1"
  using assms by (simp_all add: rearmed_def Let_def)

lemma rearmed_cb:
  assumes "timers_ok e" "timers e = (t, task) # rest"
  shows "task_cb (rearmed t task rest e) = task_cb e"
proof (rule ext)
  fix x
  show "task_cb (rearmed t task rest e) x = task_cb e x"
  proof (cases task)
    case (Once c)
    then show ?thesis by (cases x) (simp_all add: rearmed_def)
  next
    case (Repeat k)
    then obtain r where r: "map_of (timerReps e) k = Some r" using ok_repeat [OF assms(1), of t k] assms(2) by auto
    have "mok (timerReps e)" using ok_mok [OF assms(1)] by simp
    then show ?thesis unfolding Repeat by (cases x) (simp_all add: rearmed_repeat(2) [OF r] r)
  qed
qed

lemma rearmed_once:
  "timers (rearmed t (Once c) rest e) = rest" "timerReps (rearmed t (Once c) rest e) = timerReps e"
  "timerSeq (rearmed t (Once c) rest e) = timerSeq e"
  by (simp_all add: rearmed_def)

lemma served_cong:
  "timers e1 = timers e2 \<Longrightarrow> timerReps e1 = timerReps e2 \<Longrightarrow> served now e1 fs e' = served now e2 fs e'"
  by (simp add: served_def)

lemma served_onceD:
  "served now e fs e' \<Longrightarrow> (i, Once c) \<in> set fs \<longleftrightarrow> map_of (timers e) i = Some (Once c) \<and> fst i \<le> now"
  unfolding served_def by blast

lemma served_leftD:
  "served now e fs e' \<Longrightarrow> map_of (timers e') i = Some (Once c) \<longleftrightarrow> map_of (timers e) i = Some (Once c) \<and> now < fst i"
  unfolding served_def by blast

lemma served_no_repD:
  "served now e fs e' \<Longrightarrow> map_of (timerReps e) k = None \<Longrightarrow> map_of (timerReps e') k = None \<and> runs_of k fs = 0"
  unfolding served_def by blast

lemma served_repD:
  "served now e fs e' \<Longrightarrow> map_of (timerReps e) k = Some r \<Longrightarrow>
     \<exists>r'. map_of (timerReps e') k = Some r' \<and> runs_of k fs = periods now r \<and>
       r_at r' = r_at r + periods now r * r_interval r \<and> r_interval r' = r_interval r \<and> r_cb r' = r_cb r"
  unfolding served_def by blast

lemma served_none:
  assumes "timers_ok e" "\<forall>p \<in> set (timers e). now < fst (fst p)"
  shows "served now e [] e"
proof -
  have "now < r_at r" if "map_of (timerReps e) k = Some r" for k r
    using ok_rep [OF assms(1) that] assms(2) map_of_SomeD [of "timers e" "r_timerid r"] by force
  moreover have "now < fst i" if "map_of (timers e) i = Some task" for i task
    using assms(2) map_of_SomeD [OF that] by force
  ultimately show ?thesis by (force simp: served_def periods_def runs_of_def)
qed

lemma head_fresh: "timers_ok e \<Longrightarrow> timers e = (t, task) # rest \<Longrightarrow> map_of rest t = None \<and> mok rest \<and> (\<forall>p \<in> set rest. t < fst p)"
  using ok_mok [of e] map_of_above [of rest t] by (auto simp: mok_Cons)

lemma served_once:
  assumes "timers_ok e" "timers e = (t, Once c) # rest" "fst t \<le> now"
    and "served now (rearmed t (Once c) rest e) fs e'"
  shows "served now e ((t, Once c) # fs) e'"
proof -
  have t: "map_of rest t = None" using head_fresh [OF assms(1,2)] by blast
  have "runs_of k ((t, Once c) # fs) = runs_of k fs" for k by (simp add: runs_of_def)
  moreover have "(i, Once c') \<in> set ((t, Once c) # fs) \<longleftrightarrow> map_of (timers e) i = Some (Once c') \<and> fst i \<le> now" for i c'
    using assms(2-4) t unfolding served_def rearmed_once by auto
  moreover have "map_of (timers e') i = Some (Once c') \<longleftrightarrow> map_of (timers e) i = Some (Once c') \<and> now < fst i" for i c'
    using assms(2-4) t unfolding served_def rearmed_once by auto
  ultimately show ?thesis using assms(4) unfolding served_def rearmed_once by presburger
qed

lemma served_repeat:
  assumes "timers_ok e" "timers e = (t, Repeat k) # rest" "map_of (timerReps e) k = Some r" "fst t \<le> now" "steady e"
    and "served now (rearmed t (Repeat k) rest e) fs e'"
  shows "served now e ((t, Repeat k) # fs) e'"
proof -
  note h = head_fresh [OF assms(1,2)] and mok = ok_mok [OF assms(1)]
  let ?i = "(r_at r + r_interval r, timerSeq e + 1)"
  let ?r = "r\<lparr>r_at := r_at r + r_interval r, r_timerid := ?i\<rparr>"
  have at: "r_at r \<le> now" "0 < r_interval r"
    using ok_times [OF assms(1) _ assms(3), of t] assms(2-5) by (auto simp: steady_def)
  note p = periods_step [OF at, of ?i]
  have new: "map_of rest ?i = None" using fresh_timer [OF assms(1), of "timerSeq e + 1" "r_at r + r_interval r"] assms(2) by (auto split: if_splits)
  note sv = assms(6) [unfolded served_def rearmed_repeat [OF assms(3)]]
  have tm: "map_of (mput ?i (Repeat k) rest) i = Some (Once c) \<longleftrightarrow> map_of (timers e) i = Some (Once c)" for i c
    using h new assms(2) by auto
  have rn: "runs_of k' ((t, Repeat k) # fs) = runs_of k' fs + (if k' = k then 1 else 0)" for k' by (simp add: runs_of_def)
  have rep: "map_of (mput k ?r (timerReps e)) k' = (if k' = k then Some ?r else map_of (timerReps e) k')" for k'
    using mok by simp
  show ?thesis
    unfolding served_def
  proof (intro conjI allI impI)
    fix i c
    show "(i, Once c) \<in> set ((t, Repeat k) # fs) \<longleftrightarrow> map_of (timers e) i = Some (Once c) \<and> fst i \<le> now"
      using conjunct1 [OF sv] tm by simp
    show "map_of (timers e') i = Some (Once c) \<longleftrightarrow> map_of (timers e) i = Some (Once c) \<and> now < fst i"
      using conjunct1 [OF conjunct2 [OF sv]] tm by simp
  next
    fix k' assume "map_of (timerReps e) k' = None"
    then show "map_of (timerReps e') k' = None" "runs_of k' ((t, Repeat k) # fs) = 0"
      using conjunct1 [OF conjunct2 [OF conjunct2 [OF sv]], rule_format, of k'] rep [of k'] rn [of k'] assms(3)
      by (auto split: if_splits)
  next
    fix k' r' assume r': "map_of (timerReps e) k' = Some r'"
    note last = conjunct2 [OF conjunct2 [OF conjunct2 [OF sv]], rule_format, of k' "if k' = k then ?r else r'"]
    show "\<exists>r''. map_of (timerReps e') k' = Some r'' \<and> runs_of k' ((t, Repeat k) # fs) = periods now r' \<and>
       r_at r'' = r_at r' + periods now r' * r_interval r' \<and> r_interval r'' = r_interval r' \<and> r_cb r'' = r_cb r'"
      using last r' rep [of k'] rn [of k'] p assms(3) by (cases "k' = k") (auto simp: algebra_simps)
  qed
qed

text \<open>Each timer that runs uses up some of the backlog or a one-shot timer.\<close>

lemma rearmed_progress:
  assumes "timers_ok e" "timers e = (t, task) # rest" "fst t \<le> now" "steady e"
  shows "backlog now (rearmed t task rest e) + pending_once (rearmed t task rest e) < backlog now e + pending_once e \<and>
    timerSeq (rearmed t task rest e) + int (backlog now (rearmed t task rest e)) \<le> timerSeq e + int (backlog now e) \<and>
    steady (rearmed t task rest e)"
proof (cases task)
  case (Once c)
  then show ?thesis using assms(2,4) by (simp add: rearmed_once backlog_def pending_once_def steady_def)
next
  case (Repeat k)
  note mok = ok_mok [OF assms(1)] and h = head_fresh [OF assms(1,2)]
  obtain r where r: "map_of (timerReps e) k = Some r" "r_timerid r = t"
    using ok_repeat [OF assms(1), of t k] assms(2) Repeat by auto
  have at: "r_at r \<le> now" "0 < r_interval r"
    using ok_rep [OF assms(1) r(1)] r assms(3,4) by (auto simp: steady_def)
  let ?i = "(r_at r + r_interval r, timerSeq e + 1)"
  let ?r = "r\<lparr>r_at := r_at r + r_interval r, r_timerid := ?i\<rparr>"
  have "backlog now (rearmed t task rest e) + nat (now + 1 - r_at r) = backlog now e + nat (now + 1 - r_at ?r)"
    using sum_list_mput [of "timerReps e" k r "\<lambda>(k, r). nat (now + 1 - r_at r)" ?r] mok r(1)
    by (simp add: backlog_def rearmed_repeat [OF r(1)] Repeat)
  then have b: "backlog now (rearmed t task rest e) < backlog now e" using at by simp
  have "map_of rest ?i = None"
    using fresh_timer [OF assms(1), of "timerSeq e + 1" "r_at r + r_interval r"] assms(2) by (auto split: if_splits)
  then have "pending_once (rearmed t task rest e) = pending_once e"
    using h filter_mput [of rest ?i "\<lambda>p. case snd p of Once _ \<Rightarrow> True | Repeat _ \<Rightarrow> False" "Repeat k"] assms(2)
    by (simp add: pending_once_def rearmed_repeat [OF r(1)] Repeat)
  moreover have "steady (rearmed t task rest e)"
    using assms(4) r(1) mok by (auto simp: steady_def rearmed_repeat [OF r(1)] Repeat)
  ultimately show ?thesis using b by (simp add: rearmed_repeat [OF r(1)] Repeat)
qed

text \<open>The timers that run come in the order of their ids, after any timer left behind.\<close>

definition in_order :: "('t, 'a) events_scheme \<Rightarrow> (timer_id \<times> 't timer_task) list \<Rightarrow> bool" where
  "in_order e fs \<longleftrightarrow> sorted_wrt (<) (map fst fs) \<and>
     (\<forall>i. (\<forall>p \<in> set (timers e). i < fst p) \<longrightarrow> (\<forall>f \<in> set fs. i < fst f))"

lemma in_order_step:
  assumes "timers_ok e" "timers e = (t, task) # rest" "steady e" "in_order (rearmed t task rest e) fs"
  shows "in_order e ((t, task) # fs)"
proof -
  note h = head_fresh [OF assms(1,2)]
  have "\<forall>p \<in> set (timers (rearmed t task rest e)). t < fst p"
  proof (cases task)
    case (Once c)
    then show ?thesis using h by (simp add: rearmed_once)
  next
    case (Repeat k)
    then obtain r where r: "map_of (timerReps e) k = Some r" "r_timerid r = t"
      using ok_repeat [OF assms(1), of t k] assms(2) by auto
    have "t < (r_at r + r_interval r, timerSeq e + 1)"
      using ok_rep [OF assms(1) r(1)] assms(3) r by (cases t) (auto simp: steady_def)
    then show ?thesis
      using h set_mput [of "(r_at r + r_interval r, timerSeq e + 1)" "Repeat k" rest]
      by (auto simp: rearmed_repeat [OF r(1)] Repeat)
  qed
  then have t: "\<forall>f \<in> set fs. t < fst f" using assms(4) unfolding in_order_def by blast
  have "sorted_wrt (<) (map fst fs)" using assms(4) unfolding in_order_def by blast
  then have s: "sorted_wrt (<) (map fst ((t, task) # fs))" using t by simp
  have "i < fst f" if "\<forall>p \<in> set (timers e). i < fst p" "f \<in> set ((t, task) # fs)" for i f
  proof -
    have "i < t" using that(1) assms(2) by simp
    then show ?thesis using that(2) t by (cases "f \<in> set fs") (auto intro: order.strict_trans)
  qed
  then show ?thesis using s unfolding in_order_def by blast
qed

lemma timeouts_loop_serves:
  assumes "quiet Q run"
  shows "timers_ok e \<Longrightarrow> steady e \<Longrightarrow> timerSeq e + int (backlog now e) < 2 ^ 62 \<Longrightarrow>
    Q (backlog now e + pending_once e) cs (client e) \<Longrightarrow>
    \<exists>e' fs. timeouts_loop run (now, 2 ^ 62) e = Some (Inr e') \<and> timers_ok e' \<and> fired e' = fired e @ fs \<and>
      served now e fs e' \<and> in_order e fs \<and> (\<forall>f \<in> set fs. fst (fst f) \<le> now) \<and>
      (\<forall>p \<in> set (timers e'). now < fst (fst p)) \<and> clock e \<le> clock e' \<and> Q 0 (cs @ map (task_cb e \<circ> snd) fs) (client e')"
proof (induction "backlog now e + pending_once e" arbitrary: e cs rule: less_induct)
  case less
  have small: "(i < (now, 2 ^ 62)) = (fst i \<le> now)" if "map_of (timers e) i = Some task" for i task
    using ok_timer [OF less.prems(1) that] less.prems(3) by (cases i) auto
  show ?case
  proof (cases "timers e = [] \<or> now < fst (fst (hd (timers e)))")
    case True
    have "\<forall>p \<in> set (timers e). now < fst (fst p)"
      using True ok_mok [OF less.prems(1)]
      by (cases "timers e") (force simp: mok_def less_prod_def)+
    moreover have "timeouts_loop run (now, 2 ^ 62) e = Some (Inr e)"
      using True by (subst timeouts_loop.simps) (auto split: list.splits)
    ultimately show ?thesis
      using less.prems(1) served_none [OF less.prems(1)] quiet_mono [OF assms less.prems(4)] by (intro exI [of _ e] exI [of _ "[]"]) (simp add: in_order_def)
  next
    case False
    then obtain t task rest where t: "timers e = (t, task) # rest" "fst t \<le> now"
      by (cases "timers e") auto
    let ?e = "rearmed t task rest e"
    note f = fire_runs [OF less.prems(1) t(1), of run]
    note ok = rearmed_ok [OF less.prems(1) t(1)] and pr = rearmed_progress [OF less.prems(1) t less.prems(2)]
    let ?n = "backlog now ?e + pending_once ?e"
    have "Q (Suc ?n) cs (client ?e)"
      using quiet_mono [OF assms less.prems(4), of "Suc ?n"] pr by simp
    then obtain e1 where e1: "run (task_cb e task) ?e = Inr e1" "timers e1 = timers ?e" "timerReps e1 = timerReps ?e"
      "timerSeq e1 = timerSeq ?e" "fired e1 = fired ?e" "clock ?e \<le> clock e1" "Q ?n (cs @ [task_cb e task]) (client e1)"
      using assms unfolding quiet_def by blast
    have "timers_ok e1" "steady e1" "backlog now e1 = backlog now ?e" "pending_once e1 = pending_once ?e"
      using ok pr e1 by (simp_all add: timers_ok_def steady_def backlog_def pending_once_def)
    with less.hyps [of e1 "cs @ [task_cb e task]"] pr less.prems(3) e1(4,7) obtain e' fs where
      l: "timeouts_loop run (now, 2 ^ 62) e1 = Some (Inr e')" "timers_ok e'" "fired e' = fired e1 @ fs"
        "served now e1 fs e'" "in_order e1 fs" "\<forall>f \<in> set fs. fst (fst f) \<le> now"
        "\<forall>p \<in> set (timers e'). now < fst (fst p)" "clock e1 \<le> clock e'" "Q 0 ((cs @ [task_cb e task]) @ map (task_cb e1 \<circ> snd) fs) (client e')" by auto
    have "task_cb e1 x = task_cb ?e x" for x using e1(3) by (cases x) simp_all
    then have cb: "task_cb e1 = task_cb e" using rearmed_cb [OF less.prems(1) t(1)] by auto
    have "timeouts_loop run (now, 2 ^ 62) e = Some (Inr e')"
      using small [of t task] t l(1) e1(1) f by (subst timeouts_loop.simps) simp
    moreover have sv: "served now ?e fs e'" using l(4) served_cong [OF e1(2,3)] by simp
    have "served now e ((t, task) # fs) e'"
    proof (cases task)
      case (Once c)
      then show ?thesis using served_once [of e t c rest now fs e'] less.prems(1) t sv by simp
    next
      case (Repeat k)
      then obtain r where "map_of (timerReps e) k = Some r" using ok_repeat [OF less.prems(1), of t k] t(1) by auto
      then show ?thesis using served_repeat [of e t k rest r now fs e'] Repeat less.prems t sv by simp
    qed
    moreover have "in_order e ((t, task) # fs)"
      by (rule in_order_step [OF less.prems(1) t(1) less.prems(2)]) (use l(5) e1(2) in \<open>simp add: in_order_def\<close>)
    ultimately show ?thesis using l(2,3,6-9) e1(5,6) t(2) cb by (intro exI [of _ e'] exI [of _ "(t, task) # fs"]) simp
  qed
qed

lemma client_refresh [simp]: "client (refreshNearest e) = client e"
  by (simp add: client_def refreshNearest_def)

lemma handleTimeouts_serves:
  assumes "quiet Q run" "timers_ok e" "steady e" "timerSeq e + int (backlog (clock e) e) < 2 ^ 62"
    and "Q (backlog (clock e) e + pending_once e) [] (client e)"
  shows "\<exists>e' fs. handleTimeouts run e = Some (Inr e') \<and> timers_ok e' \<and> Q 0 (map (task_cb e \<circ> snd) fs) (client e') \<and>
     fired e' = fired e @ fs \<and> sorted_wrt (<) (map fst fs) \<and> served (clock e) e fs e' \<and>
     (\<forall>f \<in> set fs. fst (fst f) \<le> clock e) \<and> (\<forall>p \<in> set (timers e'). clock e < fst (fst p))"
proof -
  obtain e' fs where "timeouts_loop run (clock e, 2 ^ 62) e = Some (Inr e')" "timers_ok e'" "fired e' = fired e @ fs"
      "served (clock e) e fs e'" "in_order e fs" "\<forall>f \<in> set fs. fst (fst f) \<le> clock e"
      "\<forall>p \<in> set (timers e'). clock e < fst (fst p)" "Q 0 (map (task_cb e \<circ> snd) fs) (client e')"
    using timeouts_loop_serves [OF assms(1-4), of "[]"] assms(5) by auto
  then show ?thesis
    by (intro exI [of _ "refreshNearest e'"] exI [of _ fs]) (auto simp: handleTimeouts_def in_order_def served_def)
qed

section \<open>Idle lists\<close>

text \<open>Each list is in the order of the last update, which is what lets \<open>callIdles\<close> stop at the first
  connection that is not idle yet.\<close>

definition idle_ok :: "('t, 'a) events_scheme \<Rightarrow> bool" where
  "idle_ok e \<longleftrightarrow> mok (idleConns e) \<and> (\<forall>idle l. map_of (idleConns e) idle = Some l \<longrightarrow>
     sorted (map n_updated l) \<and> (\<forall>n \<in> set l. n_updated n \<le> clock e div 1000 \<and> n_ref n < node_refs e))"

lemma idle_okD:
  "idle_ok e \<Longrightarrow> map_of (idleConns e) idle = Some l \<Longrightarrow>
     sorted (map n_updated l) \<and> (\<forall>n \<in> set l. n_updated n \<le> clock e div 1000 \<and> n_ref n < node_refs e)"
  unfolding idle_ok_def by blast

lemma idle_ok_put:
  assumes "idle_ok e" "sorted (map n_updated l)" "\<forall>n \<in> set l. n_updated n \<le> clock e div 1000 \<and> n_ref n < refs"
    and "node_refs e \<le> refs"
  shows "idle_ok (e\<lparr>idleConns := mput idle l (idleConns e), node_refs := refs\<rparr>)"
proof -
  have m: "mok (idleConns e)" using assms(1) by (simp add: idle_ok_def)
  have "sorted (map n_updated l') \<and> (\<forall>n \<in> set l'. n_updated n \<le> clock e div 1000 \<and> n_ref n < refs)"
    if "map_of (mput idle l (idleConns e)) i = Some l'" for i l'
    using that m assms(2-4) idle_okD [OF assms(1), of i l'] by (fastforce split: if_splits)
  then show ?thesis using m by (simp add: idle_ok_def)
qed

lemma idle_ok_refs: "idle_ok e \<Longrightarrow> idle_ok (e\<lparr>idleConns := m, node_refs := node_refs e\<rparr>) \<Longrightarrow> idle_ok (e\<lparr>idleConns := m\<rparr>)"
  by (simp add: idle_ok_def)

lemma find_node_ok:
  assumes "idle_ok e" "find_node i e = Inr (n, rest)"
  shows "sorted (map n_updated rest) \<and> (\<forall>m \<in> set rest. n_updated m \<le> clock e div 1000 \<and> n_ref m < node_refs e) \<and>
         n_ref n < node_refs e"
proof -
  obtain l where l: "map_of (idleConns e) (fst i) = Some l" "find (\<lambda>n. n_ref n = snd i) l = Some n"
    "rest = filter (\<lambda>n. n_ref n \<noteq> snd i) l"
    using assms(2) by (auto simp: find_node_def split: option.splits)
  have "n \<in> set l" using l(2) by (auto simp: find_Some_iff in_set_conv_nth)
  then show ?thesis using idle_okD [OF assms(1) l(1)] l(3) by (auto simp: sorted_filter)
qed

lemma unregisterIdle_ok: "idle_ok e \<Longrightarrow> unregisterIdle i e = Inr e' \<Longrightarrow> idle_ok e'"
  using find_node_ok [of e i] idle_ok_put [of e _ "node_refs e" "fst i"]
  by (auto simp: unregisterIdle_def intro!: idle_ok_refs)

lemma updateIdle_ok:
  assumes "idle_ok e" "updateIdle i e = Inr e'"
  shows "idle_ok e'"
proof -
  obtain n rest where f: "find_node i e = Inr (n, rest)"
    "e' = e\<lparr>idleConns := mput (fst i) (rest @ [n\<lparr>n_updated := clock e div 1000\<rparr>]) (idleConns e)\<rparr>"
    using assms(2) by (auto simp: updateIdle_def)
  then show ?thesis
    using find_node_ok [OF assms(1) f(1)] idle_ok_put [OF assms(1), of "rest @ [n\<lparr>n_updated := clock e div 1000\<rparr>]" "node_refs e"]
    by (auto simp: sorted_append intro!: idle_ok_refs [OF assms(1)])
qed

lemma runAt_idle [simp]:
  "idleConns (snd (runAt m c i e)) = idleConns e" "node_refs (snd (runAt m c i e)) = node_refs e"
  "clock (snd (runAt m c i e)) = clock e"
  by (simp_all add: runAt_def Let_def refreshNearest_def)

lemma registerIdle_ok:
  assumes "idle_ok e"
  shows "idle_ok (snd (registerIdle tick idle cb e))"
proof -
  let ?e = "if idleEnabled e then e else (snd (runAfter 1000 tick 1000 e))\<lparr>idleEnabled := True\<rparr>"
  let ?l = "fst (mindex [] idle (idleConns ?e))" and ?n = "\<lparr>n_ref = node_refs ?e, n_updated = clock ?e div 1000, n_cb = cb\<rparr>"
  have e: "idle_ok ?e" using assms by (simp add: idle_ok_def runAfter_def)
  have "sorted (map n_updated ?l) \<and> (\<forall>n \<in> set ?l. n_updated n \<le> clock ?e div 1000 \<and> n_ref n < node_refs ?e)"
    using idle_okD [OF e, of idle] by (auto simp: mindex_def split: option.splits)
  then have "idle_ok (?e\<lparr>idleConns := mput idle (?l @ [?n]) (idleConns ?e), node_refs := node_refs ?e + 1\<rparr>)"
    by (intro idle_ok_put [OF e]) (auto simp: sorted_append less_Suc_eq)
  moreover have "mput idle (?l @ [?n]) (snd (mindex [] idle (idleConns ?e))) = mput idle (?l @ [?n]) (idleConns ?e)"
    using e mput_mput [of "idleConns ?e"] by (auto simp: mindex_def idle_ok_def split: option.splits)
  ultimately show ?thesis by (simp add: registerIdle_def Let_def case_prod_unfold)
qed

text \<open>The inner loop: old nodes in front, those already called behind them.\<close>

lemma idle_loop_calls:
  assumes "0 < idle" "\<And>c e. run c e = Inr (act c e)"
  shows "sorted (map n_updated l) \<Longrightarrow> \<forall>n \<in> set called. n_updated n = now \<Longrightarrow>
    idle_loop run now idle (l @ called) e =
      Some (Inr (fold act (map n_cb (filter (\<lambda>n. n_updated n + idle \<le> now) l)) e))"
proof (induction l arbitrary: called e)
  case Nil
  then show ?case using assms(1) by (subst idle_loop.simps) (auto split: list.splits)
next
  case (Cons n l)
  show ?case
  proof (cases "now < n_updated n + idle")
    case True
    then have "filter (\<lambda>m. n_updated m + idle \<le> now) l = []" using Cons.prems(1) by (auto simp: filter_empty_conv)
    then show ?thesis using True by (subst idle_loop.simps) simp
  next
    case False
    then have "idle_loop run now idle ((n # l) @ called) e =
        idle_loop run now idle (l @ (called @ [n\<lparr>n_updated := now\<rparr>])) (act (n_cb n) e)"
      by (subst idle_loop.simps) (simp add: assms(2))
    then show ?thesis using False Cons.IH [of "called @ [n\<lparr>n_updated := now\<rparr>]" "act (n_cb n) e"] Cons.prems by simp
  qed
qed

definition due_idles :: "int \<Rightarrow> (int \<times> 't idle_node list) list \<Rightarrow> 't list" where
  "due_idles now m = concat (map (\<lambda>(idle, l). map n_cb (filter (\<lambda>n. n_updated n + idle \<le> now) l)) m)"

lemma fold_keeps: "(\<And>c e. f (act c e) = f e) \<Longrightarrow> f (fold act cs e) = f e"
  by (induction cs arbitrary: e) simp_all

lemma idles_from_calls:
  assumes "\<And>c e. run c e = Inr (act c e)" "\<And>c e. idleConns (act c e) = idleConns e"
  shows "idleConns e = done @ todo \<Longrightarrow> mok (done @ todo) \<Longrightarrow>
    \<forall>p \<in> set todo. 0 < fst p \<and> sorted (map n_updated (snd p)) \<Longrightarrow>
    idles_from run now todo e = Some (Inr (fold act (due_idles now todo) e))"
proof (induction todo arbitrary: "done" e)
  case Nil
  then show ?case by (subst idles_from.simps) (simp add: due_idles_def)
next
  case (Cons p todo)
  obtain idle l where p: "p = (idle, l)" by (cases p)
  let ?cs = "map n_cb (filter (\<lambda>n. n_updated n + idle \<le> now) l)"
  have l: "idle_loop run now idle l e = Some (Inr (fold act ?cs e))"
    using idle_loop_calls [where called = "[]" and idle = idle and l = l, OF _ assms(1)] Cons.prems(3) by (simp add: p)
  have e: "idleConns (fold act ?cs e) = done @ p # todo"
    using fold_keeps [of idleConns act ?cs e] assms(2) Cons.prems(1) by simp
  have "\<forall>q \<in> set done. fst q < idle" "\<forall>q \<in> set todo. idle < fst q"
    using Cons.prems(2) by (auto simp: mok_def sorted_wrt_append p)
  then have "dropWhile (\<lambda>q. fst q \<le> idle) (done @ p # todo) = todo"
    by (subst dropWhile_append2) (cases todo; force simp: p)+
  then have "idles_from run now (p # todo) e = idles_from run now todo (fold act ?cs e)"
    using l e by (subst idles_from.simps) (simp add: p)
  then show ?case using Cons.IH [of "fold act ?cs e" "done @ [p]"] e Cons.prems by (simp add: p due_idles_def)
qed

section \<open>Properties\<close>

text \<open>
  C12. A turn of the timers serves exactly what is due: for callbacks that leave the
  timers alone, \<open>handleTimeouts\<close> returns, has run every one-shot timer due by the time it started
  once and no other, every repeating timer once for each of its due times, in the order of due time
  and creation, and leaves only timers in the future.
\<close>

theorem timers_served:
  assumes "quiet Q run" "timers_ok e" "steady e" "timerSeq e + int (backlog (clock e) e) < 2 ^ 62"
    and "Q (backlog (clock e) e + pending_once e) [] (client e)"
  shows "\<exists>e' fs. handleTimeouts run e = Some (Inr e') \<and> timers_ok e' \<and> Q 0 (map (task_cb e \<circ> snd) fs) (client e') \<and>
     fired e' = fired e @ fs \<and> sorted_wrt (<) (map fst fs) \<and> served (clock e) e fs e' \<and>
     (\<forall>f \<in> set fs. fst (fst f) \<le> clock e) \<and> (\<forall>p \<in> set (timers e'). clock e < fst (fst p))"
  using handleTimeouts_serves [OF assms] by blast

definition two_timers :: "nat events" where
  "two_timers = (snd (runAt 3 7 2 (snd (runAt 5 9 0 (events_new 0)))))\<lparr>clock := 6\<rparr>"

lemma two_timers_eval:
  "timers two_timers = [((3, 3), Repeat (- 3, 2)), ((5, 1), Once 9)]"
  "timerReps two_timers = [((- 3, 2), \<lparr>r_at = 3, r_interval = 2, r_timerid = (3, 3), r_cb = 7\<rparr>)]"
  "timerSeq two_timers = 3" "clock two_timers = 6"
  by (simp_all add: two_timers_def runAt_def events_new_def refreshNearest_def mput_def Let_def)

theorem timers_served_witness:
  "\<exists>e' fs. handleTimeouts (\<lambda>c e. Inr e) two_timers = Some (Inr e') \<and> ((5, 1), Once (9 :: nat)) \<in> set fs \<and> runs_of (- 3, 2) fs = 2"
proof -
  have "quiet (\<lambda>_ _ _. True) (\<lambda>c e. Inr e)" by (simp add: quiet_def)
  moreover have "timers_ok two_timers"
    using runAt_ok [OF runAt_ok [OF events_new_ok]] by (simp add: two_timers_def timers_ok_def)
  moreover have "steady two_timers" by (auto simp: steady_def two_timers_eval split: if_splits)
  moreover have "timerSeq two_timers + int (backlog (clock two_timers) two_timers) < 2 ^ 62"
    by (simp add: backlog_def two_timers_eval)
  ultimately obtain e' fs where "handleTimeouts (\<lambda>c e. Inr e) two_timers = Some (Inr e')"
      and sv: "served (clock two_timers) two_timers fs e'"
    using timers_served [of "\<lambda>_ _ _. True" "\<lambda>c e. Inr e" two_timers] by blast
  moreover have "((5, 1), Once 9) \<in> set fs" "runs_of (- 3, 2) fs = 2"
    using served_onceD [OF sv, of "(5, 1)" 9] served_repD [OF sv, of "(- 3, 2)"]
    by (auto simp: two_timers_eval periods_def)
  ultimately show ?thesis by blast
qed

text \<open>
  Cancelling what \<open>runAt\<close> returned withdraws the timer and leaves all others
  as they were. Cancelling it once more is reported for a one-shot timer, but for a repeating one
  dereferences the end iterator of \<open>timerReps_\<close>, although the interface says that an expired timer is
  ignored.
\<close>

theorem cancel_withdraws:
  assumes "timers_ok e" "\<not> ev_exit e" "0 < milli" "runAt milli task interval e = (tid, e1)"
  shows "\<exists>e2. cancel tid e1 = Inr (True, e2) \<and> timers e2 = timers e \<and> timerReps e2 = timerReps e \<and>
           cancel tid e2 = (if interval = 0 then Inr (False, e2) else Inl IterInvalid)"
proof (cases "interval = 0")
  case True
  have "map_of (timers e) (milli, timerSeq e + 1) = None" by (rule fresh_timer [OF assms(1)]) simp
  then show ?thesis
    using assms ok_mok [OF assms(1)] True runAt_once [OF assms(1,2), of milli task]
    by (auto simp: cancel_def mdel_mput mhas_def)
next
  case False
  have "map_of (timers e) (milli, timerSeq e + 2) = None" "map_of (timerReps e) (- milli, timerSeq e + 1) = None"
    using fresh_timer [OF assms(1)] fresh_rep [OF assms(1)] by simp_all
  then show ?thesis
    using assms ok_mok [OF assms(1)] False runAt_repeat [OF assms(2) False, of milli task]
    by (auto simp: cancel_def mdel_mput)
qed

theorem cancel_withdraws_witness:
  "\<exists>e2. cancel (- 6000, 1) (snd (runAt 6000 CHR ''p'' 6000 (events_new 0))) = Inr (True, e2) \<and> timers e2 = []"
proof -
  have r: "runAt 6000 CHR ''p'' 6000 (events_new 0) = ((- 6000, 1), snd (runAt 6000 CHR ''p'' 6000 (events_new 0)))"
    by (simp add: runAt_def events_new_def Let_def)
  have "timers (events_new 0 :: char events) = []" "\<not> ev_exit (events_new 0 :: char events)" by (simp_all add: events_new_def)
  then show ?thesis using cancel_withdraws [OF events_new_ok _ _ r] by auto
qed

text \<open>
  How long the loop may sleep: with the first timer due in \<open>d\<close> milliseconds,
  \<open>nextTimeout_\<close> is \<open>d\<close> while \<open>d\<close> fits in 31 bits and 0 for a timer that is late. Beyond that the
  conversion to \<open>int\<close> wraps: from \<open>2 ^ 31\<close> to \<open>2 ^ 32\<close>, 24.8 to 49.7 days ahead, the wait is 0 and the
  loop spins.
\<close>

theorem poll_wait_bounds:
  assumes "timers e = (t, task) # rest" "fst t - clock e = d" "- (2 ^ 31) \<le> d" "d < 2 ^ 32"
  shows "nextTimeout (refreshNearest e) = (if 0 \<le> d \<and> d < 2 ^ 31 then d else 0)"
proof -
  have "(d + 2 ^ 31) mod 2 ^ 32 = d + 2 ^ 31 - 2 ^ 32" if "2 ^ 31 \<le> d"
    using minus_mod_self2 [of "d + 2 ^ 31" "2 ^ 32"] mod_pos_pos_trivial [of "d + 2 ^ 31 - 2 ^ 32" "2 ^ 32"] that assms(4) by simp
  then have "to_int32 d = (if d < 2 ^ 31 then d else d - 2 ^ 32)"
    using assms(3,4) by (auto simp: to_int32_def signed_take_bit_eq_take_bit_shift take_bit_eq_mod)
  then show ?thesis using assms by (simp add: refreshNearest_def)
qed

theorem poll_wait_bounds_witness:
  "nextTimeout (refreshNearest ((events_new 0)\<lparr>timers := [((2592000000, 1), Once ())]\<rparr>)) = 0"
  using poll_wait_bounds [of "(events_new 0)\<lparr>timers := [((2592000000, 1), Once ())]\<rparr>" "(2592000000, 1)" "Once ()" "[]" 2592000000]
  by (simp add: events_new_def)

text \<open>
  \<open>callIdles\<close> calls exactly the connections that have been idle for their time, list
  by list and longest idle first, although it stops at the first that is not. But it works on a copy of
  each list: the lists, with the times it meant to set, are as before, so a connection that stays
  silent is called again every second and not once per idle time.
\<close>

theorem idle_callbacks:
  assumes "idle_ok e" "\<forall>p \<in> set (idleConns e). 0 < fst p"
    and "\<And>c e. run c e = Inr (act c e)" "\<And>c e. idleConns (act c e) = idleConns e"
  shows "callIdles run e = Some (Inr (fold act (due_idles (clock e div 1000) (idleConns e)) e)) \<and>
         idleConns (fold act (due_idles (clock e div 1000) (idleConns e)) e) = idleConns e"
proof -
  have m: "mok (idleConns e)" using assms(1) by (simp add: idle_ok_def)
  have "sorted (map n_updated (snd p))" if "p \<in> set (idleConns e)" for p
    using idle_okD [OF assms(1), of "fst p" "snd p"] that mok_distinct [OF m] by (simp add: map_of_eq_Some_iff)
  then have "callIdles run e = Some (Inr (fold act (due_idles (clock e div 1000) (idleConns e)) e))"
    unfolding callIdles_def using assms(2) m by (intro idles_from_calls [OF assms(3,4), of _ "[]"]) auto
  moreover have "idleConns (fold act cs e) = idleConns e" for cs using fold_keeps [of idleConns act] assms(4) by blast
  ultimately show ?thesis by blast
qed

theorem idle_callbacks_witness:
  "callIdles (\<lambda>c e. Inr (e\<lparr>timerSeq := timerSeq e + c\<rparr>))
     ((snd (registerIdle 0 10 (5 :: int) (events_new 1000)))\<lparr>clock := 11000\<rparr>) =
   Some (Inr (((snd (registerIdle 0 10 5 (events_new 1000)))\<lparr>clock := 11000\<rparr>)\<lparr>timerSeq := 7\<rparr>))"
proof -
  let ?e = "(snd (registerIdle 0 10 (5 :: int) (events_new 1000)))\<lparr>clock := 11000\<rparr>"
  have "idle_ok (events_new 1000 :: int events)" by (simp add: idle_ok_def events_new_def)
  from registerIdle_ok [OF this, of 0 10 5] have "idle_ok ?e"
    by (auto simp: idle_ok_def registerIdle_def runAfter_def Let_def case_prod_unfold events_new_def mindex_def mput_def split: if_splits)
  then have "callIdles (\<lambda>c e. Inr (e\<lparr>timerSeq := timerSeq e + c\<rparr>)) ?e =
      Some (Inr (fold (\<lambda>c e. e\<lparr>timerSeq := timerSeq e + c\<rparr>) (due_idles (clock ?e div 1000) (idleConns ?e)) ?e))"
    using idle_callbacks [of ?e "\<lambda>c e. Inr (e\<lparr>timerSeq := timerSeq e + c\<rparr>)" "\<lambda>c e. e\<lparr>timerSeq := timerSeq e + c\<rparr>"]
    by (simp add: registerIdle_def runAfter_def Let_def case_prod_unfold events_new_def mindex_def mput_def)
  then show ?thesis
    by (simp add: due_idles_def registerIdle_def runAfter_def runAt_def refreshNearest_def Let_def case_prod_unfold events_new_def mindex_def mput_def)
qed

declare split_paired_All [simp] split_paired_Ex [simp]

end
