(* ===== verification/AdminLoop.thy ===== *)
theory AdminLoop
  imports Server Timers
begin

text \<open>
  The admin thread's event loop with the server's timer: \<open>DSServer::initAdmin\<close> has \<open>checkStorePlan\<close>
  run every six seconds (\<open>DSServer.cc\<close>). The server's state is the extension of the loop's state;
  \<open>localtime\<close> is a parameter that gives the day of the week and the hour of a time.
\<close>

datatype admin_timer = CheckPlans

definition admin_run :: "ms_msg protobuf \<Rightarrow> os_env \<Rightarrow> (int \<Rightarrow> nat \<times> nat) \<Rightarrow> (admin_timer, mgr) runner" where
  "admin_run P env localtime c e =
     (case c of CheckPlans \<Rightarrow>
        rbind (checkStorePlan P env (fst (localtime (clock e))) (snd (localtime (clock e))) (events.more e))
          (\<lambda>w. Inr (events.more_update (\<lambda>_. w) e)))"

definition start_checks :: "(admin_timer, mgr) events_scheme \<Rightarrow> (admin_timer, mgr) events_scheme" where
  "start_checks e = snd (runAfter 6000 CheckPlans 6000 e)"

text \<open>The loop of a server in state \<open>w\<close>, created at time \<open>now\<close>.\<close>

definition admin_loop :: "int \<Rightarrow> mgr \<Rightarrow> (admin_timer, mgr) events_scheme" where
  "admin_loop now w = events.extend (events_new now) w"

lemma admin_run_frame:
  "admin_run P env lt c e = Inr e' \<Longrightarrow> timers e' = timers e \<and> timerReps e' = timerReps e \<and>
     timerSeq e' = timerSeq e \<and> fired e' = fired e \<and> clock e' = clock e"
  by (auto simp: admin_run_def split: admin_timer.splits)

interpretation adm: timer_client "admin_run P env lt"
proof
  fix c e e' assume "timers_ok e" "admin_run P env lt c e = Inr e'"
  then show "timers_ok e'" using admin_run_frame [of P env lt c e e'] by (simp add: timers_ok_def)
qed

lemma admin_loop_fields [simp]:
  "timers (admin_loop now w) = []" "timerReps (admin_loop now w) = []" "timerSeq (admin_loop now w) = 0"
  "clock (admin_loop now w) = now" "events.more (admin_loop now w) = w" "ev_exit (admin_loop now w) = False"
  "fired (admin_loop now w) = []"
  by (simp_all add: admin_loop_def events_new_def events.defs)

lemma started:
  "timers (start_checks (admin_loop t0 w)) = [((t0 + 6000, 2), Repeat (- (t0 + 6000), 1))]"
  "timerReps (start_checks (admin_loop t0 w)) =
     [((- (t0 + 6000), 1), \<lparr>r_at = t0 + 6000, r_interval = 6000, r_timerid = (t0 + 6000, 2), r_cb = CheckPlans\<rparr>)]"
  "timerSeq (start_checks (admin_loop t0 w)) = 2" "clock (start_checks (admin_loop t0 w)) = t0"
  "events.more (start_checks (admin_loop t0 w)) = w" "fired (start_checks (admin_loop t0 w)) = []"
  by (simp_all add: start_checks_def runAfter_def runAt_def mput_Nil Let_def)

lemma started_ok: "timers_ok (start_checks (admin_loop t0 w))"
  unfolding start_checks_def runAfter_def by (rule runAt_ok) (simp add: timers_ok_def)

text \<open>\<open>aligned\<close>: a planned stream is recording exactly when its plan says so, the others are as in \<open>w\<close>.\<close>

definition aligned :: "nat \<times> nat \<Rightarrow> mgr \<Rightarrow> mgr \<Rightarrow> bool" where
  "aligned tm w w' \<longleftrightarrow> (\<forall>k. stream_exists k w' \<longleftrightarrow> (case map_of (curPlans w) k of
     Some p \<Rightarrow> scheduled (getCurDay (fst tm)) (getCurHour (snd tm)) p | None \<Rightarrow> stream_exists k w))"

definition server_good :: "(nat \<times> nat) \<Rightarrow> mgr \<Rightarrow> nat \<Rightarrow> admin_timer list \<Rightarrow> mgr \<Rightarrow> bool" where
  "server_good tm w n cs w' \<longleftrightarrow> sessions_ok w' \<and> plans_ok w' \<and> curPlans w' = curPlans w \<and>
     created w' + n * length (curPlans w) < 2 ^ 64 \<and>
     (\<forall>k. map_of (curPlans w) k = None \<longrightarrow> stream_exists k w' = stream_exists k w) \<and> (cs \<noteq> [] \<longrightarrow> aligned tm w w')"

lemma server_quiet:
  assumes "prep_left env = 0" "\<forall>t. fst (lt t) < 7"
  shows "quiet (\<lambda>n cs e. clock e = now \<and> server_good (lt now) w n cs (events.more e)) (admin_run P env lt)"
  unfolding quiet_def
proof (intro conjI allI impI)
  fix n cs and e :: "(admin_timer, mgr) events_scheme"
  assume "clock e = now \<and> server_good (lt now) w (Suc n) cs (events.more e)"
  then show "clock e = now" "server_good (lt now) w n cs (events.more e)" by (auto simp: server_good_def)
next
  fix n cs c and e :: "(admin_timer, mgr) events_scheme"
  let ?w = "events.more e"
  assume "clock (client e) = now \<and> server_good (lt now) w (Suc n) cs (events.more (client e))"
  then have g: "clock e = now" "server_good (lt now) w (Suc n) cs ?w" by simp_all
  then have len: "created ?w + length (curPlans ?w) < 2 ^ 64" by (simp add: server_good_def)
  have ok: "sessions_ok ?w" "plans_ok ?w" using g(2) by (simp_all add: server_good_def)
  obtain w' where w': "checkStorePlan P env (fst (lt now)) (snd (lt now)) ?w = Inr w'" "sessions_ok w'" "plans_ok w'"
      "same_plans ?w w'" "created w' \<le> created ?w + length (curPlans ?w)"
      "\<forall>k. stream_exists k w' \<longleftrightarrow> (case map_of (curPlans ?w) k of
        Some p \<Rightarrow> scheduled (getCurDay (fst (lt now))) (getCurHour (snd (lt now))) p | None \<Rightarrow> stream_exists k ?w)"
    using checkStorePlan_ok [OF ok assms(1) spec [OF assms(2)] len, where tm_hour = "snd (lt now)" and P = P] by blast
  have "server_good (lt now) w n (cs @ [c]) w'"
    using g(2) w'(2-6) by (auto simp: server_good_def aligned_def same_plans_def split: option.splits)
  moreover have r: "admin_run P env lt c e = Inr (events.more_update (\<lambda>_. w') e)"
    using w'(1) g(1) by (cases c) (simp add: admin_run_def)
  ultimately show "\<exists>e'. admin_run P env lt c e = Inr e' \<and>
      (clock (client e') = now \<and> server_good (lt now) w n (cs @ [c]) (events.more (client e'))) \<and>
      timers e' = timers e \<and> timerReps e' = timerReps e \<and> timerSeq e' = timerSeq e \<and> fired e' = fired e \<and> clock e \<le> clock e'"
    using g(1) by (intro exI [of _ "events.more_update (\<lambda>_. w') e"]) simp
qed

section \<open>Properties\<close>

lemma length_by_key:
  assumes "\<And>i c. (i, Once c) \<notin> set fs" "\<And>k'. k' \<noteq> k \<Longrightarrow> runs_of k' fs = 0"
  shows "int (length fs) = runs_of k fs"
proof -
  have "snd f = Repeat k" if "f \<in> set fs" for f
  proof (cases "snd f")
    case (Once c)
    then show ?thesis using assms(1) [of "fst f" c] that by (metis prod.collapse)
  next
    case (Repeat k')
    then have "filter (\<lambda>f. snd f = Repeat k') fs \<noteq> []" using that by (auto simp: filter_empty_conv)
    then show ?thesis using assms(2) [of k'] Repeat by (auto simp: runs_of_def)
  qed
  then have "filter (\<lambda>f. snd f = Repeat k) fs = fs" by (simp add: filter_id_conv)
  then show ?thesis by (simp add: runs_of_def)
qed



end
