(* ===== verification/Conf.thy ===== *)
theory Conf
  imports LN_Prelude
begin

text \<open>
  Configuration files: \<open>Conf\<close> (\<open>conf.h\<close>, \<open>conf.cc\<close>). The file's content is a parameter of \<open>parse\<close>
  (\<open>None\<close> when it cannot be opened), cut into lines as \<open>fgets\<close> does. The line buffer ends with a NUL
  byte, which reading at the end of the line meets. \<open>isspace\<close> and \<open>tolower\<close> are those of the \<open>C\<close>
  locale; \<open>strtol\<close> is modelled, \<open>strtod\<close> is a parameter of \<open>getReal\<close>.
\<close>

section \<open>Look-up\<close>

record conf =
  conf_values :: "(string \<times> string list) list"
  conf_filename :: string

definition makeKey :: "string \<Rightarrow> string \<Rightarrow> string" where
  "makeKey section name = map tolower (section @ ''.'' @ name)"

text \<open>\<open>p->second.back()\<close>: undefined on an empty list.\<close>

definition conf_get :: "string \<Rightarrow> string \<Rightarrow> string \<Rightarrow> conf \<Rightarrow> string res" where
  "conf_get section name dflt c =
     (case map_of (conf_values c) (makeKey section name) of
        None \<Rightarrow> Inr dflt
      | Some vs \<Rightarrow> (if vs = [] then Inl OutOfBounds else Inr (last vs)))"

definition getStrings :: "string \<Rightarrow> string \<Rightarrow> conf \<Rightarrow> string list" where
  "getStrings section name c = (case map_of (conf_values c) (makeKey section name) of None \<Rightarrow> [] | Some vs \<Rightarrow> vs)"

section \<open>Typed look-up\<close>

definition getInteger :: "string \<Rightarrow> string \<Rightarrow> int \<Rightarrow> conf \<Rightarrow> int res" where
  "getInteger section name dflt c =
     rbind (conf_get section name [] c) (\<lambda>v. Inr (if snd (strtol 0 v) then fst (strtol 0 v) else dflt))"

definition getReal :: "(string \<Rightarrow> 'd \<times> bool) \<Rightarrow> string \<Rightarrow> string \<Rightarrow> 'd \<Rightarrow> conf \<Rightarrow> 'd res" where
  "getReal strtod section name dflt c =
     rbind (conf_get section name [] c) (\<lambda>v. Inr (if snd (strtod v) then fst (strtod v) else dflt))"

definition getBoolean :: "string \<Rightarrow> string \<Rightarrow> bool \<Rightarrow> conf \<Rightarrow> bool res" where
  "getBoolean section name dflt c =
     rbind (conf_get section name [] c) (\<lambda>v. let valstr = map tolower v in
       Inr (if valstr \<in> {''true'', ''yes'', ''on'', ''1''} then True
            else if valstr \<in> {''false'', ''no'', ''off'', ''0''} then False
            else dflt))"

section \<open>\<open>LineScanner\<close>\<close>

abbreviation NUL :: char where "NUL \<equiv> CHR 0x00"

record scanner =
  sc_ln :: string
  sc_p :: nat
  sc_err :: bool

definition scanner_new :: "string \<Rightarrow> scanner" where
  "scanner_new ln = \<lparr>sc_ln = ln, sc_p = 0, sc_err = False\<rparr>"

definition char_at :: "string \<Rightarrow> nat \<Rightarrow> char" where
  "char_at ln p = (if p < length ln then ln ! p else NUL)"

definition skipSpaces :: "scanner \<Rightarrow> scanner" where
  "skipSpaces ls =
     (if sc_err ls then ls
      else ls\<lparr>sc_p := sc_p ls + length (takeWhile (\<lambda>c. c \<noteq> NUL \<and> isspace c) (drop (sc_p ls) (sc_ln ls)))\<rparr>)"

definition rstrip :: "string \<Rightarrow> nat \<Rightarrow> nat \<Rightarrow> string" where
  "rstrip ln s e = rev (dropWhile isspace (rev (take (e - s) (drop s ln))))"

definition peekChar :: "scanner \<Rightarrow> char \<times> scanner" where
  "peekChar ls = (let ls' = skipSpaces ls in (char_at (sc_ln ls') (sc_p ls'), ls'))"

definition sc_skip :: "nat \<Rightarrow> scanner \<Rightarrow> scanner" where
  "sc_skip i ls = ls\<lparr>sc_p := sc_p ls + i\<rparr>"

definition sc_match :: "char \<Rightarrow> scanner \<Rightarrow> scanner" where
  "sc_match c ls = (let ls' = skipSpaces ls in
     ls'\<lparr>sc_p := sc_p ls' + 1, sc_err := (char_at (sc_ln ls') (sc_p ls') \<noteq> c)\<rparr>)"

definition consumeTill :: "char \<Rightarrow> scanner \<Rightarrow> string \<times> scanner" where
  "consumeTill c ls =
     (let ls' = skipSpaces ls; s = sc_p ls';
          e = (if sc_err ls' then s else s + length (takeWhile (\<lambda>x. x \<noteq> NUL \<and> x \<noteq> c) (drop s (sc_ln ls'))))
      in if char_at (sc_ln ls') e \<noteq> c then ([], ls'\<lparr>sc_err := True\<rparr>)
         else (rstrip (sc_ln ls') s e, ls'\<lparr>sc_p := e\<rparr>))"

text \<open>The loop of \<open>consumeTillEnd\<close>: how far it goes, \<open>wasspace\<close> being its flag.\<close>

fun till_end :: "bool \<Rightarrow> string \<Rightarrow> nat" where
  "till_end wasspace [] = 0"
| "till_end wasspace (x # xs) =
     (if x = NUL \<or> x = CHR '';'' \<or> x = CHR ''#'' then 0
      else if wasspace then 0
      else Suc (till_end (isspace x) xs))"

lemma till_end_True [simp]: "till_end True xs = 0"
  by (cases xs) simp_all

definition consumeTillEnd :: "scanner \<Rightarrow> string \<times> scanner" where
  "consumeTillEnd ls =
     (let ls' = skipSpaces ls; s = sc_p ls';
          e = (if sc_err ls' then s else s + till_end False (drop s (sc_ln ls')))
      in (rstrip (sc_ln ls') s e, ls'\<lparr>sc_p := e\<rparr>))"

section \<open>\<open>parse\<close>\<close>

text \<open>\<open>fgets(ln, MAX_LINE, file)\<close>: at most \<open>MAX_LINE - 1\<close> bytes, up to a newline.\<close>

definition MAX_LINE :: nat where "MAX_LINE = 16 * 1024"

definition fgets :: "string \<Rightarrow> string \<times> string" where
  "fgets file = (let n = min (MAX_LINE - 1) (Suc (length (takeWhile (\<lambda>c. c \<noteq> LF) file)))
     in (take n file, drop n file))"

lemma fgets_less [termination_simp]: "file \<noteq> [] \<Longrightarrow> length (snd (fgets file)) < length file"
  by (simp add: fgets_def Let_def MAX_LINE_def)

record parse_state =
  ps_section :: string
  ps_key :: string
  ps_values :: "(string \<times> string list) list"

definition push_value :: "string \<Rightarrow> parse_state \<Rightarrow> parse_state" where
  "push_value v st = (let k = makeKey (ps_section st) (ps_key st); (vs, m) = mindex [] k (ps_values st)
     in st\<lparr>ps_values := mput k (vs @ [v]) m\<rparr>)"

text \<open>The body of the loop; the result is the new value of \<open>err\<close> with the state.\<close>

definition parse_line :: "string \<Rightarrow> parse_state \<Rightarrow> bool \<times> parse_state" where
  "parse_line ln st =
     (let (c, ls) = peekChar (scanner_new ln) in
      if c = CHR '';'' \<or> c = CHR ''#'' \<or> c = NUL then (False, st)
      else if c = CHR ''['' then
        (let (section, ls1) = consumeTill (CHR '']'') (sc_skip 1 ls)
         in (sc_err (sc_match (CHR '']'') ls1), st\<lparr>ps_section := section, ps_key := []\<rparr>))
      else if isspace (char_at ln 0) then
        (if ps_key st \<noteq> [] then (False, push_value (fst (consumeTill NUL ls)) st) else (True, st))
      else
        (let (key1, ls1) = consumeTill (CHR ''='') ls; (c1, ls2) = peekChar ls1;
             (err, key, ls3) =
               (if c1 = CHR ''='' then (False, key1, sc_skip 1 ls2)
                else (let (key2, ls4) = consumeTill (CHR '':'') ls; ls5 = sc_match (CHR '':'') ls4
                      in (sc_err ls5, key2, ls5)))
         in (err, push_value (fst (consumeTillEnd ls3)) (st\<lparr>ps_key := key\<rparr>))))"

function parse_lines :: "string \<Rightarrow> nat \<Rightarrow> parse_state \<Rightarrow> nat \<times> parse_state" where
  "parse_lines file lineno st =
     (if file = [] then (0, st)
      else (let (err, st') = parse_line (fst (fgets file)) st
            in if err then (lineno + 1, st') else parse_lines (snd (fgets file)) (lineno + 1) st'))"
  by auto
termination by (relation "measure (length \<circ> fst)") (auto simp: fgets_less)

definition conf_parse :: "string \<Rightarrow> string option \<Rightarrow> conf \<Rightarrow> int \<times> conf" where
  "conf_parse filename file c =
     (case file of
        None \<Rightarrow> (- 1, c\<lparr>conf_filename := filename\<rparr>)
      | Some text \<Rightarrow>
          (let (r, st) = parse_lines text 0 \<lparr>ps_section = [], ps_key = [], ps_values = conf_values c\<rparr>
           in (int r, c\<lparr>conf_filename := filename, conf_values := ps_values st\<rparr>)))"

declare parse_lines.simps [simp del]

section \<open>The scanner in terms of what lies ahead\<close>

definition ahead :: "scanner \<Rightarrow> string" where
  "ahead ls = drop (sc_p ls) (sc_ln ls)"

definition strip_right :: "string \<Rightarrow> string" where
  "strip_right t = rev (dropWhile isspace (rev t))"

lemma isspace_NUL [simp]: "\<not> isspace NUL"
  by (simp add: isspace_def)

lemma isspace_consts [simp]: "isspace LF" "isspace (CHR '' '')" "\<not> isspace (CHR ''='')" "\<not> isspace (CHR '';'')"
  "\<not> isspace (CHR ''#'')" "\<not> isspace (CHR ''['')" "\<not> isspace (CHR '']'')" "\<not> isspace (CHR '':'')"
  by (simp_all add: isspace_def LF_def)

lemma space_pred: "(\<lambda>c. c \<noteq> NUL \<and> isspace c) = isspace"
  by (auto simp: fun_eq_iff)

lemma char_at_ahead: "char_at (sc_ln ls) (sc_p ls) = (case ahead ls of [] \<Rightarrow> NUL | c # _ \<Rightarrow> c)"
  by (cases "sc_p ls < length (sc_ln ls)") (simp_all add: char_at_def ahead_def Cons_nth_drop_Suc [symmetric])

lemma drop_takeWhile: "drop (length (takeWhile P xs)) xs = dropWhile P xs"
  by (metis dropWhile_eq_drop)

lemma skipSpaces_ahead:
  "\<not> sc_err ls \<Longrightarrow> ahead (skipSpaces ls) = dropWhile isspace (ahead ls)"
  "sc_err (skipSpaces ls) = sc_err ls"
  by (simp_all add: skipSpaces_def ahead_def space_pred drop_takeWhile [symmetric] add.commute)

lemma peekChar_ahead:
  assumes "\<not> sc_err ls"
  shows "\<exists>ls'. peekChar ls = (case dropWhile isspace (ahead ls) of [] \<Rightarrow> NUL | c # _ \<Rightarrow> c, ls') \<and>
           ahead ls' = dropWhile isspace (ahead ls) \<and> \<not> sc_err ls'"
  using skipSpaces_ahead [of ls] assms by (simp add: peekChar_def Let_def char_at_ahead)

lemma takeWhile_till: "x \<notin> set t \<Longrightarrow> y \<notin> set t \<Longrightarrow> takeWhile (\<lambda>c. c \<noteq> x \<and> c \<noteq> y) (t @ y # rest) = t"
  by (induction t) auto

lemma takeWhile_all: "x \<notin> set t \<Longrightarrow> y \<notin> set t \<Longrightarrow> takeWhile (\<lambda>c. c \<noteq> x \<and> c \<noteq> y) t = t"
  by (induction t) auto

lemma consumeTill_found:
  assumes "\<not> sc_err ls" "dropWhile isspace (ahead ls) = t @ c # rest" "NUL \<notin> set t" "c \<notin> set t"
  shows "\<exists>ls'. consumeTill c ls = (strip_right t, ls') \<and> ahead ls' = c # rest \<and> \<not> sc_err ls'"
proof -
  let ?ls = "skipSpaces ls"
  have a: "ahead ?ls = t @ c # rest" "\<not> sc_err ?ls" using skipSpaces_ahead [of ls] assms(1,2) by simp_all
  have tw: "takeWhile (\<lambda>x. x \<noteq> NUL \<and> x \<noteq> c) (ahead ?ls) = t" unfolding a(1) by (rule takeWhile_till [OF assms(3,4)])
  have "char_at (sc_ln ?ls) (sc_p ?ls + length t) = c"
    using char_at_ahead [of "?ls\<lparr>sc_p := sc_p ?ls + length t\<rparr>"] a(1) by (simp add: ahead_def add.commute flip: drop_drop)
  moreover have "rstrip (sc_ln ?ls) (sc_p ?ls) (sc_p ?ls + length t) = strip_right t"
    using a(1) by (simp add: rstrip_def strip_right_def ahead_def)
  moreover have "ahead (?ls\<lparr>sc_p := sc_p ?ls + length t\<rparr>) = c # rest"
    using a(1) by (simp add: ahead_def add.commute flip: drop_drop)
  ultimately show ?thesis using tw a(2) by (simp add: consumeTill_def Let_def ahead_def)
qed

lemma consumeTill_end:
  assumes "\<not> sc_err ls" "dropWhile isspace (ahead ls) = t" "NUL \<notin> set t"
  shows "fst (consumeTill NUL ls) = strip_right t"
proof -
  let ?ls = "skipSpaces ls"
  have a: "ahead ?ls = t" "\<not> sc_err ?ls" using skipSpaces_ahead [of ls] assms(1,2) by simp_all
  have "takeWhile (\<lambda>x. x \<noteq> NUL \<and> x \<noteq> NUL) (ahead ?ls) = t" unfolding a(1) by (rule takeWhile_all [OF assms(3,3)])
  moreover have "char_at (sc_ln ?ls) (sc_p ?ls + length t) = NUL"
    using char_at_ahead [of "?ls\<lparr>sc_p := sc_p ?ls + length t\<rparr>"] a(1) by (simp add: ahead_def add.commute flip: drop_drop)
  moreover have "rstrip (sc_ln ?ls) (sc_p ?ls) (sc_p ?ls + length t) = strip_right t"
    using a(1) by (simp add: rstrip_def strip_right_def ahead_def)
  ultimately show ?thesis using a(2) by (simp add: consumeTill_def Let_def ahead_def)
qed

lemma consumeTill_missing:
  assumes "\<not> sc_err ls" "c \<notin> set (ahead ls)" "NUL \<notin> set (ahead ls)" "c \<noteq> NUL"
  shows "\<exists>ls'. consumeTill c ls = ([], ls') \<and> sc_err ls' \<and> ahead ls' = dropWhile isspace (ahead ls)"
proof -
  let ?ls = "skipSpaces ls"
  have a: "ahead ?ls = dropWhile isspace (ahead ls)" "\<not> sc_err ?ls" using skipSpaces_ahead [of ls] assms(1) by simp_all
  have s: "c \<notin> set (ahead ?ls)" "NUL \<notin> set (ahead ?ls)" using assms(2,3) a(1) by (auto dest: set_dropWhileD)
  have "takeWhile (\<lambda>x. x \<noteq> NUL \<and> x \<noteq> c) (ahead ?ls) = ahead ?ls" by (rule takeWhile_all [OF s(2,1)])
  moreover have "char_at (sc_ln ?ls) (sc_p ?ls + length (ahead ?ls)) = NUL"
    using char_at_ahead [of "?ls\<lparr>sc_p := sc_p ?ls + length (ahead ?ls)\<rparr>"] by (simp add: ahead_def add.commute flip: drop_drop)
  ultimately have "consumeTill c ls = ([], ?ls\<lparr>sc_err := True\<rparr>)"
    using a(2) assms(4) unfolding consumeTill_def Let_def ahead_def by (simp del: takeWhile_eq_all_conv)
  then show ?thesis using a(1) by (simp add: ahead_def)
qed

lemma sc_match_ahead:
  "sc_err (sc_match c ls) = ((case (if sc_err ls then ahead ls else dropWhile isspace (ahead ls)) of [] \<Rightarrow> NUL | d # _ \<Rightarrow> d) \<noteq> c)"
  using skipSpaces_ahead [of ls] char_at_ahead [of "skipSpaces ls"]
  by (cases "sc_err ls") (simp_all add: sc_match_def Let_def skipSpaces_def)

lemma consumeTillEnd_ahead:
  assumes "\<not> sc_err ls"
  shows "fst (consumeTillEnd ls) =
    strip_right (take (till_end False (dropWhile isspace (ahead ls))) (dropWhile isspace (ahead ls)))"
  using skipSpaces_ahead [of ls] assms
  by (simp add: consumeTillEnd_def Let_def rstrip_def strip_right_def ahead_def)

lemma ahead_skip: "ahead (sc_skip n ls) = drop n (ahead ls)" "sc_err (sc_skip n ls) = sc_err ls"
  by (simp_all add: ahead_def sc_skip_def add.commute)

lemma ahead_new: "ahead (scanner_new ln) = ln" "\<not> sc_err (scanner_new ln)"
  by (simp_all add: ahead_def scanner_new_def)

section \<open>Documents\<close>

text \<open>What a configuration file says, as items, and how it is written, one item per line.\<close>

datatype conf_item = Sect string | Entry string string | Cont string | Note string

fun item_line :: "conf_item \<Rightarrow> string" where
  "item_line (Sect s) = ''['' @ s @ '']''"
| "item_line (Entry n v) = n @ '' = '' @ v"
| "item_line (Cont v) = ''  '' @ v"
| "item_line (Note t) = ''#'' @ t"

definition conf_text :: "conf_item list \<Rightarrow> string" where
  "conf_text items = concat (map (\<lambda>i. item_line i @ [LF]) items)"

definition plain :: "char set \<Rightarrow> string \<Rightarrow> bool" where
  "plain S t \<longleftrightarrow> (\<forall>c \<in> set t. \<not> isspace c \<and> c \<noteq> NUL \<and> c \<notin> S)"

fun item_ok :: "conf_item \<Rightarrow> bool" where
  "item_ok (Sect s) = plain {CHR '']''} s"
| "item_ok (Entry n v) =
     (n \<noteq> [] \<and> plain {CHR ''='', CHR '':''} n \<and> hd n \<notin> {CHR '';'', CHR ''#'', CHR ''[''} \<and> plain {CHR '';'', CHR ''#''} v)"
| "item_ok (Cont v) =
     (v \<noteq> [] \<and> \<not> isspace (hd v) \<and> \<not> isspace (last v) \<and> hd v \<notin> {CHR '';'', CHR ''#'', CHR ''[''} \<and>
      NUL \<notin> set v \<and> LF \<notin> set v)"
| "item_ok (Note t) = (LF \<notin> set t)"

text \<open>The values an item list gives, by key, and whether every continuation has an entry to continue.\<close>

fun conf_entries :: "string \<Rightarrow> string \<Rightarrow> conf_item list \<Rightarrow> (string \<times> string) list" where
  "conf_entries sec key [] = []"
| "conf_entries sec key (Sect s # is) = conf_entries s [] is"
| "conf_entries sec key (Entry n v # is) = (makeKey sec n, v) # conf_entries sec n is"
| "conf_entries sec key (Cont v # is) = (makeKey sec key, v) # conf_entries sec key is"
| "conf_entries sec key (Note t # is) = conf_entries sec key is"

fun conts_ok :: "string \<Rightarrow> conf_item list \<Rightarrow> bool" where
  "conts_ok key [] = True"
| "conts_ok key (Sect s # is) = conts_ok [] is"
| "conts_ok key (Entry n v # is) = conts_ok n is"
| "conts_ok key (Cont v # is) = (key \<noteq> [] \<and> conts_ok key is)"
| "conts_ok key (Note t # is) = conts_ok key is"

fun item_effect :: "conf_item \<Rightarrow> parse_state \<Rightarrow> parse_state" where
  "item_effect (Sect s) st = st\<lparr>ps_section := s, ps_key := []\<rparr>"
| "item_effect (Entry n v) st = push_value v (st\<lparr>ps_key := n\<rparr>)"
| "item_effect (Cont v) st = push_value v st"
| "item_effect (Note t) st = st"

lemma plain_space: "plain S t \<Longrightarrow> takeWhile isspace t = [] \<and> dropWhile isspace t = t \<and> dropWhile isspace (rev t) = rev t"
  unfolding plain_def by (metis takeWhile_eq_Nil_iff dropWhile_eq_self_iff hd_in_set set_rev)

lemma plain_set: "plain S t \<Longrightarrow> NUL \<notin> set t \<and> LF \<notin> set t \<and> (\<forall>c \<in> S. c \<notin> set t) \<and> (\<forall>c \<in> set t. \<not> isspace c)"
  unfolding plain_def using isspace_consts(1) by blast

lemma dropWhile_plain: "plain S t \<Longrightarrow> t \<noteq> [] \<Longrightarrow> dropWhile isspace (t @ u) = t @ u"
  by (cases t) (auto simp: plain_def)

lemma strip_right_plain: "plain S t \<Longrightarrow> (\<forall>c \<in> set u. isspace c) \<Longrightarrow> strip_right (t @ u) = t"
proof -
  assume "plain S t" "\<forall>c \<in> set u. isspace c"
  then have "dropWhile isspace (rev u @ rev t) = rev t"
    using plain_space [of S t] by (subst dropWhile_append2) auto
  then show ?thesis by (simp add: strip_right_def)
qed

lemma parse_section:
  assumes "plain {CHR '']''} s"
  shows "parse_line (''['' @ s @ '']'' @ [LF]) st = (False, st\<lparr>ps_section := s, ps_key := []\<rparr>)"
proof -
  let ?ln = "''['' @ s @ '']'' @ [LF]"
  obtain ls where ls: "peekChar (scanner_new ?ln) = (CHR ''['', ls)" "ahead ls = ?ln" "\<not> sc_err ls"
    using peekChar_ahead [of "scanner_new ?ln"] by (auto simp: ahead_new)
  have "dropWhile isspace (s @ '']'' @ [LF]) = s @ CHR '']'' # [LF]"
    using assms by (cases s) (auto simp: plain_def)
  then obtain ls1 where "consumeTill (CHR '']'') (sc_skip 1 ls) = (strip_right s, ls1)" "ahead ls1 = CHR '']'' # [LF]" "\<not> sc_err ls1"
    using consumeTill_found [of "sc_skip 1 ls" s "CHR '']''" "[LF]"] ls(2,3) plain_set [OF assms] by (auto simp: ahead_skip)
  then show ?thesis
    using ls(1) strip_right_plain [OF assms, of "[]"] sc_match_ahead [of "CHR '']''" ls1] by (simp add: parse_line_def)
qed

lemma till_end_plain: "plain {CHR '';'', CHR ''#''} v \<Longrightarrow> till_end False (v @ [LF]) = Suc (length v)"
  by (induction v) (auto simp: plain_def LF_def isspace_def)

lemma parse_entry:
  assumes "n \<noteq> []" "plain {CHR ''='', CHR '':''} n" "hd n \<notin> {CHR '';'', CHR ''#'', CHR ''[''}"
    and "strip_right (take (till_end False (dropWhile isspace v)) (dropWhile isspace v)) = v'"
  shows "parse_line (n @ '' ='' @ v) st = (False, push_value v' (st\<lparr>ps_key := n\<rparr>))"
proof -
  let ?ln = "n @ '' ='' @ v"
  note n = plain_set [OF assms(2)]
  have d: "dropWhile isspace ?ln = ?ln" by (rule dropWhile_plain [OF assms(2,1)])
  obtain ls where ls: "peekChar (scanner_new ?ln) = (hd n, ls)" "ahead ls = ?ln" "\<not> sc_err ls"
    using peekChar_ahead [of "scanner_new ?ln"] d assms(1) by (cases n) (auto simp: ahead_new)
  have c: "hd n \<noteq> NUL" "\<not> isspace (char_at ?ln 0)" using n assms(1) by (cases n; force simp: char_at_def)+
  have "NUL \<notin> set (n @ '' '')" "CHR ''='' \<notin> set (n @ '' '')" using n by auto
  then obtain ls1 where ls1: "consumeTill (CHR ''='') ls = (strip_right (n @ '' ''), ls1)" "ahead ls1 = CHR ''='' # v" "\<not> sc_err ls1"
    using consumeTill_found [of ls "n @ '' ''" "CHR ''=''" v] ls(2,3) d by auto
  obtain ls2 where ls2: "peekChar ls1 = (CHR ''='', ls2)" "ahead ls2 = CHR ''='' # v" "\<not> sc_err ls2"
    using peekChar_ahead [OF ls1(3)] ls1(2) by auto
  have "fst (consumeTillEnd (sc_skip 1 ls2)) = v'"
    using consumeTillEnd_ahead [of "sc_skip 1 ls2"] ls2(2,3) assms(4) by (simp add: ahead_skip)
  then show ?thesis
    using ls(1) ls1(1) ls2(1) c assms(3) strip_right_plain [OF assms(2), of "'' ''"] by (simp add: parse_line_def)
qed

lemma parse_item:
  assumes "item_ok i" "\<And>v. i = Cont v \<Longrightarrow> ps_key st \<noteq> []"
  shows "parse_line (item_line i @ [LF]) st = (False, item_effect i st)"
proof (cases i)
  case (Sect s)
  then show ?thesis using parse_section [of s st] assms(1) by simp
next
  case (Entry n v)
  then have v: "plain {CHR '';'', CHR ''#''} v" using assms(1) by simp
  have "dropWhile isspace ('' '' @ v @ [LF]) = (if v = [] then [] else v @ [LF])"
    using v by (cases v) (auto simp: plain_def)
  then have "strip_right (take (till_end False (dropWhile isspace ('' '' @ v @ [LF]))) (dropWhile isspace ('' '' @ v @ [LF]))) = v"
    using till_end_plain [OF v] strip_right_plain [OF v, of "[LF]"] by (simp add: strip_right_def)
  from parse_entry [OF _ _ _ this, of n st] show ?thesis using Entry assms(1) by simp
next
  case (Cont v)
  let ?ln = "''  '' @ v @ [LF]"
  have v: "v \<noteq> []" "\<not> isspace (hd v)" "\<not> isspace (last v)" "hd v \<notin> {CHR '';'', CHR ''#'', CHR ''[''}" "NUL \<notin> set v"
    using Cont assms(1) by simp_all
  have d: "dropWhile isspace ?ln = v @ [LF]" using v(1,2) by (cases v) simp_all
  obtain ls where ls: "peekChar (scanner_new ?ln) = (hd v, ls)" "ahead ls = v @ [LF]" "\<not> sc_err ls"
    using peekChar_ahead [of "scanner_new ?ln"] d v(1) by (cases v) (auto simp: ahead_new)
  have "dropWhile isspace (v @ [LF]) = v @ [LF]" using v(1,2) by (cases v) simp_all
  then have "fst (consumeTill NUL ls) = strip_right (v @ [LF])"
    using consumeTill_end [of ls "v @ [LF]"] ls(2,3) v(5) by (simp add: LF_def)
  also have "\<dots> = v" using v(1,3) by (cases v rule: rev_cases) (simp_all add: strip_right_def)
  finally show ?thesis
    using Cont ls(1) v(1,4,5) assms(2) by (cases v) (auto simp: parse_line_def char_at_def)
next
  case (Note t)
  obtain ls where "peekChar (scanner_new (''#'' @ t @ [LF])) = (CHR ''#'', ls)"
    using peekChar_ahead [of "scanner_new (''#'' @ t @ [LF])"] by (auto simp: ahead_new)
  then show ?thesis using Note by (simp add: parse_line_def)
qed

lemma item_line_LF: "item_ok i \<Longrightarrow> LF \<notin> set (item_line i)"
proof (cases i)
  case (Entry n v)
  then show "item_ok i \<Longrightarrow> LF \<notin> set (item_line i)"
    using plain_set [of "{CHR ''='', CHR '':''}" n] plain_set [of "{CHR '';'', CHR ''#''}" v] by (simp add: LF_def)
qed (auto simp: LF_def dest: plain_set)

lemma fgets_line: "LF \<notin> set l \<Longrightarrow> Suc (length l) < MAX_LINE \<Longrightarrow> fgets (l @ LF # rest) = (l @ [LF], rest)"
proof -
  assume "LF \<notin> set l" "Suc (length l) < MAX_LINE"
  moreover from this(1) have "takeWhile (\<lambda>c. c \<noteq> LF) (l @ LF # rest) = l" by (induction l) auto
  ultimately show ?thesis by (simp add: fgets_def)
qed

lemma parse_text:
  "\<forall>i \<in> set items. item_ok i \<and> Suc (length (item_line i)) < MAX_LINE \<Longrightarrow> conts_ok (ps_key st) items \<Longrightarrow>
   parse_lines (conf_text items @ rest) n st = parse_lines rest (n + length items) (fold item_effect items st)"
proof (induction items arbitrary: n st)
  case Nil
  then show ?case by (simp add: conf_text_def)
next
  case (Cons i items)
  have i: "item_ok i" "Suc (length (item_line i)) < MAX_LINE" using Cons.prems(1) by simp_all
  have f: "fgets (conf_text (i # items) @ rest) = (item_line i @ [LF], conf_text items @ rest)"
    using fgets_line [OF item_line_LF [OF i(1)] i(2), of "conf_text items @ rest"] by (simp add: conf_text_def)
  have k: "ps_key st \<noteq> []" if "i = Cont v" for v using Cons.prems(2) that by simp
  have c: "conts_ok (ps_key (item_effect i st)) items" using Cons.prems(2)
    by (cases i) (auto simp: push_value_def Let_def case_prod_unfold)
  have "conf_text (i # items) \<noteq> []" by (simp add: conf_text_def)
  then show ?case
    using f parse_item [OF i(1), of st] k Cons.IH [OF _ c, of "Suc n"] Cons.prems(1)
    by (subst parse_lines.simps) simp
qed

text \<open>The lists behind the keys.\<close>

definition vals :: "(string \<times> string list) list \<Rightarrow> string \<Rightarrow> string list" where
  "vals m k = (case map_of m k of None \<Rightarrow> [] | Some vs \<Rightarrow> vs)"

definition vals_ok :: "(string \<times> string list) list \<Rightarrow> bool" where
  "vals_ok m \<longleftrightarrow> mok m \<and> (\<forall>k. map_of m k \<noteq> Some [])"

lemma push_value_vals:
  assumes "vals_ok (ps_values st)"
  shows "vals_ok (ps_values (push_value v st))"
    and "vals (ps_values (push_value v st)) k =
      vals (ps_values st) k @ (if k = makeKey (ps_section st) (ps_key st) then [v] else [])"
    and "ps_section (push_value v st) = ps_section st" "ps_key (push_value v st) = ps_key st"
  using assms
  by (auto simp: vals_ok_def vals_def push_value_def mindex_def Let_def mput_mput split: option.splits)

lemma fold_items_vals:
  "vals_ok (ps_values st) \<Longrightarrow>
   vals_ok (ps_values (fold item_effect items st)) \<and>
   vals (ps_values (fold item_effect items st)) k =
     vals (ps_values st) k @ map snd (filter (\<lambda>p. fst p = k) (conf_entries (ps_section st) (ps_key st) items))"
proof (induction items arbitrary: st)
  case (Cons i items)
  then show ?case
  proof (cases i)
    case (Entry n v)
    have "vals_ok (ps_values (st\<lparr>ps_key := n\<rparr>))" using Cons.prems by simp
    note p = push_value_vals [OF this, of v]
    show ?thesis using Cons.IH [OF p(1)] p(2) [of k] p(3,4) Entry by (auto simp: conj_commute)
  next
    case (Cont v)
    note p = push_value_vals [OF Cons.prems, of v]
    show ?thesis using Cons.IH [OF p(1)] p(2) [of k] p(3,4) Cont by auto
  qed simp_all
qed simp

section \<open>Properties\<close>


definition conf_empty :: conf where "conf_empty = \<lparr>conf_values = [], conf_filename = []\<rparr>"


lemma parse_bad_line:
  assumes "bad \<noteq> []" "\<not> isspace (hd bad)" "hd bad \<notin> {CHR '';'', CHR ''#'', CHR ''[''}"
    and "NUL \<notin> set bad" "CHR ''='' \<notin> set bad" "CHR '':'' \<notin> set bad"
  shows "parse_line (bad @ [LF]) st = (True, push_value [] (st\<lparr>ps_key := []\<rparr>))"
proof -
  let ?ln = "bad @ [LF]"
  have d: "dropWhile isspace ?ln = ?ln" using assms(1,2) by (cases bad) simp_all
  obtain ls where ls: "peekChar (scanner_new ?ln) = (hd bad, ls)" "ahead ls = ?ln" "\<not> sc_err ls"
    using peekChar_ahead [of "scanner_new ?ln"] d assms(1) by (cases bad) (auto simp: ahead_new)
  have m: "\<exists>ls'. consumeTill c ls = ([], ls') \<and> sc_err ls' \<and> ahead ls' = ?ln" if "c \<in> {CHR ''='', CHR '':''}" for c
    using consumeTill_missing [OF ls(3), of c] that ls(2) d assms(4-6) by (auto simp: LF_def)
  obtain ls1 where ls1: "consumeTill (CHR ''='') ls = ([], ls1)" "sc_err ls1" "ahead ls1 = ?ln" using m by blast
  obtain ls4 where ls4: "consumeTill (CHR '':'') ls = ([], ls4)" "sc_err ls4" "ahead ls4 = ?ln" using m by blast
  have p: "peekChar ls1 = (hd bad, ls1)"
    using ls1(2,3) char_at_ahead [of ls1] assms(1) by (cases bad) (simp_all add: peekChar_def skipSpaces_def)
  have e: "sc_err (sc_match (CHR '':'') ls4)" using sc_match_ahead [of "CHR '':''" ls4] ls4(2,3) assms(1,6) by (cases bad) auto
  then have v: "fst (consumeTillEnd (sc_match (CHR '':'') ls4)) = []"
    by (simp add: consumeTillEnd_def skipSpaces_def rstrip_def Let_def)
  have c: "hd bad \<noteq> NUL" "hd bad \<noteq> CHR ''=''" "\<not> isspace (char_at ?ln 0)"
    using assms(1,2,4,5) by (cases bad; force simp: char_at_def)+
  then show ?thesis using ls(1) ls1(1) ls4(1) p e v assms(3) by (simp add: parse_line_def)
qed

text \<open>
  A malformed line stops the parse with its number: when a line with neither
  \<open>=\<close> nor \<open>:\<close> follows a well-formed part, \<open>parse\<close> returns the number of that line, the values of the
  part before it are kept, nothing after it is read; but an empty value is left behind under the
  empty name of the current section.
\<close>

theorem conf_error_line:
  assumes "\<forall>i \<in> set items. item_ok i \<and> Suc (length (item_line i)) < MAX_LINE" "conts_ok [] items"
    and "bad \<noteq> []" "\<not> isspace (hd bad)" "hd bad \<notin> {CHR '';'', CHR ''#'', CHR ''[''}" "LF \<notin> set bad" "Suc (length bad) < MAX_LINE"
    and "NUL \<notin> set bad" "CHR ''='' \<notin> set bad" "CHR '':'' \<notin> set bad"
    and "st = fold item_effect items \<lparr>ps_section = [], ps_key = [], ps_values = conf_values c\<rparr>"
  shows "conf_parse file (Some (conf_text items @ bad @ LF # rest)) c =
    (int (length items) + 1, c\<lparr>conf_filename := file, conf_values := ps_values (push_value [] (st\<lparr>ps_key := []\<rparr>))\<rparr>)"
proof -
  have "parse_lines (conf_text items @ bad @ LF # rest) 0 \<lparr>ps_section = [], ps_key = [], ps_values = conf_values c\<rparr> =
      parse_lines (bad @ LF # rest) (length items) st"
    using parse_text [OF assms(1), of "\<lparr>ps_section = [], ps_key = [], ps_values = conf_values c\<rparr>" "bad @ LF # rest" 0] assms(2,11)
    by simp
  also have "\<dots> = (length items + 1, push_value [] (st\<lparr>ps_key := []\<rparr>))"
    using fgets_line [OF assms(6,7), of rest] parse_bad_line [OF assms(3,4,5,8,9,10), of st]
    by (subst parse_lines.simps) simp
  finally show ?thesis by (simp add: conf_parse_def)
qed

theorem conf_error_line_witness:
  "fst (conf_parse ''f'' (Some (conf_text [Entry ''a'' ''1''] @ ''bad'' @ LF # ''b = 2'')) conf_empty) = 2"
proof -
  have "\<forall>i \<in> set [Entry ''a'' ''1'']. item_ok i \<and> Suc (length (item_line i)) < MAX_LINE"
    by (simp add: plain_def isspace_def MAX_LINE_def)
  from conf_error_line [OF this, of "''bad''" _ conf_empty "''f''" "''b = 2''"] show ?thesis
    by (simp add: isspace_def LF_def MAX_LINE_def)
qed

text \<open>
  The value of an entry ends at its first white space, not at the end of the line
  or the comment: whatever follows a word is dropped silently.
\<close>

theorem conf_value_cut:
  assumes "n \<noteq> []" "plain {CHR ''='', CHR '':''} n" "hd n \<notin> {CHR '';'', CHR ''#'', CHR ''[''}"
    and "a \<noteq> []" "plain {CHR '';'', CHR ''#''} a"
  shows "parse_line (n @ '' = '' @ a @ '' '' @ rest) st = (False, push_value a (st\<lparr>ps_key := n\<rparr>))"
proof -
  have t: "take (till_end False (a @ '' '' @ rest)) (a @ '' '' @ rest) = a @ '' ''"
  proof -
    have "till_end False (a @ '' '' @ rest) = Suc (length a)"
      using assms(5) by (induction a) (auto simp: plain_def neq_Nil_conv split: list.splits)
    then show ?thesis by simp
  qed
  have "dropWhile isspace ('' '' @ a @ '' '' @ rest) = a @ '' '' @ rest" using assms(4,5) by (cases a) (auto simp: plain_def)
  then have "strip_right (take (till_end False (dropWhile isspace ('' '' @ a @ '' '' @ rest)))
      (dropWhile isspace ('' '' @ a @ '' '' @ rest))) = a"
    using t strip_right_plain [OF assms(5), of "'' ''"] by simp
  from parse_entry [OF assms(1-3) this, of st] show ?thesis by simp
qed

theorem conf_value_cut_witness:
  "parse_line (''greeting'' @ '' = '' @ ''hello'' @ '' '' @ ''world'') \<lparr>ps_section = [], ps_key = [], ps_values = []\<rparr> =
     (False, push_value ''hello'' (\<lparr>ps_section = [], ps_key = [], ps_values = []\<rparr>\<lparr>ps_key := ''greeting''\<rparr>))"
  by (rule conf_value_cut) (simp_all add: plain_def isspace_def)

end
