(* ===== verification/NetAddr.thy ===== *)
theory NetAddr
  imports Port
begin

text \<open>
  Addresses: \<open>Ip4Addr\<close> (\<open>net.h\<close>, \<open>net.cc\<close>). The resolver \<open>port::getHostByName\<close> is a parameter that
  answers an address in network byte order (\<open>INADDR_NONE\<close> when it fails). The fields of a
  \<open>sockaddr_in\<close> are words in network byte order, as the kernel keeps them.
\<close>

section \<open>Addresses\<close>

record ip4addr =
  s_addr :: "32 word"
  sin_port :: "16 word"

definition INADDR_NONE :: "32 word" where "INADDR_NONE = 0xffffffff"

definition INADDR_ANY :: "32 word" where "INADDR_ANY = 0"

definition addr_new :: "(string \<Rightarrow> 32 word) \<Rightarrow> string \<Rightarrow> 16 word \<Rightarrow> ip4addr" where
  "addr_new getHostByName host port =
     \<lparr>s_addr = (if host \<noteq> [] then getHostByName host else INADDR_ANY), sin_port = htobe16 port\<rparr>"

text \<open>\<open>port::getHostByName\<close>, from the result \<open>r\<close> of \<open>gethostbyname_r\<close> and the entry it found.\<close>

definition AF_INET :: int where "AF_INET = 2"

definition host_address :: "int \<Rightarrow> (int \<times> 32 word) option \<Rightarrow> 32 word" where
  "host_address r he = (case he of Some (ty, a) \<Rightarrow> if r = 0 \<and> ty = AF_INET then a else INADDR_NONE | None \<Rightarrow> INADDR_NONE)"

text \<open>The version for macOS, which has no result besides the entry.\<close>

definition host_address_mac :: "(int \<times> 32 word) option \<Rightarrow> 32 word" where
  "host_address_mac he = (case he of Some (ty, a) \<Rightarrow> if ty = AF_INET then a else INADDR_NONE | None \<Rightarrow> INADDR_NONE)"

text \<open>\<open>%d\<close> of \<open>(uip >> k) & 0xff\<close>.\<close>

definition octet :: "nat \<Rightarrow> 32 word \<Rightarrow> string" where
  "octet k uip = to_string (unat (drop_bit k uip AND 0xff))"

definition addr_ip :: "ip4addr \<Rightarrow> string" where
  "addr_ip a = (let u = s_addr a in octet 0 u @ ''.'' @ octet 8 u @ ''.'' @ octet 16 u @ ''.'' @ octet 24 u)"

definition addr_toString :: "ip4addr \<Rightarrow> string" where
  "addr_toString a =
     (let u = s_addr a in octet 0 u @ ''.'' @ octet 8 u @ ''.'' @ octet 16 u @ ''.'' @ octet 24 u @ '':'' @
        to_string (unat (htobe16 (sin_port a))))"

definition addr_port :: "ip4addr \<Rightarrow> 16 word" where
  "addr_port a = htobe16 (sin_port a)"

definition addr_ipInt :: "ip4addr \<Rightarrow> 32 word" where
  "addr_ipInt a = htobe32 (s_addr a)"

definition isIpValid :: "ip4addr \<Rightarrow> bool" where
  "isIpValid a \<longleftrightarrow> s_addr a \<noteq> INADDR_NONE"

definition addr_eq :: "ip4addr \<Rightarrow> ip4addr \<Rightarrow> bool" where
  "addr_eq a b \<longleftrightarrow> s_addr a = s_addr b \<and> sin_port a = sin_port b"

definition hostToIp :: "(string \<Rightarrow> 32 word) \<Rightarrow> string \<Rightarrow> string" where
  "hostToIp getHostByName host = addr_ip (addr_new getHostByName host 0)"

section \<open>The text of an address\<close>

lemma host_address_platforms: "host_address r he = (if r = 0 then host_address_mac he else INADDR_NONE)"
  by (auto simp: host_address_def host_address_mac_def split: option.splits)

lemma number_then:
  assumes "to_string a @ x = to_string b @ y" "x = [] \<or> \<not> is_digit 10 (hd x)" "y = [] \<or> \<not> is_digit 10 (hd y)"
  shows "a = b \<and> x = y"
proof -
  note da = to_string_digits [of a] and db = to_string_digits [of b]
  have "takeWhile (is_digit 10) (to_string a @ x) = to_string a" "takeWhile (is_digit 10) (to_string b @ y) = to_string b"
    using takeWhile_digits da db assms(2,3) by blast+
  then have "to_string a = to_string b" using assms(1) by metis
  moreover from this have "a = b" using da db by (metis of_nat_eq_iff)
  ultimately show ?thesis using assms(1) by simp
qed

lemma not_digits [simp]: "\<not> is_digit 10 (CHR ''.'')" "\<not> is_digit 10 (CHR '':'')"
  by (simp_all add: is_digit_range)

lemma octet_value: "unat (drop_bit k (u :: 32 word) AND 0xff) = unat u div 2 ^ k mod 256"
proof -
  have "unat (drop_bit k u AND 0xff) = drop_bit k (unat u) AND 255" by (simp add: unsigned_and_eq unat_drop_bit_eq)
  also have "\<dots> = take_bit 8 (drop_bit k (unat u))" by (simp add: take_bit_eq_mask mask_eq_exp_minus_1)
  finally show ?thesis by (simp add: take_bit_eq_mod drop_bit_eq_div)
qed

lemma four_octets:
  assumes "a < 2 ^ 32" "b < 2 ^ 32" "a mod 256 = b mod 256" "a div 2 ^ 8 mod 256 = b div 2 ^ 8 mod 256"
    "a div 2 ^ 16 mod 256 = b div 2 ^ 16 mod 256" "a div 2 ^ 24 mod 256 = b div 2 ^ 24 mod 256"
  shows "a = (b :: nat)"
proof -
  have v: "n = n mod 256 + 2 ^ 8 * (n div 2 ^ 8 mod 256) + 2 ^ 16 * (n div 2 ^ 16 mod 256) + 2 ^ 24 * (n div 2 ^ 24 mod 256)"
    if "n < 2 ^ 32" for n :: nat
  proof -
    have q: "n div 2 ^ 16 = n div 2 ^ 8 div 256" "n div 2 ^ 24 = n div 2 ^ 16 div 256" by (simp_all add: div_mult2_eq [symmetric])
    have "n div 2 ^ 24 mod 256 = n div 2 ^ 24" using that by simp
    moreover have "n = n mod 256 + 256 * (n div 2 ^ 8)" "n div 2 ^ 8 = n div 2 ^ 8 mod 256 + 256 * (n div 2 ^ 16)"
        "n div 2 ^ 16 = n div 2 ^ 16 mod 256 + 256 * (n div 2 ^ 24)"
      unfolding q by simp_all
    moreover have "n = m0 + 2 ^ 8 * m1 + 2 ^ 16 * m2 + 2 ^ 24 * d"
      if "d = c" "n = m0 + 256 * a" "a = m1 + 256 * b" "b = m2 + 256 * c" for m0 m1 m2 a b c d :: nat
      using that by simp
    ultimately show ?thesis by blast
  qed
  show ?thesis using v [OF assms(1)] v [OF assms(2)] assms(3-) by simp
qed

lemma addr_toString_unique:
  assumes "addr_toString a = addr_toString b"
  shows "addr_eq a b"
proof -
  let ?u = "\<lambda>a k. unat (drop_bit k (s_addr a) AND 0xff)" and ?p = "\<lambda>a. unat (htobe16 (sin_port a))"
  have t: "to_string (?u a 0) @ ''.'' @ to_string (?u a 8) @ ''.'' @ to_string (?u a 16) @ ''.'' @ to_string (?u a 24) @ '':'' @ to_string (?p a) =
      to_string (?u b 0) @ ''.'' @ to_string (?u b 8) @ ''.'' @ to_string (?u b 16) @ ''.'' @ to_string (?u b 24) @ '':'' @ to_string (?p b)"
    using assms by (simp add: addr_toString_def octet_def Let_def)
  have 0: "?u a 0 = ?u b 0" and t1: "to_string (?u a 8) @ ''.'' @ to_string (?u a 16) @ ''.'' @ to_string (?u a 24) @ '':'' @ to_string (?p a) =
      to_string (?u b 8) @ ''.'' @ to_string (?u b 16) @ ''.'' @ to_string (?u b 24) @ '':'' @ to_string (?p b)"
    using number_then [OF t] by simp_all
  have 1: "?u a 8 = ?u b 8" and t2: "to_string (?u a 16) @ ''.'' @ to_string (?u a 24) @ '':'' @ to_string (?p a) =
      to_string (?u b 16) @ ''.'' @ to_string (?u b 24) @ '':'' @ to_string (?p b)"
    using number_then [OF t1] by simp_all
  have 2: "?u a 16 = ?u b 16" and t3: "to_string (?u a 24) @ '':'' @ to_string (?p a) = to_string (?u b 24) @ '':'' @ to_string (?p b)"
    using number_then [OF t2] by simp_all
  have 3: "?u a 24 = ?u b 24" and t4: "to_string (?p a) @ [] = to_string (?p b) @ []"
    using number_then [OF t3] by simp_all
  have "?p a = ?p b" using number_then [OF t4] by simp
  then have "htobe16 (sin_port a) = htobe16 (sin_port b)" by (rule unsigned_word_eqI)
  then have p: "sin_port a = sin_port b" using htobe16_htobe16 by metis
  have "unat (s_addr a) = unat (s_addr b)"
    using four_octets [of "unat (s_addr a)" "unat (s_addr b)"] 0 1 2 3 unsigned_less [of "s_addr a"] unsigned_less [of "s_addr b"]
    unfolding octet_value by simp
  then have "s_addr a = s_addr b" by (rule unsigned_word_eqI)
  then show ?thesis using p by (simp add: addr_eq_def)
qed

section \<open>Properties\<close>

text \<open>C33. The text of an address (as log lines and \<open>TcpConn::str\<close> show it) identifies it: two
  addresses have the same text exactly when \<open>operator==\<close> holds of them; and an address made from a host
  and a port has that port and, when the resolver answers, the address it answered.\<close>

theorem address_text:
  "(addr_toString a = addr_toString b \<longleftrightarrow> addr_eq a b) \<and> addr_port (addr_new getHostByName host p) = p \<and>
   s_addr (addr_new getHostByName host p) = (if host = [] then INADDR_ANY else getHostByName host) \<and>
   (isIpValid (addr_new getHostByName host p) \<longleftrightarrow> (if host = [] then True else getHostByName host \<noteq> INADDR_NONE))"
proof -
  have "addr_eq a b \<Longrightarrow> addr_toString a = addr_toString b" by (simp add: addr_eq_def addr_toString_def)
  moreover have "INADDR_ANY \<noteq> INADDR_NONE" by (simp add: INADDR_ANY_def INADDR_NONE_def)
  ultimately show ?thesis
    using addr_toString_unique [of a b] by (auto simp: addr_port_def addr_new_def isIpValid_def)
qed

end
