(* ===== verification/Servers.thy ===== *)
theory Servers
  imports Conn Tasks NetAddr "HOL-Library.Multiset"
begin

text \<open>
  Accepting connections: \<open>TcpServer\<close> (\<open>conn.h\<close>, \<open>conn.cc\<close>) over the event loops of a \<open>MultiBase\<close>
  (\<open>event_base.h\<close>), and the half-synchronous server \<open>HSHA\<close>, which runs the message callback on a
  thread pool and sends its answers on the event loop. A connection accepted for another loop travels
  to it as a task. The results of the system calls are parameters; a violated \<open>fatalif\<close> check is
  \<open>Inl Fatal\<close>.
\<close>

section \<open>\<open>MultiBase\<close>\<close>

text \<open>\<open>id_\<close> is an \<open>atomic<int>\<close>: its increment wraps around, and \<open>c % bases_.size()\<close> converts it to
  \<open>size_t\<close>.\<close>

record multibase =
  base_id :: "32 word"
  n_bases :: nat

definition allocBase :: "multibase \<Rightarrow> nat \<times> multibase" where
  "allocBase mb = (nat (sint (base_id mb) mod 2 ^ 64) mod n_bases mb, mb\<lparr>base_id := base_id mb + 1\<rparr>)"

section \<open>\<open>TcpServer\<close>\<close>

datatype read_handler = NoRead | ReadCb | MsgCb | HttpCb

text \<open>An established connection: its loop, its state, and which callbacks it was given.\<close>

record served =
  sv_base :: nat
  sv_conn :: conn
  sv_state :: bool
  sv_read :: read_handler

record tcp_server =
  bases :: multibase
  own_base :: nat                  \<comment> \<open>\<open>base_\<close>\<close>
  listen_fd :: "int option"        \<comment> \<open>\<open>listen_channel_\<close>\<close>
  addr :: ip4addr
  statecb :: bool                  \<comment> \<open>whether the callback is set\<close>
  readcb :: bool
  msgcb :: bool
  createcb :: read_handler         \<comment> \<open>the read callback \<open>createcb_\<close> leaves on a new connection\<close>
  queues :: "int safequeue list"   \<comment> \<open>per loop, the \<open>addcon\<close> tasks posted to it, by descriptor\<close>
  conns :: "served list"
  lost :: "int list"               \<comment> \<open>descriptors nothing refers to any more\<close>

definition server_new :: "multibase \<Rightarrow> tcp_server" where
  "server_new mb =
     (let (b, mb') = allocBase mb in
      \<lparr>bases = mb', own_base = b, listen_fd = None, addr = \<lparr>s_addr = 0, sin_port = 0\<rparr>, statecb = False, readcb = False,
       msgcb = False, createcb = NoRead, queues = replicate (n_bases mb) (sq_new 0), conns = [], lost = []\<rparr>)"

text \<open>The two ways to read exclude each other by an \<open>assert\<close>.\<close>

definition onConnState :: "'a tcp_server_scheme \<Rightarrow> 'a tcp_server_scheme" where
  "onConnState s = s\<lparr>statecb := True\<rparr>"

definition onConnRead :: "'a tcp_server_scheme \<Rightarrow> 'a tcp_server_scheme res" where
  "onConnRead s = (if msgcb s then Inl Fatal else Inr (s\<lparr>readcb := True\<rparr>))"

definition onConnMsg :: "'a tcp_server_scheme \<Rightarrow> 'a tcp_server_scheme res" where
  "onConnMsg s = (if readcb s then Inl Fatal else Inr (s\<lparr>msgcb := True\<rparr>))"

definition onConnCreate :: "read_handler \<Rightarrow> 'a tcp_server_scheme \<Rightarrow> 'a tcp_server_scheme" where
  "onConnCreate h s = s\<lparr>createcb := h\<rparr>"

text \<open>The results of the calls of \<open>bind\<close>: non-zero is an error; \<open>r_bind\<close> is the \<open>errno\<close> of \<open>bind\<close> or 0.\<close>

record bind_sys =
  bs_fd :: int
  r_reuseaddr :: int
  r_reuseport :: int
  r_cloexec :: int
  r_bind :: int
  r_listen :: int

definition server_bind :: "bind_sys \<Rightarrow> (string \<Rightarrow> 32 word) \<Rightarrow> string \<Rightarrow> 16 word \<Rightarrow> 'a tcp_server_scheme \<Rightarrow> (int \<times> 'a tcp_server_scheme) res" where
  "server_bind sys getHostByName host port s =
     (let s1 = s\<lparr>addr := addr_new getHostByName host port\<rparr> in
      if r_reuseaddr sys \<noteq> 0 \<or> r_reuseport sys \<noteq> 0 \<or> r_cloexec sys \<noteq> 0 then Inl Fatal
      else if r_bind sys \<noteq> 0 then Inr (r_bind sys, s1)
      else if r_listen sys \<noteq> 0 then Inl Fatal
      else Inr (0, s1\<lparr>listen_fd := Some (bs_fd sys)\<rparr>))"

definition startServer :: "bind_sys \<Rightarrow> (string \<Rightarrow> 32 word) \<Rightarrow> string \<Rightarrow> 16 word \<Rightarrow> multibase \<Rightarrow> tcp_server option res" where
  "startServer sys getHostByName host port mb =
     rbind (server_bind sys getHostByName host port (server_new mb)) (\<lambda>(r, s). Inr (if r = 0 then Some s else None))"

text \<open>\<open>TcpConn::onRead\<close> and \<open>onMsg\<close> assert that no read callback is set, and \<open>addcon\<close> calls them on the connection
  that \<open>createcb_\<close> made.\<close>

definition handlers_ok :: "'a tcp_server_scheme \<Rightarrow> bool" where
  "handlers_ok s \<longleftrightarrow> \<not> (readcb s \<and> msgcb s) \<and> (createcb s \<noteq> NoRead \<longrightarrow> \<not> readcb s \<and> \<not> msgcb s)"

text \<open>The task \<open>addcon\<close>, on loop \<open>b\<close>.\<close>

definition addcon :: "nat \<Rightarrow> int \<Rightarrow> 'a tcp_server_scheme \<Rightarrow> 'a tcp_server_scheme res" where
  "addcon b cfd s =
     rbind (attach cfd (conn_new [] [])) (\<lambda>c.
     if \<not> handlers_ok s then Inl Fatal
     else Inr (s\<lparr>conns := conns s @ [\<lparr>sv_base = b, sv_conn = c, sv_state = statecb s,
              sv_read = (if msgcb s then MsgCb else if readcb s then ReadCb else createcb s)\<rparr>]\<rparr>))"

text \<open>A connection \<open>accept\<close> returns, and the results of the calls on it.\<close>

record accepted_fd =
  cfd :: int
  peername_ok :: bool
  sockname_ok :: bool
  cloexec_ok :: bool

fun accept_loop :: "accepted_fd list \<Rightarrow> 'a tcp_server_scheme \<Rightarrow> 'a tcp_server_scheme res" where
  "accept_loop [] s = Inr s"
| "accept_loop (a # as) s =
     (if \<not> peername_ok a \<or> \<not> sockname_ok a then accept_loop as (s\<lparr>lost := lost s @ [cfd a]\<rparr>)
      else if \<not> cloexec_ok a then Inl Fatal
      else (let (b, mb) = allocBase (bases s); s1 = s\<lparr>bases := mb\<rparr> in
            if b = own_base s then rbind (addcon b (cfd a) s1) (accept_loop as)
            else accept_loop as (s1\<lparr>queues := (queues s1)[b := safeCall (cfd a) (queues s1 ! b)]\<rparr>)))"

definition handleAccept :: "accepted_fd list \<Rightarrow> 'a tcp_server_scheme \<Rightarrow> 'a tcp_server_scheme res" where
  "handleAccept as s =
     (case listen_fd s of None \<Rightarrow> Inl NullDeref
      | Some lfd \<Rightarrow> if lfd < 0 then Inr s else accept_loop as s)"

text \<open>The wake-up of loop \<open>b\<close>: it runs the tasks posted to it.\<close>

definition run_base :: "nat \<Rightarrow> 'a tcp_server_scheme \<Rightarrow> 'a tcp_server_scheme res option" where
  "run_base b s =
     map_option (\<lambda>r. rbind r (\<lambda>(q, s'). Inr (s'\<lparr>queues := (queues s')[b := q]\<rparr>)))
       (drain (\<lambda>fd s. rbind (addcon b fd s) (\<lambda>s'. Inr (s', []))) (queues s ! b) s)"

fun run_bases :: "nat list \<Rightarrow> 'a tcp_server_scheme \<Rightarrow> 'a tcp_server_scheme res option" where
  "run_bases [] s = Some (Inr s)"
| "run_bases (b # bs) s =
     (case run_base b s of None \<Rightarrow> None | Some (Inl e) \<Rightarrow> Some (Inl e) | Some (Inr s') \<Rightarrow> run_bases bs s')"

section \<open>Every connection reaches one loop\<close>

text \<open>The loops chosen for \<open>k\<close> connections in turn, and the connections of loop \<open>b\<close>.\<close>

fun assign :: "multibase \<Rightarrow> int list \<Rightarrow> (nat \<times> int) list" where
  "assign mb [] = []"
| "assign mb (fd # fds) = (let (b, mb') = allocBase mb in (b, fd) # assign mb' fds)"

definition usable :: "accepted_fd \<Rightarrow> bool" where
  "usable a \<longleftrightarrow> peername_ok a \<and> sockname_ok a"

definition fresh_conn :: "int \<Rightarrow> conn" where
  "fresh_conn fd = (conn_new [] [])\<lparr>tstate := Handshaking, chan := Some (new_channel fd (kWriteEvent OR kReadEvent))\<rparr>"

definition handler_of :: "'a tcp_server_scheme \<Rightarrow> read_handler" where
  "handler_of s = (if msgcb s then MsgCb else if readcb s then ReadCb else createcb s)"

definition served_at :: "'a tcp_server_scheme \<Rightarrow> nat \<Rightarrow> int \<Rightarrow> served" where
  "served_at s b fd = \<lparr>sv_base = b, sv_conn = fresh_conn fd, sv_state = statecb s, sv_read = handler_of s\<rparr>"

lemma addcon_ok: "handlers_ok s \<Longrightarrow> addcon b fd s = Inr (s\<lparr>conns := conns s @ [served_at s b fd]\<rparr>)"
  by (simp add: addcon_def attach_def conn_new_def served_at_def fresh_conn_def handler_of_def)

definition of_base :: "nat \<Rightarrow> (nat \<times> int) list \<Rightarrow> int list" where
  "of_base b xs = map snd (filter (\<lambda>x. fst x = b) xs)"

definition served_on :: "nat \<Rightarrow> 'a tcp_server_scheme \<Rightarrow> served list" where
  "served_on b s = filter (\<lambda>v. sv_base v = b) (conns s)"

text \<open>What loop \<open>b\<close> has, and what it will have after its next wake-up.\<close>

definition due_on :: "nat \<Rightarrow> 'a tcp_server_scheme \<Rightarrow> served list" where
  "due_on b s = served_on b s @ map (served_at s b) (items (queues s ! b))"

definition same_server :: "'a tcp_server_scheme \<Rightarrow> 'a tcp_server_scheme \<Rightarrow> bool" where
  "same_server s s' \<longleftrightarrow> own_base s' = own_base s \<and> n_bases (bases s') = n_bases (bases s) \<and> statecb s' = statecb s \<and>
     handler_of s' = handler_of s \<and> length (queues s') = length (queues s)"

definition server_ok :: "'a tcp_server_scheme \<Rightarrow> bool" where
  "server_ok s \<longleftrightarrow> 0 < n_bases (bases s) \<and> length (queues s) = n_bases (bases s) \<and> own_base s < n_bases (bases s) \<and>
     (\<forall>q \<in> set (queues s). sq_open q) \<and> items (queues s ! own_base s) = [] \<and> handlers_ok s"

declare server_ok_def [server_defs] due_on_def [server_defs] served_on_def [server_defs]

lemma handlers_ok_simps [simp]:
  "handlers_ok (s\<lparr>conns := cs\<rparr>) = handlers_ok s" "handlers_ok (s\<lparr>lost := l\<rparr>) = handlers_ok s"
  "handlers_ok (s\<lparr>queues := q\<rparr>) = handlers_ok s" "handlers_ok (s\<lparr>bases := m\<rparr>) = handlers_ok s"
  by (simp_all add: handlers_ok_def)

lemma alloc_range: "0 < n_bases mb \<Longrightarrow> fst (allocBase mb) < n_bases mb \<and> n_bases (snd (allocBase mb)) = n_bases mb"
  by (simp add: allocBase_def)

lemma same_server_refl [simp]: "same_server s s"
  by (simp add: same_server_def)

lemma served_at_same: "same_server s s' \<Longrightarrow> served_at s' b fd = served_at s b fd"
  by (simp add: same_server_def served_at_def)

lemma served_at_fun: "same_server s s' \<Longrightarrow> served_at s' = served_at s"
  using served_at_same by (intro ext) auto

lemma same_server_trans: "same_server s s' \<Longrightarrow> same_server s' s'' \<Longrightarrow> same_server s s''"
  by (simp add: same_server_def)

lemma same_server_simps [simp]: "same_server s (s'\<lparr>conns := cs\<rparr>) = same_server s s'" "same_server s (s'\<lparr>lost := l\<rparr>) = same_server s s'"
  "length qs = length (queues s') \<Longrightarrow> same_server s (s'\<lparr>queues := qs\<rparr>) = same_server s s'"
  "n_bases mb = n_bases (bases s') \<Longrightarrow> same_server s (s'\<lparr>bases := mb\<rparr>) = same_server s s'"
  by (auto simp: same_server_def handler_of_def)

text \<open>One connection: it is attached at once or posted, and either way due on the loop chosen for it.\<close>

lemma accept_one:
  assumes "server_ok s" "usable a" "cloexec_ok a" "allocBase (bases s) = (b0, mb)"
  shows "\<exists>s1. accept_loop (a # as) s = accept_loop as s1 \<and> server_ok s1 \<and> same_server s s1 \<and> bases s1 = mb \<and> lost s1 = lost s \<and>
    (\<forall>b < n_bases (bases s). due_on b s1 = due_on b s @ (if b = b0 then [served_at s b (cfd a)] else []))"
proof -
  have n: "b0 < n_bases (bases s)" "n_bases mb = n_bases (bases s)"
    using alloc_range [of "bases s"] assms(1,4) by (auto simp: server_ok_def)
  have u: "peername_ok a" "sockname_ok a" using assms(2) by (simp_all add: usable_def)
  show ?thesis
  proof (cases "b0 = own_base s")
    case True
    let ?s = "(s\<lparr>bases := mb\<rparr>)\<lparr>conns := conns s @ [served_at (s\<lparr>bases := mb\<rparr>) b0 (cfd a)]\<rparr>"
    have "served_at (s\<lparr>bases := mb\<rparr>) = served_at s" by (simp add: served_at_def handler_of_def fun_eq_iff)
    moreover have "served_at ?s = served_at s" by (simp add: served_at_def handler_of_def fun_eq_iff)
    moreover have "accept_loop (a # as) s = accept_loop as ?s" using True u assms(1,3,4) by (simp add: addcon_ok server_ok_def Let_def)
    moreover have "items (queues s ! b0) = []" using assms(1) True by (simp add: server_ok_def)
    ultimately show ?thesis using assms(1) n
      by (intro exI [of _ ?s]) (auto simp: server_defs served_at_def)
  next
    case False
    let ?s = "(s\<lparr>bases := mb\<rparr>)\<lparr>queues := (queues s)[b0 := safeCall (cfd a) (queues s ! b0)]\<rparr>"
    have "accept_loop (a # as) s = accept_loop as ?s" using False u assms(3,4) by (simp add: Let_def)
    moreover have q: "sq_open (queues s ! b0)" "length (queues s) = n_bases (bases s)"
      using assms(1) n by (auto simp: server_ok_def)
    moreover have "sq_open (safeCall (cfd a) (queues s ! b0)) \<and> items (safeCall (cfd a) (queues s ! b0)) = items (queues s ! b0) @ [cfd a]"
      using sq.post_all [OF q(1), of "[cfd a]"] by (simp add: safeCall_def)
    moreover have "served_at ?s = served_at s" by (simp add: served_at_def handler_of_def fun_eq_iff)
    moreover have "same_server s ?s" using n by simp
    moreover have "server_ok ?s"
      using assms(1) n False calculation(4) set_update_subset_insert [of "queues s" b0 "safeCall (cfd a) (queues s ! b0)"]
      by (auto simp: server_ok_def)
    ultimately show ?thesis using n
      by (intro exI [of _ ?s]) (simp add: server_defs nth_list_update)
  qed
qed

lemma accept_loop_ok:
  "server_ok s \<Longrightarrow> \<forall>a \<in> set as. usable a \<longrightarrow> cloexec_ok a \<Longrightarrow>
   \<exists>s'. accept_loop as s = Inr s' \<and> server_ok s' \<and> same_server s s' \<and> lost s' = lost s @ map cfd (filter (\<lambda>a. \<not> usable a) as) \<and>
     (\<forall>b < n_bases (bases s). due_on b s' = due_on b s @ map (served_at s b) (of_base b (assign (bases s) (map cfd (filter usable as)))))"
proof (induction as arbitrary: s)
  case Nil
  then show ?case by (simp add: of_base_def)
next
  case (Cons a as)
  show ?case
  proof (cases "usable a")
    case False
    let ?s = "s\<lparr>lost := lost s @ [cfd a]\<rparr>"
    have "accept_loop (a # as) s = accept_loop as ?s" using False by (auto simp: usable_def)
    moreover have "server_ok ?s" using Cons.prems(1) by (simp add: server_ok_def)
    moreover have "due_on b ?s = due_on b s" "served_at ?s b = served_at s b" for b
      by (auto simp: due_on_def served_on_def served_at_def handler_of_def)
    moreover have "same_server ?s x = same_server s x" for x by (simp add: same_server_def handler_of_def)
    ultimately show ?thesis using Cons.IH [of ?s] Cons.prems(2) False by simp
  next
    case True
    obtain b0 mb where al: "allocBase (bases s) = (b0, mb)" by (cases "allocBase (bases s)")
    obtain s1 where s1: "accept_loop (a # as) s = accept_loop as s1" "server_ok s1" "same_server s s1" "bases s1 = mb" "lost s1 = lost s"
        "\<forall>b < n_bases (bases s). due_on b s1 = due_on b s @ (if b = b0 then [served_at s b (cfd a)] else [])"
      using accept_one [OF Cons.prems(1) True _ al] Cons.prems(2) True by auto
    have n: "n_bases mb = n_bases (bases s)" using s1(3,4) by (simp add: same_server_def)
    obtain s' where s': "accept_loop as s1 = Inr s'" "server_ok s'" "same_server s1 s'" "lost s' = lost s1 @ map cfd (filter (\<lambda>a. \<not> usable a) as)"
        "\<forall>b < n_bases mb. due_on b s' = due_on b s1 @ map (served_at s1 b) (of_base b (assign mb (map cfd (filter usable as))))"
      using Cons.IH [OF s1(2)] Cons.prems(2) s1(4) by auto
    have "due_on b s' = due_on b s @ map (served_at s b) (of_base b (assign (bases s) (map cfd (filter usable (a # as)))))"
      if "b < n_bases (bases s)" for b
      using that s1(6) s'(5) n served_at_fun [OF s1(3)] True al by (simp add: of_base_def)
    then show ?thesis using s1(1,5) s'(1,2,4) same_server_trans [OF s1(3) s'(3)] True by (intro exI [of _ s']) simp
  qed
qed

text \<open>A wake-up attaches what was posted.\<close>

lemma run_list_addcon:
  "handlers_ok s \<Longrightarrow> run_list (addcon b) fds s = Inr (s\<lparr>conns := conns s @ map (served_at s b) fds\<rparr>)"
proof (induction fds arbitrary: s)
  case (Cons fd fds)
  have "served_at (s\<lparr>conns := x\<rparr>) = served_at s" for x by (simp add: served_at_def handler_of_def fun_eq_iff)
  then show ?case using Cons by (simp add: addcon_ok)
qed simp

lemma run_base_ok:
  assumes "server_ok s" "b < n_bases (bases s)"
  shows "\<exists>s'. run_base b s = Some (Inr s') \<and> server_ok s' \<and> same_server s s' \<and> lost s' = lost s \<and>
    served_on b s' = due_on b s \<and> (\<forall>b'. b' \<noteq> b \<longrightarrow> served_on b' s' = served_on b' s \<and> queues s' ! b' = queues s ! b') \<and>
    items (queues s' ! b) = []"
proof -
  let ?s = "s\<lparr>conns := conns s @ map (served_at s b) (items (queues s ! b)), queues := (queues s)[b := (queues s ! b)\<lparr>items := []\<rparr>]\<rparr>"
  have r: "run_base b s = Some (Inr ?s)" using assms by (simp add: run_base_def drain_run_list run_list_addcon server_ok_def)
  have l: "b < length (queues s)" "sq_open (queues s ! b)" using assms by (auto simp: server_ok_def)
  have "server_ok ?s"
    using assms l set_update_subset_insert [of "queues s" b "(queues s ! b)\<lparr>items := []\<rparr>"]
    by (auto simp: server_ok_def sq_open_def nth_list_update)
  moreover have "filter (\<lambda>v. sv_base v = b') (map (served_at s b) xs) = (if b' = b then map (served_at s b) xs else [])" for b' xs
    by (induction xs) (auto simp: served_at_def)
  ultimately show ?thesis using r l
    by (intro exI [of _ ?s]) (auto simp: due_on_def served_on_def nth_list_update)
qed

lemma run_bases_ok:
  "server_ok s \<Longrightarrow> distinct bs \<Longrightarrow> \<forall>b \<in> set bs. b < n_bases (bases s) \<Longrightarrow>
   \<exists>s'. run_bases bs s = Some (Inr s') \<and> same_server s s' \<and> lost s' = lost s \<and>
     (\<forall>b. served_on b s' = (if b \<in> set bs then due_on b s else served_on b s))"
proof (induction bs arbitrary: s)
  case (Cons b bs)
  obtain s1 where s1: "run_base b s = Some (Inr s1)" "server_ok s1" "same_server s s1" "lost s1 = lost s"
      "served_on b s1 = due_on b s" "\<forall>b'. b' \<noteq> b \<longrightarrow> served_on b' s1 = served_on b' s \<and> queues s1 ! b' = queues s ! b'"
    using run_base_ok [OF Cons.prems(1), of b] Cons.prems(3) by auto
  have n: "n_bases (bases s1) = n_bases (bases s)" using s1(3) by (simp add: same_server_def)
  obtain s' where s': "run_bases bs s1 = Some (Inr s')" "same_server s1 s'" "lost s' = lost s1"
      "\<forall>b. served_on b s' = (if b \<in> set bs then due_on b s1 else served_on b s1)"
    using Cons.IH [OF s1(2)] Cons.prems(2,3) n by auto
  have "due_on b' s1 = due_on b' s" if "b' \<noteq> b" for b'
    using that s1(6) served_at_fun [OF s1(3)] by (simp add: due_on_def)
  then have "served_on b' s' = (if b' \<in> set (b # bs) then due_on b' s else served_on b' s)" for b'
    using s'(4) s1(5,6) Cons.prems(2) by (cases "b' = b") auto
  then show ?case using s1(1,4) s'(1,3) same_server_trans [OF s1(3) s'(2)] by simp
qed simp

text \<open>The loops are taken in turn while \<open>id_\<close> has not wrapped around.\<close>

lemma sint_inc:
  assumes "0 \<le> sint (w :: 32 word)" "sint w + 1 < 2 ^ 31"
  shows "sint (w + 1) = sint w + 1"
proof -
  have "sint (w + 1) = signed_take_bit 31 (sint w + 1)" by (simp add: sint_word_ariths)
  then show ?thesis using assms by (simp add: signed_take_bit_int_eq_self_iff)
qed

lemma assign_round_robin:
  "0 \<le> sint (base_id mb) \<Longrightarrow> sint (base_id mb) + int (length fds) < 2 ^ 31 \<Longrightarrow>
   assign mb fds = zip (map (\<lambda>i. (nat (sint (base_id mb)) + i) mod n_bases mb) [0..<length fds]) fds"
proof (induction fds arbitrary: mb)
  case (Cons fd fds)
  let ?mb = "mb\<lparr>base_id := base_id mb + 1\<rparr>"
  have s: "sint (base_id ?mb) = sint (base_id mb) + 1" using sint_inc [of "base_id mb"] Cons.prems by simp
  have "assign ?mb fds = zip (map (\<lambda>i. (nat (sint (base_id ?mb)) + i) mod n_bases mb) [0..<length fds]) fds"
    using Cons.IH [of ?mb] Cons.prems s by simp
  moreover have "(\<lambda>i. (nat (sint (base_id ?mb)) + i) mod n_bases mb) = (\<lambda>i. (nat (sint (base_id mb)) + Suc i) mod n_bases mb)"
    using s Cons.prems(1) by (simp add: nat_add_distrib)
  moreover have "[0..<length (fd # fds)] = 0 # map Suc [0..<length fds]" by (simp add: map_Suc_upt upt_conv_Cons del: upt_Suc)
  ultimately show ?case using Cons.prems by (simp add: allocBase_def comp_def)
qed simp

text \<open>C19. Every connection \<open>accept\<close> returns is established exactly once and on
  one loop: after \<open>handleAccept\<close> and a wake-up of every loop, in any order, each loop has gained the
  connections whose turn it was, in the order of acceptance, each freshly attached with its descriptor and
  with the server's callbacks; the loops take turns; the only descriptors dropped are those whose name
  could not be read.\<close>

theorem connections_reach_their_loop:
  assumes "server_ok s" "\<forall>q \<in> set (queues s). items q = []" "listen_fd s = Some lfd" "0 \<le> lfd"
    and "\<forall>a \<in> set as. usable a \<longrightarrow> cloexec_ok a" "distinct bs" "set bs = {..<n_bases (bases s)}"
    and "0 \<le> sint (base_id (bases s))" "sint (base_id (bases s)) + int (length as) < 2 ^ 31"
  shows "\<exists>s1 s2. handleAccept as s = Inr s1 \<and> run_bases bs s1 = Some (Inr s2) \<and>
    (\<forall>b < n_bases (bases s). served_on b s2 = served_on b s @
       map (served_at s b) (of_base b (zip (map (\<lambda>i. (nat (sint (base_id (bases s))) + i) mod n_bases (bases s))
         [0..<length (filter usable as)]) (map cfd (filter usable as))))) \<and>
    lost s2 = lost s @ map cfd (filter (\<lambda>a. \<not> usable a) as)"
proof -
  let ?fds = "map cfd (filter usable as)"
  obtain s1 where s1: "accept_loop as s = Inr s1" "server_ok s1" "same_server s s1"
      "lost s1 = lost s @ map cfd (filter (\<lambda>a. \<not> usable a) as)"
      "\<forall>b < n_bases (bases s). due_on b s1 = due_on b s @ map (served_at s b) (of_base b (assign (bases s) ?fds))"
    using accept_loop_ok [OF assms(1,5)] by blast
  have n: "n_bases (bases s1) = n_bases (bases s)" using s1(3) by (simp add: same_server_def)
  obtain s2 where s2: "run_bases bs s1 = Some (Inr s2)" "lost s2 = lost s1"
      "\<forall>b. served_on b s2 = (if b \<in> set bs then due_on b s1 else served_on b s1)"
    using run_bases_ok [OF s1(2) assms(6)] assms(7) n by auto
  have "due_on b s = served_on b s" if "b < n_bases (bases s)" for b
    using that assms(1,2) by (auto simp: server_defs)
  moreover have "length (filter usable as) \<le> length as" by simp
  then have "sint (base_id (bases s)) + int (length ?fds) < 2 ^ 31" unfolding length_map using assms(9) by linarith
  note rr = assign_round_robin [OF assms(8) this]
  have "served_on b s2 = served_on b s @ map (served_at s b) (of_base b (assign (bases s) ?fds))" if "b < n_bases (bases s)" for b
    using that calculation [OF that] s1(5) s2(3) assms(7) by simp
  then show ?thesis
    using s1(1,4) s2(1,2) assms(3,4) unfolding rr length_map by (intro exI [of _ s1] exI [of _ s2]) (simp add: handleAccept_def)
qed

definition listening :: tcp_server where
  "listening = (server_new \<lparr>base_id = 0, n_bases = 2\<rparr>)\<lparr>listen_fd := Some 3, msgcb := True\<rparr>"

definition three_fds :: "accepted_fd list" where
  "three_fds = [\<lparr>cfd = 7, peername_ok = True, sockname_ok = True, cloexec_ok = True\<rparr>,
     \<lparr>cfd = 8, peername_ok = False, sockname_ok = True, cloexec_ok = True\<rparr>,
     \<lparr>cfd = 9, peername_ok = True, sockname_ok = True, cloexec_ok = True\<rparr>]"

lemma listening_fields:
  "bases listening = \<lparr>base_id = 1, n_bases = 2\<rparr>" "own_base listening = 0" "queues listening = replicate 2 (sq_new 0)"
  "conns listening = []" "listen_fd listening = Some 3" "\<not> readcb listening" "createcb listening = NoRead"
  by (simp_all add: listening_def server_new_def allocBase_def)

theorem connections_reach_their_loop_witness:
  "\<exists>s1 s2. handleAccept three_fds listening = Inr s1 \<and> run_bases [1, 0] s1 = Some (Inr s2) \<and>
     served_on 0 s2 = [served_at listening 0 9] \<and> served_on 1 s2 = [served_at listening 1 7] \<and> lost s2 = [8]"
proof -
  have "server_ok listening" "\<forall>q \<in> set (queues listening). items q = []"
    by (auto simp: server_ok_def handlers_ok_def listening_fields sq_open_def sq_new_def)
  moreover have "set [1, 0] = {..<n_bases (bases listening)}" by (auto simp: listening_fields)
  ultimately show ?thesis
    using connections_reach_their_loop [of listening 3 three_fds "[1, 0]"]
    by (auto simp: listening_fields three_fds_def usable_def of_base_def served_on_def listening_def server_new_def allocBase_def numeral_2_eq_2)
qed

section \<open>\<open>HSHA\<close>\<close>

text \<open>
  A message is a task of the pool; a worker computes the answer and posts the sending of it to the
  server's loop. A connection (for UDP, a sender) is a value of type \<open>'c\<close>. \<open>running\<close> holds the task of each worker between
  the start of the callback and its answer; \<open>answered\<close> logs the tasks the loop has run, and \<open>sent\<close> what
  they sent: an empty answer is not sent.
\<close>

type_synonym 'c task = "'c \<times> string"

record 'c hsha =
  hpool :: "'c task pool"
  running :: "'c task option list"
  loop_q :: "'c task safequeue"
  answered :: "'c task list"
  sent :: "'c task list"

definition hsha_new :: "nat \<Rightarrow> 'c hsha" where
  "hsha_new threads = \<lparr>hpool = pool_new threads 0, running = replicate threads None, loop_q = sq_new 0, answered = [], sent = []\<rparr>"

text \<open>\<open>HSHA::startServer\<close>: the threads of the pool are there before the server is bound; when it is not, the object is destroyed
  and nothing is returned.\<close>

definition hsha_startServer ::
  "bind_sys \<Rightarrow> (string \<Rightarrow> 32 word) \<Rightarrow> string \<Rightarrow> 16 word \<Rightarrow> nat \<Rightarrow> multibase \<Rightarrow> (tcp_server \<times> 'c hsha) option res" where
  "hsha_startServer sys getHostByName host port threads mb =
     (let p = hsha_new threads in
      rbind (startServer sys getHostByName host port mb) (\<lambda>r. Inr (map_option (\<lambda>s. (s, p)) r)))"

lemma hsha_started:
  "hsha_startServer sys getHostByName host port threads mb = Inr (Some (s, h)) \<Longrightarrow>
   r_bind sys = 0 \<and> listen_fd s = Some (bs_fd sys) \<and> h = hsha_new threads"
  by (auto simp: hsha_startServer_def startServer_def server_bind_def Let_def split: if_splits)

text \<open>The message callback of \<open>HSHA::onMsg\<close>, on the loop; what the pool refuses is dropped.\<close>

definition hsha_msg :: "'c \<Rightarrow> string \<Rightarrow> 'c hsha \<Rightarrow> 'c hsha" where
  "hsha_msg con msg h = h\<lparr>hpool := snd (addTask (con, msg) (hpool h))\<rparr>"

definition hsha_exit :: "'c hsha \<Rightarrow> 'c hsha" where
  "hsha_exit h = h\<lparr>hpool := pool_exit (hpool h)\<rparr>"

text \<open>The task, on worker \<open>i\<close>: it starts, and it ends with the post of the answer.\<close>

definition hsha_start :: "nat \<Rightarrow> 'c hsha \<Rightarrow> 'c hsha" where
  "hsha_start i h = h\<lparr>hpool := worker_pop i (hpool h), running := (running h)[i := fst (sq_pop (ptasks (hpool h)))]\<rparr>"

definition answer :: "('c \<Rightarrow> string \<Rightarrow> string) \<Rightarrow> 'c task \<Rightarrow> 'c task" where
  "answer cb t = (fst t, cb (fst t) (snd t))"

definition hsha_finish :: "('c \<Rightarrow> string \<Rightarrow> string) \<Rightarrow> nat \<Rightarrow> 'c task \<Rightarrow> 'c hsha \<Rightarrow> 'c hsha" where
  "hsha_finish cb i t h = h\<lparr>running := (running h)[i := None], loop_q := safeCall (answer cb t) (loop_q h)\<rparr>"

text \<open>The posted task, on the loop.\<close>

definition hsha_reply :: "'c hsha \<Rightarrow> 'c hsha" where
  "hsha_reply h =
     (case sq_pop (loop_q h) of
        (None, q) \<Rightarrow> h
      | (Some t, q) \<Rightarrow> h\<lparr>loop_q := q, answered := answered h @ [t], sent := (if snd t \<noteq> [] then sent h @ [t] else sent h)\<rparr>)"

inductive hsha_step :: "('c \<Rightarrow> string \<Rightarrow> string) \<Rightarrow> 'c hsha \<Rightarrow> 'c hsha \<Rightarrow> bool" for cb where
  Msg: "hsha_step cb h (hsha_msg con msg h)"
| Exit: "hsha_step cb h (hsha_exit h)"
| Head: "i < length (running h) \<Longrightarrow> running h ! i = None \<Longrightarrow> workers (hpool h) ! i = AtHead \<Longrightarrow>
    hsha_step cb h (h\<lparr>hpool := worker_head i (hpool h)\<rparr>)"
| Start: "i < length (running h) \<Longrightarrow> running h ! i = None \<Longrightarrow> workers (hpool h) ! i = InWait \<Longrightarrow>
    wait_ready wait_infinite False (ptasks (hpool h)) \<Longrightarrow> hsha_step cb h (hsha_start i h)"
| Finish: "i < length (running h) \<Longrightarrow> running h ! i = Some t \<Longrightarrow> hsha_step cb h (hsha_finish cb i t h)"
| Reply: "hsha_step cb h (hsha_reply h)"

inductive hsha_reach :: "('c \<Rightarrow> string \<Rightarrow> string) \<Rightarrow> nat \<Rightarrow> 'c hsha \<Rightarrow> bool" for cb threads where
  init: "hsha_reach cb threads (hsha_new threads)"
| step: "hsha_reach cb threads h \<Longrightarrow> hsha_step cb h h' \<Longrightarrow> hsha_reach cb threads h'"

text \<open>The tasks workers are busy with.\<close>

definition busy :: "'c hsha \<Rightarrow> 'c task list" where
  "busy h = concat (map (case_option [] (\<lambda>t. [t])) (running h))"

lemma busy_start:
  assumes "i < length xs" "xs ! i = None"
  shows "mset (concat (map (case_option [] (\<lambda>t. [t])) (xs[i := Some t]))) = add_mset t (mset (concat (map (case_option [] (\<lambda>t. [t])) xs)))"
proof -
  have x: "xs = take i xs @ None # drop (Suc i) xs" using assms id_take_nth_drop by metis
  have "xs[i := Some t] = take i xs @ Some t # drop (Suc i) xs" using assms(1) by (simp add: upd_conv_take_nth_drop)
  then show ?thesis by (subst (2) x) simp
qed

lemma busy_finish:
  assumes "i < length xs" "xs ! i = Some t"
  shows "add_mset t (mset (concat (map (case_option [] (\<lambda>t. [t])) (xs[i := None])))) = mset (concat (map (case_option [] (\<lambda>t. [t])) xs))"
proof -
  have "(xs[i := None])[i := Some t] = xs" using assms by (simp add: list_update_same_conv)
  then show ?thesis using busy_start [of i "xs[i := None]" t] assms(1) by simp
qed

text \<open>Every accepted message is answered, being answered, or waiting; with one worker the order is kept too.\<close>

definition hsha_inv :: "('c \<Rightarrow> string \<Rightarrow> string) \<Rightarrow> nat \<Rightarrow> 'c hsha \<Rightarrow> bool" where
  "hsha_inv cb threads h \<longleftrightarrow> length (running h) = threads \<and> sq_open (loop_q h) \<and> sent h = filter (\<lambda>t. snd t \<noteq> []) (answered h) \<and>
     accepted (hpool h) = started (hpool h) @ items (ptasks (hpool h)) \<and>
     mset (answered h @ items (loop_q h)) + image_mset (answer cb) (mset (busy h)) = image_mset (answer cb) (mset (started (hpool h))) \<and>
     (threads = 1 \<longrightarrow> answered h @ items (loop_q h) @ map (answer cb) (busy h) = map (answer cb) (started (hpool h)))"

lemma pool_fields:
  "accepted p = started p @ items (ptasks p) \<Longrightarrow> accepted (snd (addTask t p)) = started (snd (addTask t p)) @ items (ptasks (snd (addTask t p)))"
  "started (snd (addTask t p)) = started p" "started (pool_exit p) = started p" "accepted (pool_exit p) = accepted p"
  "items (ptasks (pool_exit p)) = items (ptasks p)" "started (worker_head i p) = started p" "accepted (worker_head i p) = accepted p"
  "ptasks (worker_head i p) = ptasks p"
  by (auto simp: addTask_def sq_push_def pool_exit_def sq_exit_def worker_head_def Let_def)

lemma hsha_start_inv:
  assumes "hsha_inv cb n h" "i < length (running h)" "running h ! i = None"
  shows "hsha_inv cb n (hsha_start i h)"
proof (cases "items (ptasks (hpool h))")
  case Nil
  have "(running h)[i := None] = running h" using assms(2,3) by (simp add: list_update_same_conv)
  then show ?thesis
    using assms(1) Nil by (simp add: hsha_inv_def hsha_start_def worker_pop_def sq_pop_def busy_def)
next
  case (Cons t ts)
  have m: "mset (busy (hsha_start i h)) = add_mset t (mset (busy h))"
    using busy_start [OF assms(2,3), of t] Cons by (simp add: busy_def hsha_start_def sq_pop_def)
  have one: "busy (hsha_start i h) = [t] \<and> busy h = []" if "n = 1"
  proof -
    have "length (running h) = 1" using assms(1) that by (simp add: hsha_inv_def)
    then obtain x where "running h = [x]" by (cases "running h") auto
    then show ?thesis using assms(2,3) Cons by (simp add: busy_def hsha_start_def sq_pop_def)
  qed
  have f: "started (hpool (hsha_start i h)) = started (hpool h) @ [t]" "items (ptasks (hpool (hsha_start i h))) = ts"
      "accepted (hpool (hsha_start i h)) = accepted (hpool h)" "loop_q (hsha_start i h) = loop_q h" "answered (hsha_start i h) = answered h"
      "sent (hsha_start i h) = sent h" "length (running (hsha_start i h)) = length (running h)"
    using Cons by (simp_all add: hsha_start_def worker_pop_def sq_pop_def)
  show ?thesis using assms(1) Cons m one f by (simp add: hsha_inv_def)
qed

lemma hsha_finish_inv:
  assumes "hsha_inv cb n h" "i < length (running h)" "running h ! i = Some t"
  shows "hsha_inv cb n (hsha_finish cb i t h)"
proof -
  let ?h = "hsha_finish cb i t h"
  have q: "items (loop_q ?h) = items (loop_q h) @ [answer cb t]" "sq_open (loop_q ?h)"
    using assms(1) sq.post_all [of "loop_q h" "[answer cb t]"] by (simp_all add: hsha_inv_def hsha_finish_def safeCall_def)
  have m: "add_mset t (mset (busy ?h)) = mset (busy h)"
    using busy_finish [OF assms(2,3)] by (simp add: busy_def hsha_finish_def)
  have one: "busy ?h = [] \<and> busy h = [t]" if "n = 1"
  proof -
    have "length (running h) = 1" using assms(1) that by (simp add: hsha_inv_def)
    then obtain x where "running h = [x]" by (cases "running h") auto
    then show ?thesis using assms(2,3) by (simp add: busy_def hsha_finish_def)
  qed
  have f: "hpool ?h = hpool h" "answered ?h = answered h" "sent ?h = sent h" "length (running ?h) = length (running h)"
    by (simp_all add: hsha_finish_def)
  have "mset (answered ?h @ items (loop_q ?h)) + image_mset (answer cb) (mset (busy ?h)) =
      mset (answered h @ items (loop_q h)) + image_mset (answer cb) (mset (busy h))"
    using q(1) f(2) m [symmetric] by simp
  also have "\<dots> = image_mset (answer cb) (mset (started (hpool ?h)))" using assms(1) f(1) by (simp add: hsha_inv_def)
  finally have M: "mset (answered ?h @ items (loop_q ?h)) + image_mset (answer cb) (mset (busy ?h)) =
      image_mset (answer cb) (mset (started (hpool ?h)))" .
  have "answered ?h @ items (loop_q ?h) @ map (answer cb) (busy ?h) = map (answer cb) (started (hpool ?h))" if "n = 1"
    using assms(1) q(1) f one [OF that] that by (simp add: hsha_inv_def)
  then show ?thesis unfolding hsha_inv_def using assms(1) q(2) f M by (simp add: hsha_inv_def)
qed

lemma hsha_step_inv:
  assumes "hsha_step cb h h'" "hsha_inv cb n h"
  shows "hsha_inv cb n h'"
  using assms(1)
proof (cases rule: hsha_step.cases)
  case (Msg con msg)
  then show ?thesis using assms(2) pool_fields(1) [of "hpool h"] by (simp add: hsha_inv_def hsha_msg_def busy_def pool_fields(2))
next
  case Exit
  then show ?thesis using assms(2) by (simp add: hsha_inv_def hsha_exit_def busy_def pool_fields)
next
  case (Head i)
  then show ?thesis using assms(2) by (simp add: hsha_inv_def busy_def pool_fields)
next
  case (Start i)
  then show ?thesis using hsha_start_inv assms(2) by simp
next
  case (Finish i t)
  then show ?thesis using hsha_finish_inv assms(2) by simp
next
  case Reply
  then show ?thesis
    using assms(2) by (cases "items (loop_q h)") (simp_all add: hsha_inv_def hsha_reply_def sq_pop_def busy_def sq_open_def)
qed

lemma hsha_reach_inv: "hsha_reach cb n h \<Longrightarrow> hsha_inv cb n h"
proof (induction rule: hsha_reach.induct)
  case init
  have "concat (replicate n ([] :: 'a task list)) = []" by (induction n) simp_all
  then show ?case by (simp add: hsha_inv_def hsha_new_def pool_new_def sq_new_def busy_def sq_open_def)
next
  case (step h h')
  then show ?case using hsha_step_inv by blast
qed

text \<open>C20. In the half-synchronous server, whatever the number of workers and the
  interleaving of messages, workers, answers and exit, every accepted message has been answered, is in the
  loop's queue with its answer, is with a worker, or waits in the pool, and exactly one of these; with one
  worker, answers go out in the order the messages were accepted; only empty answers are not sent.\<close>

theorem hsha_answers_each_message:
  assumes "hsha_reach cb threads h"
  shows "mset (answered h) + mset (items (loop_q h)) + image_mset (answer cb) (mset (busy h)) +
      image_mset (answer cb) (mset (items (ptasks (hpool h)))) = image_mset (answer cb) (mset (accepted (hpool h))) \<and>
    (threads = 1 \<longrightarrow> answered h @ items (loop_q h) @ map (answer cb) (busy h @ items (ptasks (hpool h))) =
       map (answer cb) (accepted (hpool h))) \<and>
    sent h = filter (\<lambda>t. snd t \<noteq> []) (answered h)"
  using hsha_reach_inv [OF assms] by (auto simp: hsha_inv_def)

theorem hsha_answers_each_message_witness:
  "\<exists>h. hsha_reach (\<lambda>(c :: nat) m. rev m) 1 h \<and> sent h = [(0, ''ba'')] \<and>
     mset (answered h) + mset (items (loop_q h)) + image_mset (answer (\<lambda>c m. rev m)) (mset (busy h)) +
       image_mset (answer (\<lambda>c m. rev m)) (mset (items (ptasks (hpool h)))) = {#(0, ''ba''), (0, ''dc'')#}"
proof -
  let ?cb = "\<lambda>(c :: nat) (m :: string). rev m"
  define h1 where "h1 = hsha_msg (0 :: nat) ''cd'' (hsha_msg 0 ''ab'' (hsha_new 1))"
  define h2 where "h2 = h1\<lparr>hpool := worker_head 0 (hpool h1)\<rparr>"
  define h3 where "h3 = hsha_start 0 h2"
  define h4 where "h4 = hsha_reply (hsha_finish ?cb 0 (0, ''ab'') h3)"
  note defs = hsha_new_def hsha_msg_def pool_new_def addTask_def sq_push_def sq_new_def h1_def h2_def h3_def hsha_start_def
    worker_pop_def worker_head_def sq_pop_def wait_ready_def
  have "hsha_reach ?cb 1 h1" unfolding h1_def by (meson hsha_reach.init hsha_reach.step hsha_step.Msg)
  moreover have "hsha_step ?cb h1 h2" unfolding h2_def by (rule hsha_step.Head) (simp_all add: defs)
  moreover have "hsha_step ?cb h2 h3" unfolding h3_def by (rule hsha_step.Start) (simp_all add: defs)
  moreover have "hsha_step ?cb h3 (hsha_finish ?cb 0 (0, ''ab'') h3)" by (rule hsha_step.Finish) (simp_all add: defs)
  ultimately have r: "hsha_reach ?cb 1 h4" unfolding h4_def by (meson hsha_reach.step hsha_step.Reply)
  have "sent h4 = [(0, ''ba'')]" "accepted (hpool h4) = [(0, ''ab''), (0, ''cd'')]"
    by (simp_all add: h4_def hsha_reply_def hsha_finish_def safeCall_def answer_def defs)
  then show ?thesis using hsha_answers_each_message [OF r] r by (intro exI [of _ h4]) (simp add: answer_def add_mset_commute)
qed

end
