(* ===== verification/Udp.thy ===== *)
theory Udp
  imports Servers StreamBuff
begin

text \<open>
  UDP: \<open>UdpServer\<close> and \<open>UdpConn\<close> (\<open>udp.h\<close>, \<open>udp.cc\<close>). A datagram is received whole or cut at
  \<open>kUdpPacketSize\<close> bytes, into a buffer of its own, and handed to the message callback with its
  sender. The results of the system calls are parameters. \<open>HSHAU\<close> is \<open>HSHA\<close> with senders in the
  place of connections.
\<close>

section \<open>Receiving\<close>

text \<open>\<open>recvfrom\<close> (or \<open>read\<close>): an error, or a datagram with its sender.\<close>

datatype recv = RecvErr | Recv string ip4addr

definition recv_buffer :: "string \<Rightarrow> buffer res" where
  "recv_buffer d =
     rbind (makeRoom kUdpPacketSize buf_new) (\<lambda>b.
     rbind (poke (be b) (take kUdpPacketSize d) b) (\<lambda>b'. Inr (addSize (length (take kUdpPacketSize d)) b')))"

section \<open>\<open>UdpServer\<close>\<close>

text \<open>\<open>out\<close> collects the datagrams the kernel accepted.\<close>

record udp_server =
  u_chan :: "int option"      \<comment> \<open>the descriptor of \<open>channel_\<close>\<close>
  u_addr :: ip4addr
  u_out :: "(string \<times> ip4addr) list"

definition udp_new :: udp_server where
  "udp_new = \<lparr>u_chan = None, u_addr = \<lparr>s_addr = 0, sin_port = 0\<rparr>, u_out = []\<rparr>"

definition udp_bind :: "bind_sys \<Rightarrow> (string \<Rightarrow> 32 word) \<Rightarrow> string \<Rightarrow> 16 word \<Rightarrow> 'a udp_server_scheme \<Rightarrow> (int \<times> 'a udp_server_scheme) res" where
  "udp_bind sys getHostByName host port s =
     (let s1 = s\<lparr>u_addr := addr_new getHostByName host port\<rparr> in
      if r_reuseaddr sys \<noteq> 0 \<or> r_reuseport sys \<noteq> 0 \<or> r_cloexec sys \<noteq> 0 then Inl Fatal
      else if r_bind sys \<noteq> 0 then Inr (r_bind sys, s1)
      else Inr (0, s1\<lparr>u_chan := Some (bs_fd sys)\<rparr>))"

definition udp_startServer :: "bind_sys \<Rightarrow> (string \<Rightarrow> 32 word) \<Rightarrow> string \<Rightarrow> 16 word \<Rightarrow> udp_server option res" where
  "udp_startServer sys getHostByName host port =
     rbind (udp_bind sys getHostByName host port udp_new) (\<lambda>(r, s). Inr (if r = 0 then Some s else None))"

definition chan_closed :: "int option \<Rightarrow> bool" where
  "chan_closed ch = (case ch of None \<Rightarrow> True | Some fd \<Rightarrow> fd < 0)"

definition udp_read :: "(buffer \<Rightarrow> ip4addr \<Rightarrow> 'a udp_server_scheme \<Rightarrow> 'a udp_server_scheme res) \<Rightarrow> recv \<Rightarrow>
    'a udp_server_scheme \<Rightarrow> 'a udp_server_scheme res" where
  "udp_read cb r s =
     (if chan_closed (u_chan s) then Inr s
      else case r of RecvErr \<Rightarrow> Inr s
      | Recv d src \<Rightarrow> rbind (recv_buffer d) (\<lambda>buf. cb buf src s))"

text \<open>\<open>wn < 0\<close> is a refusal by the kernel.\<close>

definition udp_sendTo :: "int \<Rightarrow> string \<Rightarrow> ip4addr \<Rightarrow> 'a udp_server_scheme \<Rightarrow> 'a udp_server_scheme" where
  "udp_sendTo wn data to s =
     (if chan_closed (u_chan s) then s else if wn < 0 then s else s\<lparr>u_out := u_out s @ [(data, to)]\<rparr>)"

section \<open>\<open>UdpConn\<close>\<close>

record udp_conn =
  uc_chan :: "int option"
  uc_peer :: ip4addr
  uc_host :: string
  uc_port :: "16 word"
  uc_out :: "string list"
  uc_deletes :: nat           \<comment> \<open>posted tasks that delete the channel\<close>

definition EINPROGRESS :: int where "EINPROGRESS = 115"

text \<open>\<open>r\<close> is 0 or the \<open>errno\<close> of \<open>connect\<close>. Without a connection the descriptor is not closed.\<close>

definition createConnection :: "int \<Rightarrow> int \<Rightarrow> int \<Rightarrow> (string \<Rightarrow> 32 word) \<Rightarrow> string \<Rightarrow> 16 word \<Rightarrow> udp_conn option res" where
  "createConnection fd t r getHostByName host port =
     (if fd < 0 then Inl Fatal
      else if t \<noteq> 0 then Inl Fatal
      else if r \<noteq> 0 \<and> r \<noteq> EINPROGRESS then Inr None
      else Inr (Some \<lparr>uc_chan = Some fd, uc_peer = addr_new getHostByName host port, uc_host = host, uc_port = port,
                      uc_out = [], uc_deletes = 0\<rparr>))"

definition udp_close :: "'a udp_conn_scheme \<Rightarrow> 'a udp_conn_scheme" where
  "udp_close c = (if uc_chan c = None then c else c\<lparr>uc_chan := None, uc_deletes := uc_deletes c + 1\<rparr>)"

definition udp_conn_read :: "(buffer \<Rightarrow> 'a udp_conn_scheme \<Rightarrow> 'a udp_conn_scheme res) \<Rightarrow> recv \<Rightarrow> 'a udp_conn_scheme \<Rightarrow> 'a udp_conn_scheme res" where
  "udp_conn_read cb r c =
     (if chan_closed (uc_chan c) then Inr (udp_close c)
      else case r of RecvErr \<Rightarrow> Inr c | Recv d src \<Rightarrow> rbind (recv_buffer d) (\<lambda>buf. cb buf c))"

definition udp_send :: "int \<Rightarrow> string \<Rightarrow> 'a udp_conn_scheme \<Rightarrow> 'a udp_conn_scheme" where
  "udp_send wn data c =
     (if chan_closed (uc_chan c) then c else if wn < 0 then c else c\<lparr>uc_out := uc_out c @ [data]\<rparr>)"

section \<open>Datagrams and messages\<close>

lemma recv_buffer_ok: "\<exists>b. recv_buffer d = Inr b \<and> buffer_ok b \<and> bytes b = take kUdpPacketSize d"
proof -
  obtain b where b: "makeRoom kUdpPacketSize buf_new = Inr b" "buffer_ok b" "bytes b = []" "kUdpPacketSize \<le> space b"
    using makeRoom_ok [OF buf_new_ok(1), of kUdpPacketSize] buf_new_ok(2) by (auto simp: space_def bytes_def)
  obtain b' where "poke (be b) (take kUdpPacketSize d) b = Inr b'" "buffer_ok (addSize (length (take kUdpPacketSize d)) b')"
      "bytes (addSize (length (take kUdpPacketSize d)) b') = bytes b @ take kUdpPacketSize d"
    using poke_addSize [OF b(2), of "take kUdpPacketSize d"] le_trans [OF _ b(4)] by auto
  then show ?thesis using b(1,3) by (simp add: recv_buffer_def)
qed

fun udp_reads :: "(buffer \<Rightarrow> ip4addr \<Rightarrow> 'a udp_server_scheme \<Rightarrow> 'a udp_server_scheme res) \<Rightarrow> recv list \<Rightarrow>
    'a udp_server_scheme \<Rightarrow> 'a udp_server_scheme res" where
  "udp_reads cb [] s = Inr s"
| "udp_reads cb (r # rs) s = rbind (udp_read cb r s) (udp_reads cb rs)"

definition messages :: "recv list \<Rightarrow> (string \<times> ip4addr) list" where
  "messages rs = concat (map (\<lambda>r. case r of RecvErr \<Rightarrow> [] | Recv d src \<Rightarrow> [(take kUdpPacketSize d, src)]) rs)"

text \<open>A UDP server hands every received datagram to its callback exactly once, in the order
  of arrival and with its sender: the callback runs on the datagram's first \<open>kUdpPacketSize\<close> bytes,
  failed receptions are skipped, and the first callback that fails ends the run. The callback may do
  anything that leaves the channel open, such as answering with \<open>sendTo\<close>.\<close>

theorem udp_messages:
  assumes "\<not> chan_closed (u_chan s)" "\<And>d src s s'. f d src s = Inr s' \<Longrightarrow> u_chan s' = u_chan s"
  shows "udp_reads (\<lambda>buf. f (bytes buf)) rs s = run_list (\<lambda>(d, src). f d src) (messages rs) s"
  using assms(1)
proof (induction rs arbitrary: s)
  case Nil
  then show ?case by (simp add: messages_def)
next
  case (Cons r rs)
  show ?case
  proof (cases r)
    case RecvErr
    then show ?thesis using Cons by (simp add: udp_read_def messages_def)
  next
    case (Recv d src)
    obtain b where "recv_buffer d = Inr b" "bytes b = take kUdpPacketSize d" using recv_buffer_ok by blast
    then have r: "udp_read (\<lambda>buf. f (bytes buf)) r s = f (take kUdpPacketSize d) src s"
      using Recv Cons.prems by (simp add: udp_read_def)
    have m: "messages (r # rs) = (take kUdpPacketSize d, src) # messages rs" by (simp add: messages_def Recv)
    show ?thesis
    proof (cases "f (take kUdpPacketSize d) src s")
      case (Inl e)
      then show ?thesis using r m by simp
    next
      case (Inr s')
      then have "\<not> chan_closed (u_chan s')" using assms(2) Cons.prems by simp
      then show ?thesis using r m Inr Cons.IH [of s'] by simp
    qed
  qed
qed

definition udp_echo :: "string \<Rightarrow> ip4addr \<Rightarrow> udp_server \<Rightarrow> udp_server res" where
  "udp_echo d src s = Inr (udp_sendTo (int (length d)) d src s)"

theorem udp_messages_witness:
  "udp_reads (\<lambda>buf. udp_echo (bytes buf)) [Recv ''ab'' \<lparr>s_addr = 1, sin_port = 2\<rparr>, RecvErr, Recv ''c'' \<lparr>s_addr = 3, sin_port = 4\<rparr>]
     \<lparr>u_chan = Some 5, u_addr = \<lparr>s_addr = 0, sin_port = 0\<rparr>, u_out = []\<rparr> =
   Inr \<lparr>u_chan = Some 5, u_addr = \<lparr>s_addr = 0, sin_port = 0\<rparr>,
     u_out = [(''ab'', \<lparr>s_addr = 1, sin_port = 2\<rparr>), (''c'', \<lparr>s_addr = 3, sin_port = 4\<rparr>)]\<rparr>"
proof -
  let ?s = "\<lparr>u_chan = Some 5, u_addr = \<lparr>s_addr = 0, sin_port = 0\<rparr>, u_out = []\<rparr>"
  have "\<not> chan_closed (u_chan ?s)" by (simp add: chan_closed_def)
  moreover have "udp_echo d src s = Inr s' \<Longrightarrow> u_chan s' = u_chan s" for d src s s'
    by (auto simp: udp_echo_def udp_sendTo_def)
  ultimately show ?thesis
    using udp_messages [of ?s udp_echo "[Recv ''ab'' \<lparr>s_addr = 1, sin_port = 2\<rparr>, RecvErr, Recv ''c'' \<lparr>s_addr = 3, sin_port = 4\<rparr>]"]
    by (simp add: messages_def udp_echo_def udp_sendTo_def chan_closed_def kUdpPacketSize_def)
qed

section \<open>\<open>HSHAU\<close>\<close>

text \<open>The half-synchronous UDP server: the message callback of its \<open>UdpServer\<close> makes a datagram a task of the pool, and the task the loop
  runs at the end sends the answer to the sender.\<close>

record hshau = udp_server +
  hs :: "ip4addr hsha"

definition hshau_startServer :: "bind_sys \<Rightarrow> (string \<Rightarrow> 32 word) \<Rightarrow> string \<Rightarrow> 16 word \<Rightarrow> nat \<Rightarrow> hshau option res" where
  "hshau_startServer sys getHostByName host port threads =
     rbind (udp_startServer sys getHostByName host port) (\<lambda>r.
       Inr (map_option (\<lambda>s. udp_server.extend s \<lparr>hs = hsha_new threads\<rparr>) r))"

definition hshau_msg :: "buffer \<Rightarrow> ip4addr \<Rightarrow> hshau \<Rightarrow> hshau res" where
  "hshau_msg buf src s = Inr (s\<lparr>hs := hsha_msg src (bytes buf) (hs s)\<rparr>)"

definition hshau_reply :: "int \<Rightarrow> hshau \<Rightarrow> hshau" where
  "hshau_reply wn s =
     (case sq_pop (loop_q (hs s)) of
        (None, q) \<Rightarrow> s
      | (Some t, q) \<Rightarrow>
          (let s1 = s\<lparr>hs := hsha_reply (hs s)\<rparr> in if snd t \<noteq> [] then udp_sendTo wn (snd t) (fst t) s1 else s1))"

text \<open>\<open>HSHAU::exit\<close> also joins the pool.\<close>

definition hshau_exit :: "hshau \<Rightarrow> hshau" where
  "hshau_exit s = s\<lparr>hs := hsha_exit (hs s)\<rparr>"

inductive hshau_step :: "(ip4addr \<Rightarrow> string \<Rightarrow> string) \<Rightarrow> hshau \<Rightarrow> hshau \<Rightarrow> bool" for cb where
  Datagram: "udp_read hshau_msg r s = Inr s' \<Longrightarrow> hshau_step cb s s'"
| UExit: "hshau_step cb s (hshau_exit s)"
| UHead: "i < length (running (hs s)) \<Longrightarrow> running (hs s) ! i = None \<Longrightarrow> workers (hpool (hs s)) ! i = AtHead \<Longrightarrow>
    hshau_step cb s (s\<lparr>hs := (hs s)\<lparr>hpool := worker_head i (hpool (hs s))\<rparr>\<rparr>)"
| UStart: "i < length (running (hs s)) \<Longrightarrow> running (hs s) ! i = None \<Longrightarrow> workers (hpool (hs s)) ! i = InWait \<Longrightarrow>
    wait_ready wait_infinite False (ptasks (hpool (hs s))) \<Longrightarrow> hshau_step cb s (s\<lparr>hs := hsha_start i (hs s)\<rparr>)"
| UFinish: "i < length (running (hs s)) \<Longrightarrow> running (hs s) ! i = Some t \<Longrightarrow> hshau_step cb s (s\<lparr>hs := hsha_finish cb i t (hs s)\<rparr>)"
| UReply: "0 \<le> wn \<Longrightarrow> hshau_step cb s (hshau_reply wn s)"

lemma hshau_step_simulates:
  assumes "hshau_step cb s s'" "\<not> chan_closed (u_chan s)" "u_out s = map prod.swap (sent (hs s))"
  shows "(hs s' = hs s \<or> hsha_step cb (hs s) (hs s')) \<and> u_chan s' = u_chan s \<and> u_out s' = map prod.swap (sent (hs s'))"
  using assms(1)
proof cases
  case (Datagram r)
  show ?thesis
  proof (cases r)
    case (Recv d src)
    obtain b where b: "recv_buffer d = Inr b" using recv_buffer_ok by blast
    have "s' = s\<lparr>hs := hsha_msg src (bytes b) (hs s)\<rparr>" using Datagram Recv b assms(2) by (simp add: udp_read_def hshau_msg_def)
    then show ?thesis using assms(3) hsha_step.Msg [of cb "hs s" src "bytes b"] by (simp add: hsha_msg_def)
  qed (use Datagram assms in \<open>simp add: udp_read_def\<close>)
next
  case UExit
  then show ?thesis using assms(3) hsha_step.Exit [of cb "hs s"] by (simp add: hshau_exit_def hsha_exit_def)
next
  case (UHead i)
  then show ?thesis using assms(3) hsha_step.Head [of i "hs s"] by simp
next
  case (UStart i)
  then show ?thesis using assms(3) hsha_step.Start [of i "hs s"] by (simp add: hsha_start_def)
next
  case (UFinish i t)
  then show ?thesis using assms(3) hsha_step.Finish [of i "hs s" t cb] by (simp add: hsha_finish_def)
next
  case (UReply wn)
  then show ?thesis using assms(2,3) hsha_step.Reply [of cb "hs s"]
    by (cases "items (loop_q (hs s))") (auto simp: hshau_reply_def hsha_reply_def sq_pop_def udp_sendTo_def Let_def)
qed

lemma hshau_run_simulates:
  assumes "(hshau_step cb)\<^sup>*\<^sup>* s s'" "\<not> chan_closed (u_chan s)" "u_out s = []" "hs s = hsha_new threads"
  shows "hsha_reach cb threads (hs s') \<and> u_chan s' = u_chan s \<and> u_out s' = map prod.swap (sent (hs s'))"
  using assms(1)
proof induction
  case base
  then show ?case using assms(3,4) hsha_reach.init [of cb threads] by (simp add: hsha_new_def)
next
  case (step s1 s2)
  then have "(hs s2 = hs s1 \<or> hsha_step cb (hs s1) (hs s2)) \<and> u_chan s2 = u_chan s1 \<and> u_out s2 = map prod.swap (sent (hs s2))"
    using hshau_step_simulates [of cb s1 s2] assms(2) by simp
  then show ?case using step.IH hsha_reach.step by metis
qed



end
