(* ===== verification/Util.thy ===== *)
theory Util
  imports Port "HOL-Library.Signed_Division"
begin

text \<open>
  \<open>util\<close> (\<open>util.h\<close>, \<open>util.cc\<close>) and the descriptor options of \<open>net\<close> (\<open>net.cc\<close>): formatting, times, numbers, and
  the flags of a descriptor as the kernel keeps them. The clock and \<open>localtime\<close> are parameters.
\<close>

section \<open>Formatting and time\<close>

text \<open>\<open>t\<close> is the whole formatted text: first into 500 bytes, then into 30000, where it is cut.\<close>

definition format :: "string \<Rightarrow> string" where
  "format t = (if length t < 500 then t else if length t < 30000 then t else take (30000 - 1) t)"

record tm =
  tm_year :: int
  tm_mon :: int
  tm_mday :: int
  tm_hour :: int
  tm_min :: int
  tm_sec :: int

text \<open>\<open>%0wd\<close>.\<close>

definition pad :: "nat \<Rightarrow> int \<Rightarrow> string" where
  "pad w n = (let s = to_string (nat \<bar>n\<bar>); sign = (if n < 0 then ''-'' else [])
     in sign @ replicate (w - length sign - length s) (CHR ''0'') @ s)"

definition readableTime :: "(int \<Rightarrow> tm) \<Rightarrow> int \<Rightarrow> string" where
  "readableTime localtime t = (let m = localtime t in
     format (pad 4 (tm_year m + 1900) @ ''-'' @ pad 2 (tm_mon m + 1) @ ''-'' @ pad 2 (tm_mday m) @ '' '' @
       pad 2 (tm_hour m) @ '':'' @ pad 2 (tm_min m) @ '':'' @ pad 2 (tm_sec m)))"

text \<open>\<open>timeMilli\<close> and \<open>steadyMilli\<close> of a clock in microseconds.\<close>

definition milli :: "int \<Rightarrow> int" where
  "milli micro = micro sdiv 1000"

section \<open>Numbers\<close>

text \<open>\<open>atoi(b, e)\<close> passes \<open>&e\<close> as the place for the end, so \<open>e\<close> does not bound what is read; \<open>atoi2\<close> then compares
  the address of \<open>e\<close> with itself.\<close>

definition util_atoi :: "string \<Rightarrow> nat \<Rightarrow> int" where
  "util_atoi b e = fst (strtol 10 (cstr b))"

definition util_atoi2 :: "string \<Rightarrow> nat \<Rightarrow> int" where
  "util_atoi2 b e = (let v = fst (strtol 10 (cstr b)); same_address = True in if same_address then v else -1)"

section \<open>Descriptor flags\<close>

record fdtab =
  fd_flags :: "int \<Rightarrow> 32 word option"      \<comment> \<open>\<open>F_GETFD\<close>; \<open>None\<close> for a bad descriptor\<close>
  fl_flags :: "int \<Rightarrow> 32 word option"      \<comment> \<open>\<open>F_GETFL\<close>\<close>
  sockopts :: "int \<Rightarrow> int \<Rightarrow> bool"
  errno :: int

definition O_NONBLOCK :: "32 word" where "O_NONBLOCK = 0x800"

definition EBADF :: int where "EBADF = 9"

definition SO_REUSEADDR :: int where "SO_REUSEADDR = 2"
definition SO_REUSEPORT :: int where "SO_REUSEPORT = 15"
definition TCP_NODELAY :: int where "TCP_NODELAY = 1"

text \<open>On a bad descriptor \<open>F_GETFD\<close> answers \<open>-1\<close>, and \<open>F_SETFD\<close> fails as well.\<close>

definition addFdFlag :: "int \<Rightarrow> 32 word \<Rightarrow> fdtab \<Rightarrow> int \<times> fdtab" where
  "addFdFlag fd flag t =
     (case fd_flags t fd of None \<Rightarrow> (-1, t\<lparr>errno := EBADF\<rparr>)
      | Some ret \<Rightarrow> (0, t\<lparr>fd_flags := (fd_flags t)(fd \<mapsto> ret OR flag)\<rparr>))"

definition setNonBlock :: "int \<Rightarrow> bool \<Rightarrow> fdtab \<Rightarrow> int \<times> fdtab" where
  "setNonBlock fd v t =
     (case fl_flags t fd of None \<Rightarrow> (let t1 = t\<lparr>errno := EBADF\<rparr> in (errno t1, t1))
      | Some flags \<Rightarrow>
          (0, t\<lparr>fl_flags := (fl_flags t)(fd \<mapsto> (if v then flags OR O_NONBLOCK else flags AND NOT O_NONBLOCK))\<rparr>))"

definition setsockopt :: "int \<Rightarrow> int \<Rightarrow> bool \<Rightarrow> fdtab \<Rightarrow> int \<times> fdtab" where
  "setsockopt fd opt v t =
     (if fl_flags t fd = None then (-1, t\<lparr>errno := EBADF\<rparr>)
      else (0, t\<lparr>sockopts := (sockopts t)(fd := (sockopts t fd)(opt := v))\<rparr>))"

definition setReuseAddr :: "int \<Rightarrow> bool \<Rightarrow> fdtab \<Rightarrow> int \<times> fdtab" where
  "setReuseAddr fd v = setsockopt fd SO_REUSEADDR v"

definition setReusePort :: "int \<Rightarrow> bool \<Rightarrow> fdtab \<Rightarrow> int \<times> fdtab" where
  "setReusePort fd v = setsockopt fd SO_REUSEPORT v"

definition setNoDelay :: "int \<Rightarrow> bool \<Rightarrow> fdtab \<Rightarrow> int \<times> fdtab" where
  "setNoDelay fd v = setsockopt fd TCP_NODELAY v"

text \<open>The check of the \<open>Channel\<close> constructor.\<close>

definition channel_nonblock :: "int \<Rightarrow> fdtab \<Rightarrow> fdtab res" where
  "channel_nonblock fd t = (let (r, t1) = setNonBlock fd True t in if r < 0 then Inl Fatal else Inr t1)"

section \<open>Properties\<close>

lemma format_take: "format t = take 29999 t"
  by (simp add: format_def)

text \<open>\<open>atoi2\<close> accepts a number followed by anything, whatever end it is given.\<close>

theorem atoi2_ignores_end:
  assumes "- (2 ^ 31) \<le> n" "n < 2 ^ 31" "rest = [] \<or> \<not> is_digit 10 (hd rest)" "CHR 0x00 \<notin> set rest"
  shows "to_int32 (util_atoi2 (int_string n @ rest) e) = n"
proof -
  have "CHR 0x00 \<notin> set (int_string n @ rest)" using int_string_plain(1) [of n] assms(4) by auto
  then have "cstr (int_string n @ rest) = int_string n @ rest" using cstr_app [of "int_string n @ rest" "[]"] by (simp add: cstr_def)
  then show ?thesis using atoi_int_string [OF assms] by (simp add: util_atoi2_def atoi_def)
qed

text \<open>\<open>setNonBlock\<close> sets or clears its flag and no other; a bad descriptor gives \<open>errno\<close>, which is positive, so
  that the constructor of \<open>Channel\<close>, which tests for a negative result, goes on.\<close>

theorem nonblock_flag:
  assumes "fl_flags t fd = Some flags"
  shows "\<exists>flags'. setNonBlock fd v t = (0, t\<lparr>fl_flags := (fl_flags t)(fd \<mapsto> flags')\<rparr>) \<and>
    (\<forall>i. bit flags' i = (if i = 11 then v else bit flags i))"
proof -
  have b: "bit O_NONBLOCK i \<longleftrightarrow> i = 11" for i
  proof -
    have p: "O_NONBLOCK = 2 ^ 11" by (simp add: O_NONBLOCK_def)
    show ?thesis unfolding p bit_exp_iff by auto
  qed
  have "bit flags i \<Longrightarrow> i < 32" for i using bit_imp_le_length [of flags i] by simp
  then have "\<forall>i. bit (if v then flags OR O_NONBLOCK else flags AND NOT O_NONBLOCK) i = (if i = 11 then v else bit flags i)"
    by (auto simp: bit_or_iff bit_and_iff bit_not_iff b)
  then show ?thesis using assms by (auto simp: setNonBlock_def)
qed

theorem bad_descriptor_unnoticed:
  assumes "fl_flags t fd = None"
  shows "\<exists>t'. channel_nonblock fd t = Inr t'"
  using assms by (simp add: channel_nonblock_def setNonBlock_def EBADF_def)

end
