(* ===== verification/Logging.thy ===== *)
theory Logging
  imports Util
begin

text \<open>
  \<open>Logger\<close> (\<open>logging.h\<close>, \<open>logging.cc\<close>): levels, the formatting of a line into its 4096-byte buffer, the log
  file and its rotation. A directory maps names to inodes and the logger's descriptor refers to an inode,
  so that a renamed file goes on receiving lines until the descriptor is redirected. The outcome of each
  system call, the clock, \<open>timezone\<close> and \<open>localtime\<close> are parameters.
\<close>

section \<open>Levels\<close>

definition LFATAL :: int where "LFATAL = 0"
definition LERROR :: int where "LERROR = 1"
definition LINFO :: int where "LINFO = 4"
definition LALL :: int where "LALL = 7"

definition levelStrs :: "string list" where
  "levelStrs = [''FATAL'', ''ERROR'', ''UERR'', ''WARN'', ''INFO'', ''DEBUG'', ''TRACE'', ''ALL'']"

record logger =
  lg_file :: "nat option"          \<comment> \<open>what \<open>fd_\<close> refers to; \<open>None\<close> for \<open>-1\<close>\<close>
  lg_level :: int
  lastRotate :: int
  realRotate :: int
  rotateInterval :: int
  filename :: string

definition logger_new :: "int \<Rightarrow> logger" where
  "logger_new now =
     \<lparr>lg_file = None, lg_level = LINFO, lastRotate = now, realRotate = now, rotateInterval = 86400, filename = []\<rparr>"

definition setLevel :: "int \<Rightarrow> logger \<Rightarrow> logger" where
  "setLevel l lg = lg\<lparr>lg_level := min LALL (max LFATAL l)\<rparr>"

definition adjustLogLevel :: "int \<Rightarrow> logger \<Rightarrow> logger" where
  "adjustLogLevel adjust lg = setLevel (lg_level lg + adjust) lg"

definition strcaseeq :: "string \<Rightarrow> string \<Rightarrow> bool" where
  "strcaseeq a b \<longleftrightarrow> map tolower a = map tolower b"

fun level_index :: "string list \<Rightarrow> int \<Rightarrow> string \<Rightarrow> int" where
  "level_index [] i level = LINFO"
| "level_index (s # ss) i level = (if strcaseeq s level then i else level_index ss (i + 1) level)"

definition setLogLevel :: "string \<Rightarrow> logger \<Rightarrow> logger" where
  "setLogLevel level lg = setLevel (level_index levelStrs 0 level) lg"

definition getLogLevelStr :: "logger \<Rightarrow> string" where
  "getLogLevelStr lg = levelStrs ! nat (lg_level lg)"

definition setRotateInterval :: "int \<Rightarrow> logger \<Rightarrow> logger" where
  "setRotateInterval i lg = lg\<lparr>rotateInterval := i\<rparr>"

section \<open>The log file\<close>

record dir =
  names :: "(string \<times> nat) list"
  inodes :: "string list"

text \<open>\<open>open\<close> with \<open>O_APPEND|O_CREAT\<close>, \<open>rename\<close>, and a \<open>write\<close> at the end.\<close>

definition dir_open :: "string \<Rightarrow> dir \<Rightarrow> nat \<times> dir" where
  "dir_open n d = (case map_of (names d) n of Some i \<Rightarrow> (i, d)
     | None \<Rightarrow> (length (inodes d), d\<lparr>names := mput n (length (inodes d)) (names d), inodes := inodes d @ [[]]\<rparr>))"

definition dir_rename :: "string \<Rightarrow> string \<Rightarrow> dir \<Rightarrow> dir" where
  "dir_rename a b d = (case map_of (names d) a of None \<Rightarrow> d | Some i \<Rightarrow> d\<lparr>names := mput b i (mdel a (names d))\<rparr>)"

definition dir_write :: "nat \<Rightarrow> string \<Rightarrow> dir \<Rightarrow> dir" where
  "dir_write i s d = d\<lparr>inodes := (inodes d)[i := inodes d ! i @ s]\<rparr>"

text \<open>\<open>setFileName\<close>; with a file already open, its descriptor is redirected by \<open>dup2\<close>, whose failure is fatal.
  A file that cannot be opened leaves the logger as it was.\<close>

definition setFileName :: "bool \<Rightarrow> bool \<Rightarrow> string \<Rightarrow> logger \<times> dir \<Rightarrow> (logger \<times> dir) res" where
  "setFileName open_ok dup_ok n s = (case s of (lg, d) \<Rightarrow>
     if \<not> open_ok then Inr (lg, d)
     else (let (i, d') = dir_open n d; lg' = lg\<lparr>filename := n\<rparr> in
           if lg_file lg = None then Inr (lg'\<lparr>lg_file := Some i\<rparr>, d')
           else if \<not> dup_ok then Inl Fatal
           else Inr (lg'\<lparr>lg_file := Some i\<rparr>, d')))"

section \<open>Rotation\<close>

text \<open>The interval a time falls into; C++ division truncates.\<close>

definition interval_of :: "int \<Rightarrow> logger \<Rightarrow> int \<Rightarrow> int" where
  "interval_of tz lg t = (t - tz) sdiv rotateInterval lg"

text \<open>The steps of \<open>maybeRotate\<close> up to the election of the thread that rotates: the test of \<open>lastRotate_\<close>, its
  assignment, the atomic exchange of \<open>realRotate_\<close> and the second test.\<close>

definition rotate_due :: "int \<Rightarrow> int \<Rightarrow> logger \<Rightarrow> bool" where
  "rotate_due tz now lg \<longleftrightarrow> filename lg \<noteq> [] \<and> interval_of tz lg now \<noteq> interval_of tz lg (lastRotate lg)"

definition set_last :: "int \<Rightarrow> logger \<Rightarrow> logger" where
  "set_last now lg = lg\<lparr>lastRotate := now\<rparr>"

definition exchange_real :: "int \<Rightarrow> logger \<Rightarrow> int \<times> logger" where
  "exchange_real now lg = (realRotate lg, lg\<lparr>realRotate := now\<rparr>)"

definition rotate_mine :: "int \<Rightarrow> int \<Rightarrow> logger \<Rightarrow> bool" where
  "rotate_mine tz old lg \<longleftrightarrow> interval_of tz lg old \<noteq> interval_of tz lg (lastRotate lg)"

text \<open>\<open>%lx\<close>.\<close>

fun to_hex :: "nat \<Rightarrow> string" where
  "to_hex n = (let c = (let k = n mod 16 in if k < 10 then char_of (48 + k) else char_of (87 + k))
     in if n < 16 then [c] else to_hex (n div 16) @ [c])"

declare to_hex.simps [simp del]

definition rotated_name :: "string \<Rightarrow> tm \<Rightarrow> string" where
  "rotated_name n t = take 4095 (n @ ''.'' @ int_string (tm_year t + 1900) @ pad 2 (tm_mon t + 1) @ pad 2 (tm_mday t) @
     pad 2 (tm_hour t) @ pad 2 (tm_min t))"

definition rotate_files :: "bool \<Rightarrow> bool \<Rightarrow> tm \<Rightarrow> logger \<times> dir \<Rightarrow> logger \<times> dir" where
  "rotate_files rename_ok open_ok t s = (case s of (lg, d) \<Rightarrow>
     if \<not> rename_ok then (lg, d)
     else (let d1 = dir_rename (filename lg) (rotated_name (filename lg) t) d in
           if \<not> open_ok then (lg, d1)
           else (let (i, d2) = dir_open (filename lg) d1 in (lg\<lparr>lg_file := map_option (\<lambda>_. i) (lg_file lg)\<rparr>, d2))))"

record log_env =
  le_now :: int
  le_tz :: int
  le_localtime :: "int \<Rightarrow> tm"
  le_rename :: bool
  le_open :: bool
  le_usec :: int
  le_strerror :: string

definition maybeRotate :: "log_env \<Rightarrow> logger \<times> dir \<Rightarrow> (logger \<times> dir) res" where
  "maybeRotate E s = (case s of (lg, d) \<Rightarrow>
     if filename lg = [] then Inr (lg, d)
     else if rotateInterval lg = 0 then Inl DivZero
     else if \<not> rotate_due (le_tz E) (le_now E) lg then Inr (lg, d)
     else (let (old, lg1) = exchange_real (le_now E) (set_last (le_now E) lg) in
           if \<not> rotate_mine (le_tz E) old lg1 then Inr (lg1, d)
           else Inr (rotate_files (le_rename E) (le_open E) (le_localtime E (le_now E)) (lg1, d))))"

section \<open>Lines\<close>

definition log_header :: "tm \<Rightarrow> int \<Rightarrow> nat \<Rightarrow> int \<Rightarrow> string \<Rightarrow> int \<Rightarrow> string" where
  "log_header t usec tid level file line =
     pad 4 (tm_year t + 1900) @ ''/'' @ pad 2 (tm_mon t + 1) @ ''/'' @ pad 2 (tm_mday t) @ ''-'' @ pad 2 (tm_hour t) @ '':'' @
     pad 2 (tm_min t) @ '':'' @ pad 2 (tm_sec t) @ ''.'' @ pad 6 usec @ '' '' @ to_hex tid @ '' '' @ levelStrs ! nat level @ '' '' @
     file @ '':'' @ int_string line @ '' ''"

definition LOG_BUF :: nat where "LOG_BUF = 4096"

text \<open>\<open>while ( *--p == '\n')\<close>, from \<open>p\<close> down; \<open>None\<close> when it runs over the start of the buffer.\<close>

fun trim_back :: "string \<Rightarrow> nat \<Rightarrow> nat option" where
  "trim_back b 0 = None"
| "trim_back b (Suc p) = (if b ! p = LF then trim_back b p else Some p)"

text \<open>The two \<open>snprintf\<close> calls and the end of the line. Behind the text of the calls stands a NUL; the cells
  after it are not read.\<close>

definition log_line :: "string \<Rightarrow> string \<Rightarrow> string res" where
  "log_line hdr msg =
     (if LOG_BUF < length hdr then Inl OutOfBounds
      else
        (let text = take (LOG_BUF - 1) (hdr @ msg);
             buffer = text @ replicate (LOG_BUF - length text) (CHR 0x00);
             p = min (length hdr + length msg) (LOG_BUF - 2)
         in case trim_back buffer p of
              None \<Rightarrow> Inl OutOfBounds
            | Some j \<Rightarrow>
                if LOG_BUF \<le> j + 2 then Inl OutOfBounds
                else Inr (take (j + 2) (buffer[j + 1 := LF, j + 2 := CHR 0x00]))))"

text \<open>What a call leaves: the logger, the directory, standard output, the system log, standard error.\<close>

record log_state =
  ls_logger :: logger
  ls_dir :: dir
  ls_stdout :: string
  ls_syslog :: "string list"
  ls_stderr :: string

definition log_write :: "int \<Rightarrow> string \<Rightarrow> log_state \<Rightarrow> log_state" where
  "log_write wrote ln s = (case lg_file (ls_logger s) of
       None \<Rightarrow> s\<lparr>ls_stdout := ls_stdout s @ take (nat wrote) ln\<rparr>
     | Some i \<Rightarrow> s\<lparr>ls_dir := dir_write i (take (nat wrote) ln) (ls_dir s)\<rparr>)"

text \<open>\<open>wrote\<close> is the result of \<open>write\<close>, negative for a failure; a short write is only reported on standard error.
  With \<open>NDEBUG\<close> the assertion behind a fatal line is not compiled.\<close>

definition logv :: "log_env \<Rightarrow> bool \<Rightarrow> int \<Rightarrow> nat \<Rightarrow> int \<Rightarrow> string \<Rightarrow> int \<Rightarrow> string \<Rightarrow> log_state \<Rightarrow> log_state res" where
  "logv E ndebug wrote tid level file line msg s =
     (if lg_level (ls_logger s) < level then Inr s
      else
        rbind (maybeRotate E (ls_logger s, ls_dir s)) (\<lambda>(lg, d).
        rbind (log_line (log_header (le_localtime E (le_now E)) (le_usec E) tid level file line) msg) (\<lambda>ln.
          let s1 = log_write wrote ln (s\<lparr>ls_logger := lg, ls_dir := d\<rparr>);
              s2 = (if wrote \<noteq> int (length ln)
                    then s1\<lparr>ls_stderr := ls_stderr s1 @ ''write log file '' @ filename lg @ '' failed. written '' @
                              int_string wrote @ '' errmsg: '' @ le_strerror E @ [LF]\<rparr>
                    else s1);
              s3 = (if level \<le> LERROR then s2\<lparr>ls_syslog := ls_syslog s2 @ [drop 27 ln]\<rparr> else s2);
              s4 = (if level = LFATAL then s3\<lparr>ls_stderr := ls_stderr s3 @ ln\<rparr> else s3)
          in if level = LFATAL \<and> \<not> ndebug then Inl Fatal else Inr s4)))"

section \<open>The interleaving of rotations\<close>

text \<open>Several threads log at once. Between the steps of one \<open>maybeRotate\<close> the others may run; \<open>clk\<close> holds the
  clock readings they can get. Only the thread in \<open>Rotating\<close> renames the file.\<close>

datatype rot_phase = Outside | Passed int | Assigned int | Got int int | Rotating int

record rot_sys =
  rs_logger :: logger
  rs_threads :: "rot_phase list"
  rs_rotations :: nat

inductive rot_step :: "int \<Rightarrow> int set \<Rightarrow> rot_sys \<Rightarrow> rot_sys \<Rightarrow> bool" for tz clk where
  rot_pass: "i < length (rs_threads s) \<Longrightarrow> rs_threads s ! i = Outside \<Longrightarrow> now \<in> clk \<Longrightarrow> rotate_due tz now (rs_logger s) \<Longrightarrow>
    rot_step tz clk s (s\<lparr>rs_threads := (rs_threads s)[i := Passed now]\<rparr>)"
| rot_assign: "i < length (rs_threads s) \<Longrightarrow> rs_threads s ! i = Passed now \<Longrightarrow>
    rot_step tz clk s (s\<lparr>rs_logger := set_last now (rs_logger s), rs_threads := (rs_threads s)[i := Assigned now]\<rparr>)"
| rot_exchange: "i < length (rs_threads s) \<Longrightarrow> rs_threads s ! i = Assigned now \<Longrightarrow> exchange_real now (rs_logger s) = (old, lg) \<Longrightarrow>
    rot_step tz clk s (s\<lparr>rs_logger := lg, rs_threads := (rs_threads s)[i := Got old now]\<rparr>)"
| rot_elect: "i < length (rs_threads s) \<Longrightarrow> rs_threads s ! i = Got old now \<Longrightarrow>
    rot_step tz clk s (s\<lparr>rs_threads := (rs_threads s)[i := (if rotate_mine tz old (rs_logger s) then Rotating now else Outside)]\<rparr>)"
| rot_done: "i < length (rs_threads s) \<Longrightarrow> rs_threads s ! i = Rotating now \<Longrightarrow>
    rot_step tz clk s (s\<lparr>rs_threads := (rs_threads s)[i := Outside], rs_rotations := rs_rotations s + 1\<rparr>)"

definition rot_start :: "logger \<Rightarrow> nat \<Rightarrow> rot_sys" where
  "rot_start lg n = \<lparr>rs_logger = lg, rs_threads = replicate n Outside, rs_rotations = 0\<rparr>"

section \<open>Levels stay in range\<close>

datatype level_op = SetNamed string | SetLevel int | Adjust int

fun level_do :: "level_op \<Rightarrow> logger \<Rightarrow> logger" where
  "level_do (SetNamed n) lg = setLogLevel n lg"
| "level_do (SetLevel l) lg = setLevel l lg"
| "level_do (Adjust a) lg = adjustLogLevel a lg"

definition level_ok :: "logger \<Rightarrow> bool" where
  "level_ok lg \<longleftrightarrow> 0 \<le> lg_level lg \<and> lg_level lg \<le> 7"

lemma level_ok_set: "level_ok (setLevel l lg)"
  by (simp add: level_ok_def setLevel_def LALL_def LFATAL_def)

lemma level_ok_run: "level_ok (fold level_do ops (logger_new now))"
proof (induction ops rule: rev_induct)
  case Nil
  show ?case by (simp add: level_ok_def logger_new_def LINFO_def)
next
  case (snoc x xs)
  show ?case by (cases x) (simp_all add: level_ok_set setLogLevel_def adjustLogLevel_def)
qed

lemma level_cases:
  assumes "level_ok lg"
  obtains "lg_level lg = 0" | "lg_level lg = 1" | "lg_level lg = 2" | "lg_level lg = 3" | "lg_level lg = 4"
    | "lg_level lg = 5" | "lg_level lg = 6" | "lg_level lg = 7"
proof -
  have "lg_level lg \<in> {0, 1, 2, 3, 4, 5, 6, 7}" using assms by (simp add: level_ok_def) presburger
  then show ?thesis using that by auto
qed

lemma level_name_index:
  assumes "level_ok lg"
  shows "level_index levelStrs 0 (getLogLevelStr lg) = lg_level lg"
  using assms by (cases rule: level_cases) (simp_all add: getLogLevelStr_def levelStrs_def strcaseeq_def tolower_def LINFO_def)



section \<open>The line fits its buffer\<close>

lemma trim_back_run:
  assumes "p \<le> length b" "t = take p b" "dropWhile (\<lambda>c. c = LF) (rev t) \<noteq> []"
  shows "trim_back b p = Some (length (dropWhile (\<lambda>c. c = LF) (rev t)) - 1)"
  using assms
proof (induction b p arbitrary: t rule: trim_back.induct)
  case (2 b p)
  then have t: "t = take p b @ [b ! p]" by (simp add: take_Suc_conv_app_nth)
  show ?case using "2.IH" [of "take p b"] "2.prems" by (cases "b ! p = LF") (simp_all add: t take_Suc_conv_app_nth)
qed simp

lemma take_length_rstrip: "take (length (dropWhile P (rev xs))) xs = rev (dropWhile P (rev xs))"
proof -
  have "xs = rev (dropWhile P (rev xs)) @ rev (takeWhile P (rev xs))"
    by (metis rev_append rev_rev_ident takeWhile_dropWhile_id)
  then show ?thesis by (metis append_eq_conv_conj length_rev)
qed

lemma rstrip_replicate:
  "xs = rev (dropWhile (\<lambda>c. c = y) (rev xs)) @ replicate (length (takeWhile (\<lambda>c. c = y) (rev xs))) y"
proof -
  have "takeWhile (\<lambda>c. c = y) (rev xs) = replicate (length (takeWhile (\<lambda>c. c = y) (rev xs))) y"
    by (metis (full_types) replicate_length_same set_takeWhileD)
  then show ?thesis by (metis rev_append rev_replicate rev_rev_ident takeWhile_dropWhile_id)
qed

lemma dropWhile_some: "x \<in> set xs \<Longrightarrow> \<not> P x \<Longrightarrow> dropWhile P xs \<noteq> []"
  by (metis dropWhile_eq_Nil_conv)

definition cut_line :: "string \<Rightarrow> string" where
  "cut_line s = rev (dropWhile (\<lambda>c. c = LF) (rev (take (LOG_BUF - 2) s))) @ [LF]"

lemma log_line_cut:
  assumes "hdr \<noteq> []" "last hdr \<noteq> LF" "length hdr \<le> LOG_BUF - 2"
  shows "log_line hdr msg = Inr (cut_line (hdr @ msg))"
proof -
  define t where "t = take (LOG_BUF - 2) (hdr @ msg)"
  define body where "body = take (LOG_BUF - 1) (hdr @ msg)"
  define buffer where "buffer = body @ replicate (LOG_BUF - length body) (CHR 0x00)"
  define p where "p = min (length hdr + length msg) (LOG_BUF - 2)"
  define r where "r = dropWhile (\<lambda>c. c = LF) (rev t)"
  have lb: "length buffer = LOG_BUF" by (simp add: buffer_def body_def LOG_BUF_def)
  have lt: "length t = p" by (simp add: t_def p_def)
  have tp: "t = take p buffer"
    by (auto simp: t_def p_def buffer_def body_def LOG_BUF_def min_def)
  have "last hdr \<in> set t" using assms by (simp add: t_def)
  then have r0: "r \<noteq> []" using assms(2) dropWhile_some [of "last hdr" "rev t"] by (simp add: r_def)
  have rl: "length r \<le> p" using length_dropWhile_le [of "\<lambda>c. c = LF" "rev t"] lt by (simp add: r_def)
  have pl: "p \<le> LOG_BUF - 2" by (simp add: p_def)
  have tb: "trim_back buffer p = Some (length r - 1)"
    using trim_back_run [of p buffer t] tp r0 pl lb by (simp add: r_def)
  have tr: "take (length r) buffer = rev r"
  proof -
    have "take (length r) buffer = take (length r) t" using rl tp by (simp add: min_absorb1)
    then show ?thesis by (simp add: r_def take_length_rstrip)
  qed
  have "take (length r + 1) (buffer[length r := LF, length r + 1 := CHR 0x00]) = rev r @ [LF]"
    using rl pl lb tr by (simp add: take_Suc_conv_app_nth LOG_BUF_def)
  moreover have "\<not> LOG_BUF < length hdr" using assms(3) by (auto simp: LOG_BUF_def)
  then have "log_line hdr msg = (case trim_back buffer p of None \<Rightarrow> Inl OutOfBounds | Some j \<Rightarrow>
      if LOG_BUF \<le> j + 2 then Inl OutOfBounds else Inr (take (j + 2) (buffer[j + 1 := LF, j + 2 := CHR 0x00])))"
    unfolding log_line_def Let_def buffer_def p_def body_def by (simp only: if_False)
  moreover have "\<not> LOG_BUF \<le> length r - 1 + 2" "length r - 1 + 2 = length r + 1" "length r - 1 + 1 = length r"
    using r0 rl pl by (cases r; simp add: LOG_BUF_def)+
  ultimately have "log_line hdr msg = Inr (rev r @ [LF])" by (simp only: tb option.case if_False)
  then show ?thesis by (simp add: cut_line_def r_def t_def)
qed

lemma log_header_last:
  "log_header t u i l f k \<noteq> [] \<and> last (log_header t u i l f k) = CHR '' ''"
  by (simp add: log_header_def)

text \<open>C34. A line is its header and text, cut to the 4094 bytes the buffer leaves, without the
  line feeds at its end and with one line feed; the two \<open>snprintf\<close> calls and the backward scan stay in the
  buffer for every text, provided that the header itself fits.\<close>

theorem log_line_fits:
  assumes "length (log_header t usec tid level file line) \<le> LOG_BUF - 2"
  shows "\<exists>ln. log_line (log_header t usec tid level file line) msg = Inr (ln @ [LF]) \<and> length ln \<le> LOG_BUF - 2 \<and>
    ln \<noteq> [] \<and> last ln \<noteq> LF \<and> (\<exists>k. take (LOG_BUF - 2) (log_header t usec tid level file line @ msg) = ln @ replicate k LF)"
proof -
  let ?h = "log_header t usec tid level file line"
  let ?t = "take (LOG_BUF - 2) (?h @ msg)"
  let ?ln = "rev (dropWhile (\<lambda>c. c = LF) (rev ?t))"
  have h: "?h \<noteq> []" "last ?h \<noteq> LF" using log_header_last [of t usec tid level "file" line] by (auto simp: LF_def)
  then have "dropWhile (\<lambda>c. c = LF) (rev ?t) \<noteq> []"
    using assms dropWhile_some [of "last ?h" "rev ?t" "\<lambda>c. c = LF"] by simp
  then have "?ln \<noteq> []" "last ?ln \<noteq> LF" using hd_dropWhile [of "\<lambda>c. c = LF" "rev ?t"] by (simp_all add: last_rev)
  moreover have "length ?ln \<le> LOG_BUF - 2"
    using length_dropWhile_le [of "\<lambda>c. c = LF" "rev ?t"] by simp
  moreover have "?t = ?ln @ replicate (length (takeWhile (\<lambda>c. c = LF) (rev ?t))) LF"
    using rstrip_replicate [of ?t LF] .
  ultimately show ?thesis using log_line_cut [OF h assms, of msg] unfolding cut_line_def by blast
qed

theorem log_line_fits_witness:
  "\<exists>ln. log_line (log_header \<lparr>tm_year = 124, tm_mon = 0, tm_mday = 9, tm_hour = 8, tm_min = 7, tm_sec = 6\<rparr> 5 255 LINFO ''a.cc'' 12)
      (replicate 5000 CHR ''x'') = Inr (ln @ [LF]) \<and> length ln \<le> 4094"
proof -
  have "length (log_header \<lparr>tm_year = 124, tm_mon = 0, tm_mday = 9, tm_hour = 8, tm_min = 7, tm_sec = 6\<rparr> 5 255 LINFO ''a.cc'' 12)
     \<le> LOG_BUF - 2"
    by (simp add: log_header_def pad_def int_string_def to_string.simps to_hex.simps levelStrs_def LINFO_def LOG_BUF_def)
  from log_line_fits [OF this, of "replicate 5000 CHR ''x''"] show ?thesis by (auto simp: LOG_BUF_def)
qed

text \<open>A header that does not fit makes the room for the text negative, which \<open>vsnprintf\<close> takes for a huge size.\<close>

theorem log_header_overruns:
  assumes "LOG_BUF < length file"
  shows "log_line (log_header t usec tid level file line) msg = Inl OutOfBounds"
  using assms by (simp add: log_line_def log_header_def)

section \<open>Rotation\<close>

definition rot_weight :: "int \<Rightarrow> logger \<Rightarrow> int \<Rightarrow> rot_phase \<Rightarrow> nat" where
  "rot_weight tz lg k ph = (case ph of Rotating now \<Rightarrow> 1 | Got old now \<Rightarrow> of_bool (interval_of tz lg old \<noteq> k) | _ \<Rightarrow> 0)"

fun started :: "rot_phase \<Rightarrow> bool" where
  "started (Assigned now) = True"
| "started (Got old now) = True"
| "started (Rotating now) = True"
| "started _ = False"

fun reading :: "rot_phase \<Rightarrow> int set" where
  "reading (Passed now) = {now}"
| "reading (Assigned now) = {now}"
| "reading _ = {}"

definition rot_inv :: "int \<Rightarrow> int set \<Rightarrow> logger \<Rightarrow> int \<Rightarrow> rot_sys \<Rightarrow> bool" where
  "rot_inv tz clk lg k s \<longleftrightarrow>
     rotateInterval (rs_logger s) = rotateInterval lg \<and>
     (\<forall>ph \<in> set (rs_threads s). reading ph \<subseteq> clk \<and> (started ph \<longrightarrow> interval_of tz lg (lastRotate (rs_logger s)) = k)) \<and>
     rs_rotations s + sum_list (map (rot_weight tz lg k) (rs_threads s)) = of_bool (interval_of tz lg (realRotate (rs_logger s)) = k) \<and>
     (interval_of tz lg (realRotate (rs_logger s)) = k \<longrightarrow> interval_of tz lg (lastRotate (rs_logger s)) = k) \<and>
     (interval_of tz lg (lastRotate (rs_logger s)) = k \<longrightarrow>
        interval_of tz lg (realRotate (rs_logger s)) = k \<or> (\<exists>now. Assigned now \<in> set (rs_threads s)))"

lemma interval_of_cong: "rotateInterval a = rotateInterval b \<Longrightarrow> interval_of tz a = interval_of tz b"
  by (simp add: interval_of_def fun_eq_iff)

lemma sum_list_map_update:
  "i < length xs \<Longrightarrow> sum_list (map f (xs[i := x])) + f (xs ! i) = sum_list (map f xs) + (f x :: nat)"
  using member_le_sum_list [of "f (xs ! i)" "map f xs"] by (simp add: map_update sum_list_update)

lemma assigned_kept:
  assumes "i < length xs" "\<And>now. xs ! i \<noteq> Assigned now" "\<exists>now. Assigned now \<in> set xs"
  shows "\<exists>now. Assigned now \<in> set (xs[i := x])"
  using assms by (metis in_set_conv_nth length_list_update nth_list_update_neq)

lemma rot_inv_thread:
  assumes "rot_inv tz clk lg k s" "i < length (rs_threads s)"
  shows "reading (rs_threads s ! i) \<subseteq> clk"
    "started (rs_threads s ! i) \<Longrightarrow> interval_of tz lg (lastRotate (rs_logger s)) = k"
  using assms nth_mem [OF assms(2)] by (auto simp: rot_inv_def)

lemma assigned_step:
  assumes "rot_inv tz clk lg k s" "i < length (rs_threads s)" "\<And>now. rs_threads s ! i \<noteq> Assigned now"
    "interval_of tz lg (lastRotate (rs_logger s)) = k"
  shows "interval_of tz lg (realRotate (rs_logger s)) = k \<or> (\<exists>now. Assigned now \<in> set ((rs_threads s)[i := ph]))"
  using assms assigned_kept [of i "rs_threads s" ph] unfolding rot_inv_def by blast

text \<open>One thread moves to the phase \<open>ph\<close>, with the logger changed to \<open>lg'\<close>.\<close>

lemma rot_inv_update:
  assumes inv: "rot_inv tz clk lg k s" and i: "i < length (rs_threads s)"
    and s': "s' = s\<lparr>rs_logger := lg', rs_threads := (rs_threads s)[i := ph], rs_rotations := r\<rparr>"
    and "rotateInterval lg' = rotateInterval (rs_logger s)" "reading ph \<subseteq> clk"
    and st: "started ph \<Longrightarrow> interval_of tz lg (lastRotate lg') = k"
      "interval_of tz lg (lastRotate (rs_logger s)) = k \<Longrightarrow> interval_of tz lg (lastRotate lg') = k"
    and sum: "r + rot_weight tz lg k ph + of_bool (interval_of tz lg (realRotate (rs_logger s)) = k) =
      rs_rotations s + rot_weight tz lg k (rs_threads s ! i) + of_bool (interval_of tz lg (realRotate lg') = k)"
    and "interval_of tz lg (lastRotate lg') = k \<Longrightarrow>
      interval_of tz lg (realRotate lg') = k \<or> (\<exists>now. Assigned now \<in> set ((rs_threads s)[i := ph]))"
    and real: "interval_of tz lg (realRotate lg') = k \<Longrightarrow>
      interval_of tz lg (realRotate (rs_logger s)) = k \<or> interval_of tz lg (lastRotate lg') = k"
  shows "rot_inv tz clk lg k s'"
proof -
  have "\<forall>q \<in> set ((rs_threads s)[i := ph]). reading q \<subseteq> clk \<and> (started q \<longrightarrow> interval_of tz lg (lastRotate lg') = k)"
    using inv assms(5) st set_update_subset_insert [of "rs_threads s" i ph] unfolding rot_inv_def by blast
  moreover have "r + sum_list (map (rot_weight tz lg k) ((rs_threads s)[i := ph])) = of_bool (interval_of tz lg (realRotate lg') = k)"
    using inv sum sum_list_map_update [OF i, of "rot_weight tz lg k" ph] by (simp add: rot_inv_def)
  moreover have "interval_of tz lg (realRotate lg') = k \<longrightarrow> interval_of tz lg (lastRotate lg') = k"
    using real st(2) inv unfolding rot_inv_def by blast
  ultimately show ?thesis using inv assms by (simp add: rot_inv_def)
qed

lemma rot_inv_step:
  assumes "rot_step tz clk s s'" and clk: "\<forall>t \<in> clk. interval_of tz lg t = k" and inv: "rot_inv tz clk lg k s"
  shows "rot_inv tz clk lg k s'"
  using assms(1)
proof cases
  case (rot_pass i now)
  show ?thesis
    by (rule rot_inv_update [OF inv rot_pass(2), where lg' = "rs_logger s" and ph = "Passed now" and r = "rs_rotations s"])
      (use rot_pass assigned_step [OF inv rot_pass(2)] in \<open>simp_all add: rot_weight_def\<close>)
next
  case (rot_assign i now)
  have now: "now \<in> clk" "interval_of tz lg now = k" using rot_inv_thread(1) [OF inv rot_assign(2)] rot_assign(3) clk by auto
  have "\<exists>t. Assigned t \<in> set ((rs_threads s)[i := Assigned now])" using rot_assign(2) set_update_memI by fast
  then show ?thesis
    by (intro rot_inv_update [OF inv rot_assign(2), where lg' = "set_last now (rs_logger s)" and ph = "Assigned now" and r = "rs_rotations s"])
      (use rot_assign now in \<open>simp_all add: rot_weight_def set_last_def\<close>)
next
  case (rot_exchange i now old lg')
  have x: "old = realRotate (rs_logger s)" "lg' = rs_logger s\<lparr>realRotate := now\<rparr>"
    using rot_exchange(4) by (simp_all add: exchange_real_def)
  have now: "interval_of tz lg now = k" using rot_inv_thread(1) [OF inv rot_exchange(2)] rot_exchange(3) clk by auto
  have l: "interval_of tz lg (lastRotate (rs_logger s)) = k" using rot_inv_thread(2) [OF inv rot_exchange(2)] rot_exchange(3) by simp
  show ?thesis
    by (rule rot_inv_update [OF inv rot_exchange(2), where lg' = lg' and ph = "Got old now" and r = "rs_rotations s"])
      (use rot_exchange(1-3) x now l in \<open>simp_all add: rot_weight_def\<close>)
next
  case (rot_elect i old now)
  have l: "interval_of tz lg (lastRotate (rs_logger s)) = k" using rot_inv_thread(2) [OF inv rot_elect(2)] rot_elect(3) by simp
  have m: "rotate_mine tz old (rs_logger s) \<longleftrightarrow> interval_of tz lg old \<noteq> k"
    using l inv interval_of_cong [of "rs_logger s" lg] by (simp add: rotate_mine_def rot_inv_def)
  let ?ph = "if rotate_mine tz old (rs_logger s) then Rotating now else Outside"
  show ?thesis
    by (rule rot_inv_update [OF inv rot_elect(2), where lg' = "rs_logger s" and ph = ?ph and r = "rs_rotations s"])
      (use rot_elect l m assigned_step [OF inv rot_elect(2), of ?ph] in \<open>simp_all add: rot_weight_def\<close>)
next
  case (rot_done i now)
  show ?thesis
    by (rule rot_inv_update [OF inv rot_done(2), where lg' = "rs_logger s" and ph = Outside and r = "rs_rotations s + 1"])
      (use rot_done assigned_step [OF inv rot_done(2)] in \<open>simp_all add: rot_weight_def\<close>)
qed

lemma rot_inv_start:
  assumes "interval_of tz lg (lastRotate lg) \<noteq> k" "interval_of tz lg (realRotate lg) \<noteq> k"
  shows "rot_inv tz clk lg k (rot_start lg n)"
  using assms by (auto simp: rot_inv_def rot_start_def rot_weight_def sum_list_replicate map_replicate)

lemma rot_inv_reach:
  assumes "(rot_step tz clk)\<^sup>*\<^sup>* s s'" "\<forall>t \<in> clk. interval_of tz lg t = k" "rot_inv tz clk lg k s"
  shows "rot_inv tz clk lg k s'"
  using assms(1) by induction (use assms rot_inv_step in blast)+

text \<open>C21. Any number of threads log at once and may be interrupted between the test of the last
  rotation, its assignment, the exchange and the election. If the clock readings all lie in one new
  interval, at most one thread ever renames the file, and once the threads that saw the new interval are
  through, exactly one has.\<close>

theorem one_thread_rotates:
  assumes "(rot_step tz clk)\<^sup>*\<^sup>* (rot_start lg n) s"
    and "\<forall>t \<in> clk. interval_of tz lg t = k"
    and "interval_of tz lg (lastRotate lg) \<noteq> k" "interval_of tz lg (realRotate lg) \<noteq> k"
  shows "rs_rotations s + length (filter (\<lambda>ph. \<exists>now. ph = Rotating now) (rs_threads s)) \<le> 1 \<and>
    (set (rs_threads s) \<subseteq> {Outside} \<longrightarrow> rs_rotations s = of_bool (interval_of tz lg (lastRotate (rs_logger s)) = k))"
proof -
  have inv: "rot_inv tz clk lg k s" using rot_inv_reach [OF assms(1,2) rot_inv_start [OF assms(3,4)]] .
  have "length (filter (\<lambda>ph. \<exists>now. ph = Rotating now) phs) \<le> sum_list (map (rot_weight tz lg k) phs)" for phs
    by (induction phs) (auto simp: rot_weight_def split: rot_phase.splits)
  from this [of "rs_threads s"] have le: "rs_rotations s + length (filter (\<lambda>ph. \<exists>now. ph = Rotating now) (rs_threads s)) \<le> 1"
    using inv of_bool_less_eq_one [where 'a = nat, of "interval_of tz lg (realRotate (rs_logger s)) = k"]
    unfolding rot_inv_def by linarith
  have "rs_rotations s = of_bool (interval_of tz lg (lastRotate (rs_logger s)) = k)" if q: "set (rs_threads s) \<subseteq> {Outside}"
  proof -
    have "sum_list (map (rot_weight tz lg k) (rs_threads s)) = 0" using q by (auto simp: rot_weight_def)
    moreover have "rs_rotations s + sum_list (map (rot_weight tz lg k) (rs_threads s)) =
        of_bool (interval_of tz lg (realRotate (rs_logger s)) = k)"
      using inv unfolding rot_inv_def by blast
    moreover have "interval_of tz lg (realRotate (rs_logger s)) = k \<longleftrightarrow> interval_of tz lg (lastRotate (rs_logger s)) = k"
      using inv q unfolding rot_inv_def by blast
    ultimately show ?thesis by (simp only: add_0_right)
  qed
  with le show ?thesis by blast
qed

definition rot_demo :: rot_sys where
  "rot_demo = rot_start \<lparr>lg_file = Some 0, lg_level = 4, lastRotate = 5, realRotate = 5, rotateInterval = 60, filename = ''log''\<rparr> 2"

lemma rot_demo_run: "\<exists>s. (rot_step 0 {100, 101})\<^sup>*\<^sup>* rot_demo s \<and> rs_threads s = [Got 101 100, Rotating 101]"
proof -
  let ?lg = "\<lparr>lg_file = Some 0, lg_level = 4, lastRotate = 5, realRotate = 5, rotateInterval = 60, filename = ''log''\<rparr>"
  let ?s = "\<lambda>l r ts. \<lparr>rs_logger = ?lg\<lparr>lastRotate := l, realRotate := r\<rparr>, rs_threads = ts, rs_rotations = 0\<rparr>"
  note step = converse_rtranclp_into_rtranclp [where r = "rot_step 0 {100, 101}"]
  note d = rotate_due_def rotate_mine_def interval_of_def set_last_def exchange_real_def signed_divide_int_def
  have s0: "rot_demo = ?s 5 5 [Outside, Outside]" by (simp add: rot_demo_def rot_start_def numeral_2_eq_2)
  have s1: "rot_step 0 {100, 101} (?s 5 5 [Outside, Outside]) (?s 5 5 [Passed 100, Outside])"
    using rot_pass [of 0 "?s 5 5 [Outside, Outside]" 100 "{100, 101}" 0] by (simp add: d)
  have s2: "rot_step 0 {100, 101} (?s 5 5 [Passed 100, Outside]) (?s 5 5 [Passed 100, Passed 101])"
    using rot_pass [of 1 "?s 5 5 [Passed 100, Outside]" 101 "{100, 101}" 0] by (simp add: d)
  have s3: "rot_step 0 {100, 101} (?s 5 5 [Passed 100, Passed 101]) (?s 100 5 [Assigned 100, Passed 101])"
    using rot_assign [of 0 "?s 5 5 [Passed 100, Passed 101]" 100 0 "{100, 101}"] by (simp add: d)
  have s4: "rot_step 0 {100, 101} (?s 100 5 [Assigned 100, Passed 101]) (?s 101 5 [Assigned 100, Assigned 101])"
    using rot_assign [of 1 "?s 100 5 [Assigned 100, Passed 101]" 101 0 "{100, 101}"] by (simp add: d)
  have s5: "rot_step 0 {100, 101} (?s 101 5 [Assigned 100, Assigned 101]) (?s 101 101 [Assigned 100, Got 5 101])"
    using rot_exchange [of 1 "?s 101 5 [Assigned 100, Assigned 101]" 101 5 _ 0 "{100, 101}"] by (simp add: d)
  have s6: "rot_step 0 {100, 101} (?s 101 101 [Assigned 100, Got 5 101]) (?s 101 100 [Got 101 100, Got 5 101])"
    using rot_exchange [of 0 "?s 101 101 [Assigned 100, Got 5 101]" 100 101 _ 0 "{100, 101}"] by (simp add: d)
  have s7: "rot_step 0 {100, 101} (?s 101 100 [Got 101 100, Got 5 101]) (?s 101 100 [Got 101 100, Rotating 101])"
    using rot_elect [of 1 "?s 101 100 [Got 101 100, Got 5 101]" 5 101 0 "{100, 101}"] by (simp add: d)
  have "(rot_step 0 {100, 101})\<^sup>*\<^sup>* rot_demo (?s 101 100 [Got 101 100, Rotating 101])"
    unfolding s0 using step [OF s1 step [OF s2 step [OF s3 step [OF s4 step [OF s5 step [OF s6 step [OF s7 rtranclp.rtrancl_refl]]]]]]] .
  then show ?thesis by (intro exI conjI, assumption) simp
qed

theorem one_thread_rotates_witness:
  "\<exists>s. (rot_step 0 {100, 101})\<^sup>*\<^sup>* rot_demo s \<and> rs_threads s = [Got 101 100, Rotating 101] \<and> rs_rotations s = 0"
proof -
  obtain s where s: "(rot_step 0 {100, 101})\<^sup>*\<^sup>* rot_demo s" "rs_threads s = [Got 101 100, Rotating 101]"
    using rot_demo_run by blast
  have "rs_rotations s + length (filter (\<lambda>ph. \<exists>now. ph = Rotating now) (rs_threads s)) \<le> 1"
    using one_thread_rotates [OF s(1) [unfolded rot_demo_def], of 1] by (simp add: interval_of_def signed_divide_int_def)
  then have "rs_rotations s = 0" by (simp add: s(2))
  with s show ?thesis by blast
qed

text \<open>A file is open under its name, and no other name leads to it.\<close>

definition log_open :: "logger \<Rightarrow> dir \<Rightarrow> bool" where
  "log_open lg d \<longleftrightarrow> mok (names d) \<and> filename lg \<noteq> [] \<and> lastRotate lg = realRotate lg \<and>
     (\<exists>i. lg_file lg = Some i \<and> map_of (names d) (filename lg) = Some i \<and>
       (\<forall>n j. map_of (names d) n = Some j \<longrightarrow> j < length (inodes d) \<and> (n \<noteq> filename lg \<longrightarrow> j \<noteq> i)))"

definition file_of :: "dir \<Rightarrow> string \<Rightarrow> string option" where
  "file_of d n = map_option ((!) (inodes d)) (map_of (names d) n)"

lemma rotate_files_keeps:
  assumes "log_open lg d" "map_of (names d) (rotated_name (filename lg) t) = None"
    and r: "rotate_files True True t (lg, d) = (lg', d')"
  shows "log_open lg' d' \<and> filename lg' = filename lg \<and> lastRotate lg' = lastRotate lg \<and>
    file_of d' = (file_of d)(rotated_name (filename lg) t := file_of d (filename lg), filename lg := Some [])"
proof -
  let ?n = "rotated_name (filename lg) t"
  obtain i where i: "lg_file lg = Some i" "map_of (names d) (filename lg) = Some i"
      and lt: "\<And>n j. map_of (names d) n = Some j \<Longrightarrow> j < length (inodes d)" and ok: "mok (names d)"
    using assms(1) unfolding log_open_def by blast
  have ne: "filename lg \<noteq> ?n" using i(2) assms(2) by auto
  have d': "lg' = lg\<lparr>lg_file := Some (length (inodes d))\<rparr>"
    "d' = d\<lparr>names := mput (filename lg) (length (inodes d)) (mput ?n i (mdel (filename lg) (names d))), inodes := inodes d @ [[]]\<rparr>"
    using r i ok ne by (auto simp: rotate_files_def dir_rename_def dir_open_def split: if_splits)
  have nm: "map_of (names d') = (map_of (names d))(?n \<mapsto> i, filename lg \<mapsto> length (inodes d))"
    using ok by (auto simp: d' fun_eq_iff)
  have len: "length (inodes d') = Suc (length (inodes d))" by (simp add: d'(2))
  have nodes: "inodes d' ! j = (if j < length (inodes d) then inodes d ! j else [])" if "j \<le> length (inodes d)" for j
    using that by (simp add: d'(2) nth_append)
  have "file_of d' m = ((file_of d)(?n := file_of d (filename lg), filename lg := Some [])) m" for m
  proof -
    consider "m = filename lg" | "m = ?n" | "m \<noteq> filename lg" "m \<noteq> ?n" by blast
    then show ?thesis
    proof cases
      case 3
      then show ?thesis using lt [of m] by (cases "map_of (names d) m") (simp_all add: file_of_def nm nodes)
    qed (use i ne lt [OF i(2)] in \<open>simp_all add: file_of_def nm nodes\<close>)
  qed
  then have "file_of d' = (file_of d)(?n := file_of d (filename lg), filename lg := Some [])" by (rule ext)
  moreover have "log_open lg' d'"
  proof -
    have "j < length (inodes d') \<and> (m \<noteq> filename lg \<longrightarrow> j \<noteq> length (inodes d))" if "map_of (names d') m = Some j" for m j
      using that lt [of m j] lt [OF i(2)] by (auto simp: nm len split: if_splits)
    moreover have "mok (names d')" using ok by (simp add: d')
    ultimately show ?thesis using assms(1) nm unfolding log_open_def by (simp add: d'(1) nm)
  qed
  ultimately show ?thesis by (simp add: d')
qed

lemma log_write_appends:
  assumes "log_open (ls_logger s) (ls_dir s)" "wrote = int (length ln)" "s' = log_write wrote ln s"
  shows "ls_logger s' = ls_logger s \<and> log_open (ls_logger s') (ls_dir s') \<and>
    file_of (ls_dir s') = (file_of (ls_dir s))(filename (ls_logger s) :=
      map_option (\<lambda>c. c @ ln) (file_of (ls_dir s) (filename (ls_logger s))))"
proof -
  obtain i where i: "lg_file (ls_logger s) = Some i" "map_of (names (ls_dir s)) (filename (ls_logger s)) = Some i"
    and j: "\<And>n j. map_of (names (ls_dir s)) n = Some j \<Longrightarrow> j < length (inodes (ls_dir s)) \<and> (n \<noteq> filename (ls_logger s) \<longrightarrow> j \<noteq> i)"
    using assms(1) unfolding log_open_def by blast
  have s': "s' = s\<lparr>ls_dir := dir_write i ln (ls_dir s)\<rparr>" using assms(2,3) i by (simp add: log_write_def)
  have "file_of (ls_dir s') n = ((file_of (ls_dir s))(filename (ls_logger s) :=
      map_option (\<lambda>c. c @ ln) (file_of (ls_dir s) (filename (ls_logger s))))) n" for n
    using i j [of n] by (cases "map_of (names (ls_dir s)) n") (auto simp: file_of_def s' dir_write_def)
  moreover have "log_open (ls_logger s') (ls_dir s')" using assms(1) by (simp add: s' dir_write_def log_open_def)
  ultimately show ?thesis by (simp add: s' fun_eq_iff)
qed

text \<open>C22. With the log file open and the system calls succeeding, a logged line is appended to the
  file of the configured name; when a new interval has begun, the earlier lines are first moved, all of
  them, to the file named after the minute, provided that name is not taken, and the line opens the new
  file. No other file changes, and the logger is ready for the next line.\<close>

theorem log_lines_kept:
  assumes s: "log_open (ls_logger s) (ls_dir s)" "rotateInterval (ls_logger s) \<noteq> 0"
    and l: "LFATAL < level" "level \<le> lg_level (ls_logger s)"
    and E: "le_rename E" "le_open E" "map_of (names (ls_dir s)) (rotated_name (filename (ls_logger s)) (le_localtime E (le_now E))) = None"
    and h: "hdr = log_header (le_localtime E (le_now E)) (le_usec E) tid level file line" "length hdr \<le> LOG_BUF - 2"
    and w: "wrote = int (length (cut_line (hdr @ msg)))"
    and d: "due \<longleftrightarrow> interval_of (le_tz E) (ls_logger s) (le_now E) \<noteq> interval_of (le_tz E) (ls_logger s) (lastRotate (ls_logger s))"
  shows "\<exists>s'. logv E ndebug wrote tid level file line msg s = Inr s' \<and> log_open (ls_logger s') (ls_dir s') \<and>
    file_of (ls_dir s') = (let n = filename (ls_logger s); f = file_of (ls_dir s) in
      if due then f(rotated_name n (le_localtime E (le_now E)) := f n, n := Some (cut_line (hdr @ msg)))
      else f(n := map_option (\<lambda>c. c @ cut_line (hdr @ msg)) (f n)))"
proof -
  let ?lg = "ls_logger s" and ?n = "filename (ls_logger s)" and ?t = "le_localtime E (le_now E)"
  have ln: "log_line hdr msg = Inr (cut_line (hdr @ msg))"
    using log_line_cut [of hdr msg] log_header_last [of ?t "le_usec E" tid level "file" line] h by (simp add: LF_def)
  have n: "?n \<noteq> []" "lastRotate ?lg = realRotate ?lg" using s(1) by (auto simp: log_open_def)
  obtain lg d1 where r: "maybeRotate E (?lg, ls_dir s) = Inr (lg, d1)" "log_open lg d1" "filename lg = ?n"
    "file_of d1 = (if due then (file_of (ls_dir s))(rotated_name ?n ?t := file_of (ls_dir s) ?n, ?n := Some []) else file_of (ls_dir s))"
  proof (cases due)
    case True
    let ?lg1 = "?lg\<lparr>lastRotate := le_now E, realRotate := le_now E\<rparr>"
    have "maybeRotate E (?lg, ls_dir s) = Inr (rotate_files True True ?t (?lg1, ls_dir s))"
      using True n s(2) d E(1,2)
      by (simp add: maybeRotate_def rotate_due_def rotate_mine_def interval_of_def set_last_def exchange_real_def)
    moreover have "log_open ?lg1 (ls_dir s)" using s(1) by (simp add: log_open_def)
    from rotate_files_keeps [OF this, of ?t "fst (rotate_files True True ?t (?lg1, ls_dir s))" "snd (rotate_files True True ?t (?lg1, ls_dir s))"] E(3)
    have "log_open (fst (rotate_files True True ?t (?lg1, ls_dir s))) (snd (rotate_files True True ?t (?lg1, ls_dir s))) \<and>
       filename (fst (rotate_files True True ?t (?lg1, ls_dir s))) = ?n \<and>
       file_of (snd (rotate_files True True ?t (?lg1, ls_dir s))) = (file_of (ls_dir s))(rotated_name ?n ?t := file_of (ls_dir s) ?n, ?n := Some [])"
      by simp
    ultimately show ?thesis using that True by (metis prod.collapse)
  next
    case False
    then show ?thesis using that [of ?lg "ls_dir s"] n s d by (simp add: maybeRotate_def rotate_due_def)
  qed
  define s1 where "s1 = log_write wrote (cut_line (hdr @ msg)) (s\<lparr>ls_logger := lg, ls_dir := d1\<rparr>)"
  have "ls_logger s1 = lg \<and> log_open (ls_logger s1) (ls_dir s1) \<and>
      file_of (ls_dir s1) = (file_of d1)(?n := map_option (\<lambda>c. c @ cut_line (hdr @ msg)) (file_of d1 ?n))"
    using log_write_appends [OF _ w s1_def] r(2,3) by auto
  then have s1: "ls_logger s1 = lg" "log_open (ls_logger s1) (ls_dir s1)"
      "file_of (ls_dir s1) = (file_of d1)(?n := map_option (\<lambda>c. c @ cut_line (hdr @ msg)) (file_of d1 ?n))"
    by blast+
  have "\<exists>s'. logv E ndebug wrote tid level file line msg s = Inr s' \<and> ls_logger s' = lg \<and> ls_dir s' = ls_dir s1"
    using l r(1) ln w s1(1) by (simp add: logv_def h(1) [symmetric] Let_def LFATAL_def LERROR_def s1_def)
  then show ?thesis using s1 r(4) by (auto simp: Let_def)
qed

theorem log_lines_kept_witness:
  defines "t \<equiv> \<lparr>tm_year = 124, tm_mon = 0, tm_mday = 9, tm_hour = 8, tm_min = 7, tm_sec = 6\<rparr>"
  defines "E \<equiv> \<lparr>le_now = 100, le_tz = 0, le_localtime = (\<lambda>_. t), le_rename = True, le_open = True, le_usec = 5, le_strerror = []\<rparr>"
  defines "s \<equiv> \<lparr>ls_logger = \<lparr>lg_file = Some 0, lg_level = 4, lastRotate = 5, realRotate = 5, rotateInterval = 60, filename = ''l''\<rparr>,
     ls_dir = \<lparr>names = [(''l'', 0)], inodes = [''old'']\<rparr>, ls_stdout = [], ls_syslog = [], ls_stderr = []\<rparr>"
  shows "\<exists>s'. logv E False 46 255 4 ''a.cc'' 12 ''hi'' s = Inr s' \<and> file_of (ls_dir s') ''l.202401090807'' = Some ''old''"
proof -
  let ?h = "log_header (le_localtime E (le_now E)) (le_usec E) 255 4 ''a.cc'' 12"
  have h: "length ?h \<le> LOG_BUF - 2" "length (cut_line (?h @ ''hi'')) = 46"
    unfolding t_def E_def by code_simp+
  have rn: "rotated_name (filename (ls_logger s)) (le_localtime E (le_now E)) = ''l.202401090807''" unfolding s_def t_def E_def by code_simp
  have o: "log_open (ls_logger s) (ls_dir s)" by (simp add: log_open_def s_def mok_def)
  have c: "rotateInterval (ls_logger s) \<noteq> 0" "LFATAL < 4" "4 \<le> lg_level (ls_logger s)" "le_rename E" "le_open E"
    "map_of (names (ls_dir s)) (rotated_name (filename (ls_logger s)) (le_localtime E (le_now E))) = None"
    unfolding rn by (simp_all add: s_def E_def LFATAL_def)
  have due: "True \<longleftrightarrow> interval_of (le_tz E) (ls_logger s) (le_now E) \<noteq> interval_of (le_tz E) (ls_logger s) (lastRotate (ls_logger s))"
    by (simp add: s_def E_def interval_of_def signed_divide_int_def)
  have fn: "filename (ls_logger s) = ''l''" by (simp add: s_def)
  have w: "46 = int (length (cut_line (?h @ ''hi'')))" using h(2) by simp
  obtain s' where "logv E False 46 255 4 ''a.cc'' 12 ''hi'' s = Inr s'"
      "file_of (ls_dir s') = (file_of (ls_dir s))(''l.202401090807'' := file_of (ls_dir s) ''l'', ''l'' := Some (cut_line (?h @ ''hi'')))"
    using log_lines_kept [OF o c refl h(1) w due, of False] unfolding rn Let_def if_True unfolding fn by blast
  moreover have "file_of (ls_dir s) ''l'' = Some ''old''" by (simp add: file_of_def s_def)
  ultimately show ?thesis by simp
qed

text \<open>A rotated name that is taken, for instance by a rotation in the same minute, is overwritten: the lines
  moved there before are under no name any more.\<close>

theorem rotation_overwrites:
  assumes "log_open lg d" "rotated_name (filename lg) t \<noteq> filename lg"
    and "map_of (names d) (rotated_name (filename lg) t) = Some j" "rotate_files True True t (lg, d) = (lg', d')"
    and "\<And>n. map_of (names d) n = Some j \<Longrightarrow> n = rotated_name (filename lg) t"
  shows "j \<notin> ran (map_of (names d'))"
proof -
  obtain i where i: "map_of (names d) (filename lg) = Some i" "mok (names d)" "j < length (inodes d)" "j \<noteq> i"
    using assms(1-3) unfolding log_open_def by blast
  then have "map_of (names d') = (map_of (names d))(rotated_name (filename lg) t \<mapsto> i, filename lg \<mapsto> length (inodes d))"
    using assms(2,4) by (auto simp: rotate_files_def dir_rename_def dir_open_def fun_eq_iff split: if_splits)
  then show ?thesis using i(3,4) assms(5) by (auto simp: ran_def)
qed

text \<open>An interval of 0 makes the next line divide by zero.\<close>

theorem zero_interval_divides:
  assumes "filename (ls_logger s) \<noteq> []" "level \<le> lg_level (ls_logger s)"
  shows "logv E ndebug wrote tid level file line msg (s\<lparr>ls_logger := setRotateInterval 0 (ls_logger s)\<rparr>) = Inl DivZero"
  using assms by (simp add: logv_def maybeRotate_def setRotateInterval_def)

section \<open>The macros\<close>

text \<open>\<open>hlog\<close>, \<open>fatalif\<close> (\<open>fatal\<close> and \<open>check\<close> are alike) and \<open>exitif\<close> of \<open>logging.h\<close>; \<open>exitif\<close> answers the exit code when the process
  ends there.\<close>

definition hlog :: "log_env \<Rightarrow> bool \<Rightarrow> int \<Rightarrow> nat \<Rightarrow> int \<Rightarrow> string \<Rightarrow> int \<Rightarrow> string \<Rightarrow> log_state \<Rightarrow> log_state res" where
  "hlog E ndebug wrote tid level file line msg s =
     (if level \<le> lg_level (ls_logger s) then logv E ndebug wrote tid level file line msg s else Inr s)"

definition fatalif :: "bool \<Rightarrow> log_env \<Rightarrow> bool \<Rightarrow> int \<Rightarrow> nat \<Rightarrow> string \<Rightarrow> int \<Rightarrow> string \<Rightarrow> log_state \<Rightarrow> log_state res" where
  "fatalif b E ndebug wrote tid file line msg s = (if b then hlog E ndebug wrote tid LFATAL file line msg s else Inr s)"

definition exitif ::
  "bool \<Rightarrow> log_env \<Rightarrow> bool \<Rightarrow> int \<Rightarrow> nat \<Rightarrow> string \<Rightarrow> int \<Rightarrow> string \<Rightarrow> log_state \<Rightarrow> (int option \<times> log_state) res" where
  "exitif b E ndebug wrote tid file line msg s =
     (if b then rbind (hlog E ndebug wrote tid LERROR file line msg s) (\<lambda>s'. Inr (Some 1, s')) else Inr (None, s))"

text \<open>The test of the macro repeats the one of \<open>logv\<close>.\<close>

lemma hlog_is_logv: "hlog = logv"
  by (simp add: fun_eq_iff hlog_def logv_def)

text \<open>In a debug build no statement behind a violated \<open>fatalif\<close> is reached, whatever the level; in a release build it is, with the line
  written to the log and to standard error.\<close>

theorem fatalif_stops:
  assumes "level_ok (ls_logger s)" "b"
  shows "fatalif b E False wrote tid file line msg s \<noteq> Inr s'"
  using assms by (auto simp: fatalif_def hlog_is_logv logv_def level_ok_def LFATAL_def Let_def split: if_splits)

theorem fatalif_release_goes_on:
  assumes "level_ok (ls_logger s)" "maybeRotate E (ls_logger s, ls_dir s) = Inr (lg, d)"
    and "log_line (log_header (le_localtime E (le_now E)) (le_usec E) tid LFATAL file line) msg = Inr ln"
  shows "\<exists>s'. fatalif True E True wrote tid file line msg s = Inr s' \<and> (\<exists>before. ls_stderr s' = before @ ln)"
  using assms by (auto simp: fatalif_def hlog_is_logv logv_def level_ok_def LFATAL_def Let_def)

end
