(* ===== verification/Files.thy ===== *)
theory Files
  imports Port
begin

text \<open>
  \<open>Status\<close> (\<open>status.h\<close>) and the file helpers (\<open>file.h\<close>, \<open>file.cc\<close>) over a file system that maps names to
  contents. The outcome of each system call is an argument (0 or an \<open>errno\<close>, and how much was read or
  written); \<open>strerror\<close> is a parameter. \<open>errno\<close> values are non-zero.
\<close>

section \<open>\<open>Status\<close>\<close>

text \<open>\<open>state_\<close>: \<open>NULL\<close>, or a block of size, code and message.\<close>

type_synonym status = "string option"

definition status_ok0 :: status where "status_ok0 = None"

text \<open>\<open>Status(int code, const char* msg)\<close>; \<open>msg\<close> is the text before the NUL.\<close>

definition status_new :: "32 word \<Rightarrow> string \<Rightarrow> status" where
  "status_new code msg = Some (mem32 (of_nat (length msg + 8)) @ mem32 code @ msg)"

text \<open>\<open>fromFormat\<close> with the formatted text; \<open>vsnprintf\<close> writes the closing NUL.\<close>

definition status_fromFormat :: "32 word \<Rightarrow> string \<Rightarrow> status" where
  "status_fromFormat code txt = Some (mem32 (of_nat (8 + length txt + 1)) @ mem32 code @ txt @ [CHR 0x00])"

definition ioError :: "(32 word \<Rightarrow> string) \<Rightarrow> 32 word \<Rightarrow> string \<Rightarrow> string \<Rightarrow> status" where
  "ioError strerror errno opn name = status_fromFormat errno (opn @ '' '' @ name @ '' '' @ strerror errno)"

definition status_code :: "status \<Rightarrow> 32 word" where
  "status_code s = (case s of None \<Rightarrow> 0 | Some b \<Rightarrow> load32 (drop 4 b))"

definition status_ok :: "status \<Rightarrow> bool" where
  "status_ok s \<longleftrightarrow> status_code s = 0"

text \<open>The C string at \<open>p\<close>: it ends at a NUL inside the block.\<close>

definition c_string :: "string \<Rightarrow> string res" where
  "c_string p = (if CHR 0x00 \<in> set p then Inr (takeWhile (\<lambda>c. c \<noteq> CHR 0x00) p) else Inl OutOfBounds)"

definition status_msg :: "status \<Rightarrow> string res" where
  "status_msg s = (case s of None \<Rightarrow> Inr [] | Some b \<Rightarrow> c_string (drop 8 b))"

definition status_toString :: "status \<Rightarrow> string res" where
  "status_toString s = rbind (status_msg s) (\<lambda>t. Inr (int_string (sint (status_code s)) @ '' '' @ t))"

text \<open>\<open>copyState\<close> copies as many bytes as the block says.\<close>

definition copyState :: "status \<Rightarrow> status res" where
  "copyState s =
     (case s of None \<Rightarrow> Inr None
      | Some b \<Rightarrow> if unat (load32 b) \<le> length b then Inr (Some (take (unat (load32 b)) b)) else Inl OutOfBounds)"

section \<open>Files\<close>

type_synonym fs = "string \<Rightarrow> string option"

text \<open>The results of the \<open>read\<close> calls until end of file; each returns at most 4096 bytes.\<close>

datatype file_read = FRead string | FErr "32 word"

fun read_chunks :: "(32 word \<Rightarrow> string) \<Rightarrow> string \<Rightarrow> file_read list \<Rightarrow> string \<Rightarrow> status \<times> string" where
  "read_chunks strerror filename [] cont = (status_ok0, cont)"
| "read_chunks strerror filename (FErr e # rs) cont = (ioError strerror e ''read'' filename, cont)"
| "read_chunks strerror filename (FRead d # rs) cont =
     (if d = [] then (status_ok0, cont) else read_chunks strerror filename rs (cont @ d))"

definition getContent :: "(32 word \<Rightarrow> string) \<Rightarrow> 32 word \<Rightarrow> file_read list \<Rightarrow> string \<Rightarrow> string \<Rightarrow> status \<times> string" where
  "getContent strerror open_errno rs filename cont =
     (if open_errno \<noteq> 0 then (ioError strerror open_errno ''open'' filename, cont)
      else read_chunks strerror filename rs cont)"

text \<open>\<open>write\<close> takes the first \<open>n\<close> bytes, or fails; the file was truncated when it was opened.\<close>

datatype file_write = FWrote nat | FWErr "32 word"

definition writeContent :: "(32 word \<Rightarrow> string) \<Rightarrow> 32 word \<Rightarrow> file_write \<Rightarrow> string \<Rightarrow> string \<Rightarrow> fs \<Rightarrow> status \<times> fs" where
  "writeContent strerror open_errno w filename cont f =
     (if open_errno \<noteq> 0 then (ioError strerror open_errno ''open'' filename, f)
      else case w of
        FWErr e \<Rightarrow> (ioError strerror e ''write'' filename, f(filename \<mapsto> []))
      | FWrote n \<Rightarrow> (status_ok0, f(filename \<mapsto> take n cont)))"

definition unlink :: "32 word \<Rightarrow> string \<Rightarrow> fs \<Rightarrow> fs" where
  "unlink e name f = (if e \<noteq> 0 then f else f(name := None))"

definition deleteFile :: "(32 word \<Rightarrow> string) \<Rightarrow> 32 word \<Rightarrow> string \<Rightarrow> fs \<Rightarrow> status \<times> fs" where
  "deleteFile strerror e fname f =
     (if e \<noteq> 0 then (ioError strerror e ''unlink'' fname, f) else (status_ok0, unlink e fname f))"

definition renameFile :: "(32 word \<Rightarrow> string) \<Rightarrow> 32 word \<Rightarrow> string \<Rightarrow> string \<Rightarrow> fs \<Rightarrow> status \<times> fs" where
  "renameFile strerror e src target f =
     (if e \<noteq> 0 then (ioError strerror e ''rename'' (src @ '' '' @ target), f)
      else (status_ok0, (f(target := f src))(src := (if src = target then f src else None))))"

definition renameSave :: "(32 word \<Rightarrow> string) \<Rightarrow> 32 word \<Rightarrow> file_write \<Rightarrow> 32 word \<Rightarrow> 32 word \<Rightarrow>
    string \<Rightarrow> string \<Rightarrow> string \<Rightarrow> fs \<Rightarrow> status \<times> fs" where
  "renameSave strerror e_open w e_unlink e_rename name tmpName cont f =
     (let (s, f1) = writeContent strerror e_open w tmpName cont f in
      if status_ok s then renameFile strerror e_rename tmpName name (unlink e_unlink name f1) else (s, f1))"

definition getFileSize :: "(32 word \<Rightarrow> string) \<Rightarrow> 32 word \<Rightarrow> string \<Rightarrow> fs \<Rightarrow> status \<times> nat" where
  "getFileSize strerror e fname f =
     (if e \<noteq> 0 then (ioError strerror e ''stat'' fname, 0)
      else (status_ok0, case f fname of None \<Rightarrow> 0 | Some c \<Rightarrow> length c))"

text \<open>The directory operations: \<open>readdir\<close> gives the entries, \<open>.\<close> and \<open>..\<close> included; directories are a set of names.\<close>

definition getChildren :: "(32 word \<Rightarrow> string) \<Rightarrow> 32 word \<Rightarrow> string list \<Rightarrow> string \<Rightarrow> status \<times> string list" where
  "getChildren strerror e entries dir =
     (if e \<noteq> 0 then (ioError strerror e ''opendir'' dir, []) else (status_ok0, entries))"

definition createDir :: "(32 word \<Rightarrow> string) \<Rightarrow> 32 word \<Rightarrow> string \<Rightarrow> string set \<Rightarrow> status \<times> string set" where
  "createDir strerror e name ds = (if e \<noteq> 0 then (ioError strerror e ''mkdir'' name, ds) else (status_ok0, insert name ds))"

definition deleteDir :: "(32 word \<Rightarrow> string) \<Rightarrow> 32 word \<Rightarrow> string \<Rightarrow> string set \<Rightarrow> status \<times> string set" where
  "deleteDir strerror e name ds = (if e \<noteq> 0 then (ioError strerror e ''rmdir'' name, ds) else (status_ok0, ds - {name}))"

definition fileExists :: "string \<Rightarrow> fs \<Rightarrow> bool" where
  "fileExists fname f \<longleftrightarrow> f fname \<noteq> None"

section \<open>Properties\<close>

lemma c_string_NUL: "CHR 0x00 \<notin> set t \<Longrightarrow> c_string (t @ [CHR 0x00]) = Inr t"
proof -
  assume "CHR 0x00 \<notin> set t"
  then have "\<forall>c \<in> set t. c \<noteq> CHR 0x00" by blast
  then show ?thesis by (simp add: c_string_def takeWhile_tail)
qed

lemma status_codes [simp]: "status_code (status_fromFormat c t) = c" "status_code (ioError se e opn name) = e" "status_code status_ok0 = 0"
  by (simp_all add: status_code_def status_fromFormat_def ioError_def status_ok0_def)

text \<open>A \<open>Status\<close> made by \<open>fromFormat\<close> gives back its code and text, also after a copy; one made from a code and
  a text has no NUL behind the text, so \<open>msg()\<close> and \<open>toString()\<close> read past the block.\<close>

theorem status_text:
  assumes "CHR 0x00 \<notin> set t" "length t < 2 ^ 31"
  shows "status_code (status_fromFormat c t) = c \<and> status_msg (status_fromFormat c t) = Inr t \<and>
    copyState (status_fromFormat c t) = Inr (status_fromFormat c t) \<and>
    status_code (status_new c t) = c \<and> status_msg (status_new c t) = Inl OutOfBounds \<and> status_toString (status_new c t) = Inl OutOfBounds"
proof -
  have m: "status_msg (status_new c t) = Inl OutOfBounds" using assms(1) by (simp add: status_msg_def status_new_def c_string_def)
  have "unat (of_nat (length t + 9) :: 32 word) = length t + 9" using assms(2) by (simp only: unsigned_of_nat) (simp add: take_bit_nat_eq_self)
  moreover have "8 + length t + 1 = length t + 9" by simp
  ultimately have "unat (of_nat (8 + length t + 1) :: 32 word) = length t + 9" by (simp only:)
  then have "copyState (status_fromFormat c t) = Inr (status_fromFormat c t)"
    by (simp add: copyState_def status_fromFormat_def del: of_nat_add)
  then show ?thesis using m assms(1)
    by (simp add: status_msg_def status_fromFormat_def c_string_NUL status_toString_def) (simp add: status_code_def status_new_def)
qed

theorem status_text_witness: "status_msg (status_new 2 ''no'') = Inl OutOfBounds \<and> status_msg (status_fromFormat 2 ''no'') = Inr ''no''"
  using status_text [of "''no''" 2] by simp

text \<open>What \<open>renameSave\<close> leaves behind. When every call succeeds and \<open>write\<close> takes all of it, the
  file has the new content and the temporary file is gone. When the temporary file cannot be opened or written,
  the file keeps its old content and the status carries the error. But the file is unlinked before the
  rename: when \<open>rename\<close> fails, the old content is lost under its name; and a \<open>write\<close> that takes only a
  part is reported as success, and replaces the file by that part.\<close>

theorem save_outcomes:
  assumes "tmpName \<noteq> name" "renameSave strerror e_open w e_unlink e_rename name tmpName cont f = (s, f')"
  shows "(e_open = 0 \<and> w = FWrote (length cont) \<and> e_rename = 0 \<longrightarrow> status_ok s \<and> f' = f(tmpName := None, name \<mapsto> cont)) \<and>
    (e_open \<noteq> 0 \<longrightarrow> status_code s = e_open \<and> f' = f) \<and>
    (\<forall>e. e_open = 0 \<and> w = FWErr e \<and> e \<noteq> 0 \<longrightarrow> status_code s = e \<and> f' name = f name) \<and>
    (\<forall>n. e_open = 0 \<and> w = FWrote n \<and> e_unlink = 0 \<and> e_rename \<noteq> 0 \<longrightarrow>
       status_code s = e_rename \<and> f' name = None \<and> f' tmpName = Some (take n cont)) \<and>
    (\<forall>n. e_open = 0 \<and> w = FWrote n \<and> n < length cont \<and> e_rename = 0 \<longrightarrow> status_ok s \<and> f' name = Some (take n cont))"
proof (cases "e_open = 0")
  case False
  then show ?thesis using assms(2) by (auto simp: renameSave_def writeContent_def status_ok_def)
next
  case True
  show ?thesis
  proof (cases w)
    case (FWErr e)
    then show ?thesis using True assms by (cases "e = 0") (auto simp: renameSave_def writeContent_def status_ok_def)
  next
    case (FWrote n)
    have "renameFile strerror e_rename tmpName name (unlink e_unlink name (f(tmpName \<mapsto> take n cont))) = (s, f')"
      using True FWrote assms(2) by (simp add: renameSave_def writeContent_def status_ok_def)
    moreover have "unlink e_unlink name (f(tmpName \<mapsto> take n cont)) tmpName = Some (take n cont)"
        "e_unlink = 0 \<Longrightarrow> unlink e_unlink name (f(tmpName \<mapsto> take n cont)) name = None"
      using assms(1) by (simp_all add: unlink_def)
    ultimately have "(if e_rename = 0 then s = status_ok0 \<and> f' = f(tmpName := None, name \<mapsto> take n cont)
        else status_code s = e_rename \<and> f' tmpName = Some (take n cont) \<and> (e_unlink = 0 \<longrightarrow> f' name = None))"
      using assms(1) by (auto simp: renameFile_def unlink_def fun_upd_twist)
    then show ?thesis using True FWrote by (simp add: status_ok_def split: if_splits)
  qed
qed

theorem save_outcomes_witness:
  "snd (renameSave (\<lambda>_. ''err'') 0 (FWrote 1) 0 0 ''a'' ''a.tmp'' ''xyz'' [''a'' \<mapsto> ''old'']) ''a'' = Some ''x'' \<and>
   snd (renameSave (\<lambda>_. ''err'') 0 (FWrote 3) 0 5 ''a'' ''a.tmp'' ''xyz'' [''a'' \<mapsto> ''old'']) ''a'' = None"
proof -
  have n: "''a.tmp'' \<noteq> ''a''" by simp
  show ?thesis
    using save_outcomes [OF n prod.collapse [symmetric], where strerror = "\<lambda>_. ''err''" and e_open = 0 and w = "FWrote 1" and e_unlink = 0
        and e_rename = 0 and cont = "''xyz''" and f = "[''a'' \<mapsto> ''old'']"]
      save_outcomes [OF n prod.collapse [symmetric], where strerror = "\<lambda>_. ''err''" and e_open = 0 and w = "FWrote 3" and e_unlink = 0
        and e_rename = 5 and cont = "''xyz''" and f = "[''a'' \<mapsto> ''old'']"]
    by simp
qed

end
