(* ===== verification/Daemon.thy ===== *)
theory Daemon
  imports Files
begin

text \<open>
  \<open>Daemon\<close> and \<open>Signal\<close> (\<open>daemon.h\<close>, \<open>daemon.cc\<close>): the pid file, starting, stopping and restarting, over the
  file system of \<open>Files\<close>. The result of the \<open>n\<close>-th \<open>kill\<close> of a run is \<open>K n\<close>; the results of the other system
  calls stand in a record. A call that ends the process has the outcome \<open>Exited\<close>.
\<close>

section \<open>State\<close>

datatype kill_result = Alive | Denied | Gone    \<comment> \<open>0, \<open>EPERM\<close>, \<open>ESRCH\<close>\<close>

record dsys =
  dfiles :: fs
  killed :: "(int \<times> int) list"         \<comment> \<open>process and signal of each \<open>kill\<close> so far\<close>
  at_exit :: "string option"            \<comment> \<open>the file the static \<open>ExitCaller\<close> unlinks\<close>
  dstderr :: string

record denv =
  kills :: "nat \<Rightarrow> kill_result"
  can_read :: bool                      \<comment> \<open>\<open>open\<close> and \<open>read\<close> of an existing pid file\<close>
  stack :: string                       \<comment> \<open>what the 64 bytes of \<open>buffer\<close> hold before the \<open>read\<close>\<close>
  ppid :: int
  fork_result :: int
  self :: int                           \<comment> \<open>\<open>getpid()\<close> after the \<open>fork\<close>\<close>
  can_write :: bool
  can_lock :: bool
  pid_wrote :: int
  dev_null :: bool

datatype 'a outcome = Returned 'a | Exited int

fun obind :: "'a outcome \<times> dsys \<Rightarrow> ('a \<Rightarrow> dsys \<Rightarrow> 'b outcome \<times> dsys) \<Rightarrow> 'b outcome \<times> dsys" where
  "obind (Returned x, s) f = f x s"
| "obind (Exited n, s) f = (Exited n, s)"

definition SIGQUIT :: int where "SIGQUIT = 3"

definition say :: "string \<Rightarrow> dsys \<Rightarrow> dsys" where
  "say t s = s\<lparr>dstderr := dstderr s @ t\<rparr>"

definition kill :: "denv \<Rightarrow> int \<Rightarrow> int \<Rightarrow> dsys \<Rightarrow> kill_result \<times> dsys" where
  "kill E pid sig s = (kills E (length (killed s)), s\<lparr>killed := killed s @ [(pid, sig)]\<rparr>)"

section \<open>The pid file\<close>

text \<open>\<open>open\<close> truncates the file before the lock is tried.\<close>

definition writePidFile :: "denv \<Rightarrow> string \<Rightarrow> dsys \<Rightarrow> int \<times> dsys" where
  "writePidFile E pidfile s =
     (if \<not> can_write E then (-1, say (''Can't write Pid File: '' @ pidfile) s)
      else (let s1 = s\<lparr>dfiles := (dfiles s)(pidfile \<mapsto> [])\<rparr> in
        if \<not> can_lock E then (-1, say (''Can't write Pid File: '' @ pidfile) s1)
        else (let str = int_string (self E) @ [LF];
                  s2 = s1\<lparr>dfiles := (dfiles s1)(pidfile \<mapsto> take (nat (pid_wrote E)) str)\<rparr> in
          if pid_wrote E \<noteq> int (length str) then (-1, say (''Can't Write Pid File: '' @ pidfile) s2)
          else (0, s2))))"

definition pid_buffer :: "string \<Rightarrow> string \<Rightarrow> string" where
  "pid_buffer junk c = (take 64 c @ drop (length c) junk)[63 := CHR 0x00]"

text \<open>\<open>strchr\<close> finds a line feed before the NUL; the text before it is read.\<close>

definition getPidFromFile :: "denv \<Rightarrow> string \<Rightarrow> fs \<Rightarrow> int" where
  "getPidFromFile E pidfile f =
     (case f pidfile of None \<Rightarrow> -1
      | Some c \<Rightarrow>
          if \<not> can_read E \<or> c = [] then -1
          else atoi (takeWhile (\<lambda>x. x \<noteq> LF) (cstr (pid_buffer (stack E) c))))"

section \<open>Starting and stopping\<close>

definition daemonStart :: "denv \<Rightarrow> string \<Rightarrow> dsys \<Rightarrow> int outcome \<times> dsys" where
  "daemonStart E pidfile s =
     (let pid = getPidFromFile E pidfile (dfiles s);
          (k, s1) = (if 0 < pid then kill E pid 0 s else (Gone, s)) in
      if 0 < pid \<and> (k = Alive \<or> k = Denied) then (Returned (-1), say ''daemon exists, use restart\<newline>'' s1)
      else if ppid E = 1 then (Returned (-1), say ''already daemon, can't start\<newline>'' s1)
      else if fork_result E < 0 then (Returned (-1), say (''fork error: '' @ int_string (fork_result E) @ [LF]) s1)
      else if 0 < fork_result E then (Exited 0, s1)
      else
        (let (r, s2) = writePidFile E pidfile s1 in
         if r \<noteq> 0 then (Returned r, s2)
         else if dev_null E then (Returned 0, s2\<lparr>at_exit := (case at_exit s2 of None \<Rightarrow> Some pidfile | Some p \<Rightarrow> Some p)\<rparr>)
         else (Returned (-1), s2)))"

fun stop_loop :: "denv \<Rightarrow> nat \<Rightarrow> int \<Rightarrow> string \<Rightarrow> dsys \<Rightarrow> int \<times> dsys" where
  "stop_loop E 0 pid pidfile s = (-1, say ''signal sended to process, but still exists after 3 seconds\<newline>'' s)"
| "stop_loop E (Suc n) pid pidfile s =
     (let (k, s1) = kill E pid SIGQUIT s in
      if k \<noteq> Alive
      then (0, (say (''program '' @ int_string pid @ '' exited\<newline>'') s1)\<lparr>dfiles := (dfiles s1)(pidfile := None)\<rparr>)
      else stop_loop E n pid pidfile s1)"

definition daemonStop :: "denv \<Rightarrow> string \<Rightarrow> dsys \<Rightarrow> int \<times> dsys" where
  "daemonStop E pidfile s =
     (let pid = getPidFromFile E pidfile (dfiles s) in
      if pid \<le> 0 then (-1, say (pidfile @ '' not exists or not valid\<newline>'') s)
      else
        (let (k, s1) = kill E pid SIGQUIT s in
         if k \<noteq> Alive then (-1, say (''program '' @ int_string pid @ '' not exists\<newline>'') s1)
         else stop_loop E 300 pid pidfile s1))"

definition daemonRestart :: "denv \<Rightarrow> string \<Rightarrow> dsys \<Rightarrow> int outcome \<times> dsys" where
  "daemonRestart E pidfile s =
     (let pid = getPidFromFile E pidfile (dfiles s) in
      if 0 < pid then
        (let (k, s1) = kill E pid 0 s in
         if k = Alive then (let (r, s2) = daemonStop E pidfile s1 in if r < 0 then (Returned r, s2) else daemonStart E pidfile s2)
         else if k = Denied then (Returned (-1), say (''do not have permission to kill process: '' @ int_string pid @ [LF]) s1)
         else daemonStart E pidfile s1)
      else daemonStart E pidfile (say ''pid file not valid, just ignore\<newline>'' s))"

definition daemonProcess :: "denv \<Rightarrow> string option \<Rightarrow> string \<Rightarrow> dsys \<Rightarrow> unit outcome \<times> dsys" where
  "daemonProcess E cmd pidfile s =
     obind
       (if cmd = None \<or> cmd = Some ''start'' then daemonStart E pidfile s
        else if cmd = Some ''stop''
        then (let (r, s1) = daemonStop E pidfile s in if r = 0 then (Exited 0, s1) else (Returned r, s1))
        else if cmd = Some ''restart'' then daemonRestart E pidfile s
        else (Returned (-1), say ''ERROR: bad daemon command. exit\<newline>'' s))
       (\<lambda>r s1. if r \<noteq> 0 then (Exited 1, s1) else (Returned (), s1))"

section \<open>\<open>changeTo\<close>\<close>

text \<open>The child polls its parent, without a bound; \<open>None\<close> is a parent that never exits.\<close>

partial_function (option) wait_exit :: "(nat \<Rightarrow> kill_result) \<Rightarrow> nat \<Rightarrow> kill_result option" where
  "wait_exit K n = (if K n = Alive then wait_exit K (Suc n) else Some (K n))"

datatype change = InParent | ForkFailed | KillError | Execed "string list" | ExecFailed

definition changeTo :: "(nat \<Rightarrow> kill_result) \<Rightarrow> int \<Rightarrow> bool \<Rightarrow> string list \<Rightarrow> change option" where
  "changeTo K r exec_ok argv =
     (if r < 0 then Some ForkFailed
      else if 0 < r then Some InParent
      else (case wait_exit K 0 of
              None \<Rightarrow> None
            | Some k \<Rightarrow> if k \<noteq> Gone then Some KillError else if exec_ok then Some (Execed argv) else Some ExecFailed))"

section \<open>Signals\<close>

record 'h sigtab =
  handlers :: "(int \<times> 'h) list"
  installed :: "int list"

definition signal :: "int \<Rightarrow> 'h \<Rightarrow> 'h sigtab \<Rightarrow> 'h sigtab" where
  "signal sig h t = t\<lparr>handlers := mput sig h (handlers t), installed := sig # installed t\<rparr>"

text \<open>\<open>handlers[sig]()\<close>: with no entry an empty function is called, which throws.\<close>

definition signal_handler :: "int \<Rightarrow> 'h sigtab \<Rightarrow> 'h option" where
  "signal_handler sig t = map_of (handlers t) sig"

section \<open>The pid file round trip\<close>

lemma first_failure:
  fixes n :: nat
  shows "(\<forall>i \<le> n. P i) \<or> \<not> P 0 \<or> (\<exists>m < n. (\<forall>i \<le> m. P i) \<and> \<not> P (Suc m))"
proof (induction n)
  case (Suc n)
  then consider "\<forall>i \<le> n. P i" | "\<not> P 0" | m where "m < n" "\<forall>i \<le> m. P i" "\<not> P (Suc m)" by blast
  then show ?case by cases (metis le_Suc_eq lessI, blast, meson less_SucI)
qed blast

lemma pid_buffer_line:
  assumes "LF \<notin> set w" "CHR 0x00 \<notin> set w" "length w < 63"
  shows "takeWhile (\<lambda>x. x \<noteq> LF) (cstr (pid_buffer junk (w @ [LF]))) = w"
proof -
  have "pid_buffer junk (w @ [LF]) = w @ LF # (drop (Suc (length w)) junk)[62 - length w := CHR 0x00]"
  proof -
    obtain j where "63 - length w = Suc j" "62 - length w = j" using assms(3) by (cases "63 - length w") auto
    then show ?thesis using assms(3) by (simp add: pid_buffer_def list_update_append)
  qed
  then have "cstr (pid_buffer junk (w @ [LF])) = w @ LF # cstr ((drop (Suc (length w)) junk)[62 - length w := CHR 0x00])"
    using cstr_app [OF assms(2), of "LF # _"] by (simp add: cstr_def LF_def)
  then show ?thesis using assms(1) by (simp add: takeWhile_append)
qed

lemma length_to_string: "n < 10 ^ Suc k \<Longrightarrow> length (to_string n) \<le> Suc k"
proof (induction k arbitrary: n)
  case (Suc k)
  then have "n div 10 < 10 ^ Suc k" by simp
  then show ?case using Suc.IH by (simp add: to_string.simps [of n])
qed (simp add: to_string.simps)

lemma pid_string:
  assumes "0 < n" "n < 2 ^ 31"
  shows "LF \<notin> set (int_string n)" "CHR 0x00 \<notin> set (int_string n)" "length (int_string n) < 63" "atoi (int_string n) = n"
proof -
  show "LF \<notin> set (int_string n)" "CHR 0x00 \<notin> set (int_string n)" using int_string_plain(1) [of n] by auto
  have "nat n < 10 ^ Suc 9" using assms(2) by simp
  then show "length (int_string n) < 63" using length_to_string [of "nat n" 9] assms(1) by (simp add: int_string_def)
  show "atoi (int_string n) = n" using atoi_int_string [of n "[]"] assms by simp
qed

text \<open>The pid file of a running daemon, read with any rest of the stack behind it.\<close>

definition pid_file :: "int \<Rightarrow> string" where
  "pid_file n = int_string n @ [LF]"

lemma pid_file_read:
  assumes "f p = Some (pid_file n)" "0 < n" "n < 2 ^ 31" "can_read E"
  shows "getPidFromFile E p f = n"
  using assms pid_buffer_line [OF pid_string(1-3) [OF assms(2,3)], of "stack E"] pid_string(4) [OF assms(2,3)]
  by (simp add: getPidFromFile_def pid_file_def)

section \<open>Stopping\<close>

lemma stop_loop_run:
  assumes "\<forall>i < m. kills E (length (killed s) + i) = Alive" "m < n" "kills E (length (killed s) + m) \<noteq> Alive"
  shows "\<exists>s'. stop_loop E n pid p s = (0, s') \<and> dfiles s' = (dfiles s)(p := None) \<and>
    killed s' = killed s @ replicate (Suc m) (pid, SIGQUIT) \<and> at_exit s' = at_exit s"
  using assms
proof (induction n arbitrary: m s)
  case (Suc n)
  let ?s = "s\<lparr>killed := killed s @ [(pid, SIGQUIT)]\<rparr>"
  show ?case
  proof (cases m)
    case 0
    then show ?thesis using Suc.prems by (auto simp: kill_def say_def fun_eq_iff)
  next
    case (Suc k)
    have "\<forall>i < k. kills E (length (killed ?s) + i) = Alive" using Suc.prems(1) Suc by auto
    moreover have "kills E (length (killed s)) = Alive" using Suc.prems(1) Suc by auto
    ultimately show ?thesis using Suc.IH [of k ?s] Suc.prems Suc by (auto simp: kill_def)
  qed
qed simp

lemma stop_loop_alive:
  assumes "\<forall>i < n. kills E (length (killed s) + i) = Alive"
  shows "\<exists>s'. stop_loop E n pid p s = (-1, s') \<and> dfiles s' = dfiles s \<and> killed s' = killed s @ replicate n (pid, SIGQUIT)"
  using assms
proof (induction n arbitrary: s)
  case (Suc n)
  let ?s = "s\<lparr>killed := killed s @ [(pid, SIGQUIT)]\<rparr>"
  have "\<forall>i < n. kills E (length (killed ?s) + i) = Alive" using Suc.prems by auto
  moreover have "kills E (length (killed s)) = Alive" using Suc.prems by auto
  ultimately show ?case using Suc.IH [of ?s] by (auto simp: kill_def)
qed (simp add: say_def)

text \<open>For a pid file left by a daemon, \<open>daemonStop\<close> sends \<open>SIGQUIT\<close> until the process is gone,
  301 times at most and to no other process. It returns 0 and removes the pid file exactly when the
  first signal was delivered and one of the 300 that follow was not; otherwise it returns -1 and keeps
  the file.\<close>

theorem daemon_stop_outcome:
  assumes f: "dfiles s pidfile = Some (pid_file n)" "0 < n" "n < 2 ^ 31" "can_read E" and k: "killed s = []"
    and r: "daemonStop E pidfile s = (r, s')"
  shows "(r = 0 \<longleftrightarrow> kills E 0 = Alive \<and> (\<exists>i \<in> {1..300}. kills E i \<noteq> Alive)) \<and> r \<in> {0, -1} \<and>
    dfiles s' = (if r = 0 then (dfiles s)(pidfile := None) else dfiles s) \<and>
    (\<exists>m \<le> 301. killed s' = replicate m (n, SIGQUIT) \<and> (\<forall>i < m - 1. kills E i = Alive))"
proof -
  let ?s = "s\<lparr>killed := [(n, SIGQUIT)]\<rparr>"
  have st: "daemonStop E pidfile s =
      (if kills E 0 \<noteq> Alive then (-1, say (''program '' @ int_string n @ '' not exists\<newline>'') ?s) else stop_loop E 300 n pidfile ?s)"
    using pid_file_read [of "dfiles s" pidfile, OF f] f(2) k by (simp add: daemonStop_def kill_def)
  consider "kills E 0 \<noteq> Alive" | "\<forall>i \<le> 300. kills E i = Alive"
    | m where "kills E 0 = Alive" "\<forall>i \<le> m. kills E i = Alive" "m < 300" "kills E (Suc m) \<noteq> Alive"
    using first_failure [of 300 "\<lambda>i. kills E i = Alive"] by blast
  then show ?thesis
  proof cases
    case 1
    then show ?thesis using st r by (auto simp: say_def intro!: exI [of _ 1])
  next
    case 2
    then have "\<forall>i < 300. kills E (length (killed ?s) + i) = Alive" by simp
    from stop_loop_alive [OF this, of n pidfile] 2 r st
    have "r = -1" "dfiles s' = dfiles s" "killed s' = (n, SIGQUIT) # replicate 300 (n, SIGQUIT)" by auto
    then show ?thesis using 2 by (auto intro!: exI [of _ 301] simp flip: replicate_Suc)
  next
    case (3 m)
    have "\<forall>i < m. kills E (length (killed ?s) + i) = Alive" using 3(2) by simp
    from stop_loop_run [OF this 3(3), of n pidfile] 3(1,4) r st
    have r0: "r = 0" "dfiles s' = (dfiles s)(pidfile := None)" "killed s' = (n, SIGQUIT) # replicate (Suc m) (n, SIGQUIT)" by auto
    moreover have "Suc m \<in> {1..300}" using 3(3) by simp
    ultimately show ?thesis using 3 by (auto intro!: exI [of _ "m + 2"] bexI [of _ "Suc m"] simp: less_Suc_eq_le)
  qed
qed

definition demo_env :: "nat \<Rightarrow> denv" where
  "demo_env k = \<lparr>kills = (\<lambda>i. if i < k then Alive else Gone), can_read = True, stack = replicate 64 (CHR ''7''), ppid = 9, fork_result = 0,
     self = 43, can_write = True, can_lock = True, pid_wrote = 3, dev_null = True\<rparr>"

definition demo_sys :: "string option \<Rightarrow> dsys" where
  "demo_sys c = \<lparr>dfiles = (\<lambda>_. c), killed = [], at_exit = None, dstderr = []\<rparr>"

lemma pid_file_42: "pid_file 42 = ''42\<newline>''"
  by code_simp

theorem daemon_stop_outcome_witness:
  "\<exists>s'. daemonStop (demo_env 5) ''p'' (demo_sys (Some ''42\<newline>'')) = (0, s') \<and> dfiles s' ''p'' = None"
proof -
  obtain r s' where r: "daemonStop (demo_env 5) ''p'' (demo_sys (Some ''42\<newline>'')) = (r, s')" by (rule prod.exhaust)
  have "\<exists>i \<in> {1..300}. kills (demo_env 5) i \<noteq> Alive" by (intro bexI [of _ 5]) (simp_all add: demo_env_def)
  moreover have "kills (demo_env 5) 0 = Alive" by (simp add: demo_env_def)
  ultimately have "r = 0 \<and> dfiles s' ''p'' = None"
    using daemon_stop_outcome [of "demo_sys (Some ''42\<newline>'')" "''p''" 42 "demo_env 5", OF _ _ _ _ _ r]
    by (simp add: demo_sys_def pid_file_42 demo_env_def)
  with r show ?thesis by auto
qed

section \<open>What a command leaves\<close>

lemma writePidFile_ok:
  assumes "writePidFile E p s = (r, s')"
  shows "r = 0 \<or> r = -1" "r = 0 \<Longrightarrow> dfiles s' = (dfiles s)(p \<mapsto> pid_file (self E)) \<and> at_exit s' = at_exit s"
proof -
  have t: "take (nat k) str = str" if "k = int (length str)" for k and str :: string using that by simp
  show "r = 0 \<or> r = -1" using assms by (auto simp: writePidFile_def Let_def split: if_splits)
  show "dfiles s' = (dfiles s)(p \<mapsto> pid_file (self E)) \<and> at_exit s' = at_exit s" if "r = 0"
    using assms that by (auto simp: writePidFile_def Let_def pid_file_def say_def t split: if_splits)
qed

definition started_ok :: "denv \<Rightarrow> string \<Rightarrow> dsys \<Rightarrow> bool" where
  "started_ok E p s \<longleftrightarrow> fork_result E = 0 \<and> dfiles s p = Some (pid_file (self E)) \<and> at_exit s \<noteq> None"

lemma daemonStart_outcome:
  assumes "daemonStart E p s = (r, s')"
  shows "r = Exited 0 \<and> 0 < fork_result E \<or> r = Returned (-1) \<or> r = Returned 0 \<and> started_ok E p s'"
proof -
  obtain k s1 where k: "(if 0 < getPidFromFile E p (dfiles s) then kill E (getPidFromFile E p (dfiles s)) 0 s else (Gone, s)) = (k, s1)"
    by (rule prod.exhaust)
  obtain q s2 where w: "writePidFile E p s1 = (q, s2)" by (rule prod.exhaust)
  show ?thesis using assms writePidFile_ok [OF w]
    by (auto simp: daemonStart_def Let_def k w started_ok_def split: if_splits option.splits)
qed

lemma stop_loop_outcome: "stop_loop E n pid p s = (r, s') \<Longrightarrow> r = -1 \<or> r = 0 \<and> dfiles s' p = None"
  by (induction E n pid p s rule: stop_loop.induct) (auto simp: kill_def split: if_splits)

lemma daemonStop_result: "daemonStop E p s = (r, s') \<Longrightarrow> r = -1 \<or> r = 0 \<and> dfiles s' p = None"
  by (auto simp: daemonStop_def Let_def kill_def split: if_splits dest: stop_loop_outcome)

lemma daemonRestart_outcome:
  assumes "daemonRestart E p s = (r, s')"
  shows "r = Exited 0 \<and> 0 < fork_result E \<or> r = Returned (-1) \<or> r = Returned 0 \<and> started_ok E p s'"
proof -
  let ?pid = "getPidFromFile E p (dfiles s)"
  obtain k s1 where k: "kill E ?pid 0 s = (k, s1)" by (rule prod.exhaust)
  obtain q s2 where q: "daemonStop E p s1 = (q, s2)" by (rule prod.exhaust)
  show ?thesis using assms daemonStop_result [OF q] daemonStart_outcome
    by (auto simp: daemonRestart_def Let_def k q split: if_splits)
qed



text \<open>A pid file that cannot be locked, because another process holds it, has already been emptied.\<close>

theorem locked_pid_file_emptied:
  assumes "can_write E" "\<not> can_lock E"
  shows "fst (writePidFile E p s) = -1 \<and> dfiles (snd (writePidFile E p s)) p = Some []"
  using assms by (simp add: writePidFile_def say_def)

text \<open>A pid file without its line feed is read together with what the stack held.\<close>

theorem unterminated_pid_file:
  "getPidFromFile (demo_env 0) ''p'' (\<lambda>_. Some ''42'') = -1 \<and> getPidFromFile ((demo_env 0)\<lparr>stack := ''0017'' @ replicate 60 (CHR 0x00)\<rparr>) ''p'' (\<lambda>_. Some ''42'') = 4217"
  by code_simp

section \<open>Waiting for the parent\<close>

lemma wait_exit_step: "K n = Alive \<Longrightarrow> wait_exit K n = wait_exit K (Suc n)"
  by (subst wait_exit.simps) simp

lemma wait_exit_skip: "\<forall>i < m. K (n + i) = Alive \<Longrightarrow> wait_exit K n = wait_exit K (n + m)"
proof (induction m arbitrary: n)
  case (Suc m)
  then show ?case using wait_exit_step [of K n] Suc.IH [of "Suc n"] by fastforce
qed simp

text \<open>The child of \<open>changeTo\<close> runs the new program only after its parent is gone, and does so whenever the
  parent exits and the program can be executed: at the first \<open>kill\<close> that fails it executes \<open>argv\<close> if the
  failure is that there is no such process.\<close>

theorem change_waits:
  assumes "\<forall>i < m. K i = Alive" "K m \<noteq> Alive"
  shows "changeTo K 0 exec_ok argv = Some (if K m = Gone then (if exec_ok then Execed argv else ExecFailed) else KillError)"
proof -
  have "wait_exit K 0 = wait_exit K m" using wait_exit_skip [of m K 0] assms(1) by simp
  also have "\<dots> = Some (K m)" using assms(2) by (subst wait_exit.simps) simp
  finally show ?thesis by (simp add: changeTo_def)
qed

theorem change_waits_witness: "changeTo (\<lambda>i. if i < 7 then Alive else Gone) 0 True [''a'', ''b''] = Some (Execed [''a'', ''b''])"
  using change_waits [of 7 "\<lambda>i. if i < 7 then Alive else Gone" True "[''a'', ''b'']"] by simp

section \<open>Signal handlers\<close>

text \<open>After any registrations a delivered signal runs the handler registered last for it; one that was never
  registered keeps its default action.\<close>

theorem last_handler_runs:
  assumes "t = fold (\<lambda>(sig, h). signal sig h) rs \<lparr>handlers = [], installed = []\<rparr>"
  shows "sig \<in> set (installed t) \<longleftrightarrow> sig \<in> fst ` set rs" "signal_handler sig t = map_of (rev rs) sig"
proof -
  have "mok (handlers t) \<and> set (installed t) = fst ` set rs \<and> map_of (handlers t) = map_of (rev rs)"
    unfolding assms
  proof (induction rs rule: rev_induct)
    case (snoc r rs)
    then show ?case by (cases r) (auto simp: signal_def)
  qed (simp add: mok_def)
  then show "sig \<in> set (installed t) \<longleftrightarrow> sig \<in> fst ` set rs" "signal_handler sig t = map_of (rev rs) sig"
    by (simp_all add: signal_handler_def)
qed

end
