(* ===== verification/Http.thy ===== *)
theory Http
  imports Slice Buffer
begin

text \<open>
  HTTP messages (\<open>http.h\<close>, \<open>http.cc\<close>): encoding into a \<open>Buffer\<close> and the incremental decoder
  \<open>tryDecode\<close>, over the bytes of the input buffer. The decoder writes through its \<open>const\<close> input: it
  lowers header names in place, so each step returns the block it leaves behind. \<open>size_t\<close> sums are
  taken modulo \<open>2 ^ 64\<close>; an \<open>assign\<close> beyond the block is \<open>Inl OutOfBounds\<close>.
\<close>

section \<open>Messages\<close>

datatype http_result = Error | Complete | NotComplete | Continue100

record http_msg =
  headers :: "(string \<times> string) list"
  version :: string
  body :: string
  body2 :: string                       \<comment> \<open>the bytes of the slice\<close>
  completed :: bool
  contentLen :: int                     \<comment> \<open>\<open>size_t\<close>\<close>
  scanned :: int                        \<comment> \<open>\<open>size_t\<close>\<close>

record http_request = http_msg +
  args :: "(string \<times> string) list"
  rmethod :: string
  uri :: string
  query_uri :: string

record http_response = http_msg +
  statusWord :: string
  status :: int

definition msg_clear :: "'a http_msg_scheme \<Rightarrow> 'a http_msg_scheme" where
  "msg_clear m = m\<lparr>headers := [], version := ''HTTP/1.1'', body := [], body2 := [],
     completed := False, contentLen := 0, scanned := 0\<rparr>"

definition req_clear :: "http_request \<Rightarrow> http_request" where
  "req_clear m = (msg_clear m)\<lparr>args := [], rmethod := ''GET'', uri := [], query_uri := []\<rparr>"

definition resp_clear :: "http_response \<Rightarrow> http_response" where
  "resp_clear m = (msg_clear m)\<lparr>status := 200, statusWord := ''OK''\<rparr>"

definition map_get :: "(string \<times> string) list \<Rightarrow> string \<Rightarrow> string" where
  "map_get m n = (case map_of m n of None \<Rightarrow> [] | Some v \<Rightarrow> v)"

definition getHeader :: "string \<Rightarrow> 'a http_msg_scheme \<Rightarrow> string" where
  "getHeader n m = map_get (headers m) n"

definition getArg :: "string \<Rightarrow> http_request \<Rightarrow> string" where
  "getArg n m = map_get (args m) n"

definition getBody :: "'a http_msg_scheme \<Rightarrow> string" where
  "getBody m = (if body2 m \<noteq> [] then body2 m else body m)"

definition setStatus :: "int \<Rightarrow> string \<Rightarrow> http_response \<Rightarrow> http_response" where
  "setStatus st msg m = m\<lparr>status := st, statusWord := msg, body := msg\<rparr>"

definition setNotFound :: "http_response \<Rightarrow> http_response" where
  "setNotFound = setStatus 404 ''Not Found''"

section \<open>Encoding\<close>

text \<open>\<open>snprintf\<close> into an array of \<open>n\<close> bytes.\<close>

definition snprintf :: "nat \<Rightarrow> string \<Rightarrow> string" where
  "snprintf n s = take (n - 1) s"

definition header_pieces :: "'a http_msg_scheme \<Rightarrow> string list" where
  "header_pieces m = concat (map (\<lambda>(k, v). [k, '': '', v, [CR, LF]]) (headers m)) @
     [''Connection: Keep-Alive'' @ [CR, LF],
      snprintf 1024 (''Content-Length: '' @ to_string (length (getBody m)) @ [CR, LF]),
      [CR, LF], getBody m]"

definition req_encode :: "http_request \<Rightarrow> buffer \<Rightarrow> (nat \<times> buffer) res" where
  "req_encode m buf =
     rbind (appends_with bappend
       (snprintf 4096 (cstr (rmethod m) @ '' '' @ cstr (query_uri m) @ '' '' @ cstr (version m) @ [LF, LF]) #
        header_pieces m) buf) (\<lambda>buf'. Inr (bsize buf' - bsize buf, buf'))"

definition resp_encode :: "http_response \<Rightarrow> buffer \<Rightarrow> (nat \<times> buffer) res" where
  "resp_encode m buf =
     rbind (appends_with bappend
       (snprintf 1024 (cstr (version m) @ '' '' @ int_string (status m) @ '' '' @ cstr (statusWord m) @ [CR, LF]) #
        header_pieces m) buf) (\<lambda>buf'. Inr (bsize buf' - bsize buf, buf'))"

section \<open>Decoding\<close>

definition CRLF2 :: string where "CRLF2 = [CR, LF, CR, LF]"

text \<open>The search for the empty line, from where the last call stopped.\<close>

function find_end :: "string \<Rightarrow> nat \<Rightarrow> bool \<times> nat" where
  "find_end b sc =
     (if sc + 4 \<le> length b
      then (if b ! sc = CR \<and> take 4 (drop sc b) = CRLF2 then (True, sc) else find_end b (sc + 1))
      else (False, sc))"
  by auto
termination by (relation "measure (\<lambda>(b, sc). length b - sc)") auto

declare find_end.simps [simp del]

text \<open>The name of a header is lowered in the buffer itself.\<close>

definition lower_range :: "string \<Rightarrow> int \<Rightarrow> int \<Rightarrow> string" where
  "lower_range m b e = take (nat b) m @ map tolower (bytes_in m b e) @ drop (nat e) m"

lemma scan_ge: "scan P m p e = Inr q \<Longrightarrow> p \<le> q \<and> (e \<le> p \<longrightarrow> q = p)"
proof (induction P m p e rule: scan.induct)
  case (1 P m p e)
  show ?case
  proof (cases "p < e")
    case True
    then obtain c where "rd m p = Inr c" "(if P c then scan P m (p + 1) e else Inr p) = Inr q"
      using "1.prems" by (auto simp: scan.simps [of P m p e])
    then show ?thesis using True "1.IH" [OF True, of c] by (auto split: if_splits)
  next
    case False
    then show ?thesis using "1.prems" by (simp add: scan.simps [of P m p e])
  qed
qed

lemma eatLine_ge: "eatLine s = Inr (l, t) \<Longrightarrow> pe t = pe s \<and> pb s \<le> pb t \<and> (pe s \<le> pb s \<longrightarrow> pb l = pe l)"
  using scan_ge by (fastforce simp: eatLine_def slice_at_def)

lemma eatWord_empty: "eatWord s = Inr (w, t) \<Longrightarrow> pb s = pe s \<Longrightarrow> pb w = pe w"
  by (auto simp: eatWord_def slice_at_def scan.simps)

text \<open>The loop over the header lines: whether the head is well formed, the headers, and the block.\<close>

function header_loop :: "slice \<Rightarrow> (string \<times> string) list \<Rightarrow> (bool \<times> (string \<times> string) list \<times> string) res" where
  "header_loop req hs =
     (if ssize req = 0 then Inr (True, hs, smem req)
      else
        rbind (eatLine (snd (eat 2 req))) (\<lambda>(ln, req1).
        rbind (eatWord ln) (\<lambda>(k, ln1).
        rbind (trimSpace ln1) (\<lambda>ln2.
        rbind (if ssize k \<noteq> 0 \<and> ssize ln2 \<noteq> 0 then rbind (sback k) (\<lambda>c. Inr (c = CHR '':'')) else Inr False) (\<lambda>colon.
          if colon
          then (let m = lower_range (smem k) (pb k) (pe k)
                in header_loop (req1\<lparr>smem := m\<rparr>)
                     (mput (contents (ssub 0 (- 1) (k\<lparr>smem := m\<rparr>))) (contents (ln2\<lparr>smem := m\<rparr>)) hs))
          else if sempty k \<and> sempty ln2 \<and> sempty req1 then Inr (True, hs, smem req1)
          else Inr (False, hs, smem req1))))))"
  by pat_completeness auto
termination
proof (relation "measure (\<lambda>(req, hs). nat (pe req - pb req))", goal_cases)
  case 1
  show ?case by simp
next
  case (2 req hs p ln req1 p' k ln1 ln2 colon m)
  have k: "pb k \<noteq> pe k" using 2(7,8) by (auto simp: ssize_def split: if_splits)
  have l: "eatLine (snd (eat 2 req)) = Inr (ln, req1)" "eatWord ln = Inr (k, ln1)" using 2(2-5) by simp_all
  have "\<not> pe req \<le> pb req + 2"
  proof
    assume "pe req \<le> pb req + 2"
    then have "pb ln = pe ln" using eatLine_ge [OF l(1)] by (simp add: eat_def)
    then show False using eatWord_empty [OF l(2)] k by simp
  qed
  then show ?case using eatLine_ge [OF l(1)] by (simp add: eat_def)
qed

declare header_loop.simps [simp del]

text \<open>The end of \<open>tryDecode_\<close>: the body, once it is there.\<close>

definition take_body :: "bool \<Rightarrow> string \<Rightarrow> 'a http_msg_scheme \<Rightarrow> (http_result \<times> 'a http_msg_scheme) res" where
  "take_body copyBody b m =
     (if \<not> completed m \<and> (contentLen m + scanned m) mod 2 ^ 64 \<le> int (length b)
      then if scanned m + contentLen m \<le> int (length b)
        then (let t = take (nat (contentLen m)) (drop (nat (scanned m)) b);
                  m1 = (if copyBody then m\<lparr>body := t\<rparr> else m\<lparr>body2 := t\<rparr>)
              in Inr (Complete, m1\<lparr>completed := True, scanned := (scanned m + contentLen m) mod 2 ^ 64\<rparr>))
        else Inl OutOfBounds
      else Inr (if completed m then Complete else NotComplete, m))"

text \<open>\<open>tryDecode_\<close>: the result, the first line (if the head was met in this call), the message and the block.\<close>

definition tryDecode0 :: "string \<Rightarrow> bool \<Rightarrow> 'a http_msg_scheme \<Rightarrow> (http_result \<times> slice \<times> 'a http_msg_scheme \<times> string) res" where
  "tryDecode0 b copyBody m =
     (let none = slice_of [] in
      if completed m then Inr (Complete, none, m, b)
      else if contentLen m = 0 then
        (let (found, sc) = find_end b (nat (scanned m)); m1 = m\<lparr>scanned := int sc\<rparr> in
         if \<not> found \<or> sc = 0 then Inr (NotComplete, none, m1, b)
         else rbind (eatLine (slice_at b 0 (int sc))) (\<lambda>(line1, req).
              rbind (header_loop req (headers m1)) (\<lambda>(good, hs, b').
                let m2 = m1\<lparr>headers := hs\<rparr>; l1 = line1\<lparr>smem := b'\<rparr> in
                if \<not> good then Inr (Error, l1, m2, b')
                else
                  (let m3 = m2\<lparr>scanned := (scanned m2 + 4) mod 2 ^ 64,
                               contentLen := atoi (cstr (getHeader ''content-length'' m2)) mod 2 ^ 64\<rparr> in
                   if int (length b') < (contentLen m3 + scanned m3) mod 2 ^ 64 \<and> getHeader ''Expect'' m3 \<noteq> []
                   then Inr (Continue100, l1, m3, b')
                   else rbind (take_body copyBody b' m3) (\<lambda>(r, m4). Inr (r, l1, m4, b'))))))
      else rbind (take_body copyBody b m) (\<lambda>(r, m4). Inr (r, none, m4, b)))"

text \<open>The arguments after the question mark.\<close>

function parse_args :: "string \<Rightarrow> (string \<times> string) list \<Rightarrow> (string \<times> string) list" where
  "parse_args qs as =
     (if qs = [] then as
      else
        (let key = takeWhile (\<lambda>c. c \<noteq> CHR ''='' \<and> c \<noteq> CHR ''&'') qs;
             q1 = drop (length key) qs;
             q2 = (if take 1 q1 = ''='' then drop 1 q1 else q1);
             val = takeWhile (\<lambda>c. c \<noteq> CHR ''&'') q2;
             q3 = drop (length val) q2;
             q4 = (if take 1 q3 = ''&'' then drop 1 q3 else q3)
         in parse_args q4 (if key \<noteq> [] then mput key val as else as)))"
  by auto
termination
proof (relation "measure (length \<circ> fst)", goal_cases)
  case 1
  show ?case by simp
next
  case (2 qs as key q1 q2 val q3 q4)
  show ?case
  proof (cases "key = []")
    case True
    then have "take 1 qs = ''='' \<or> take 1 qs = ''&''"
      using 2 by (cases qs) (auto split: if_splits)
    then show ?thesis using 2 True by (cases qs) auto
  next
    case False
    then have "length q1 < length qs" using 2 by (cases key) simp_all
    then show ?thesis using 2 by auto
  qed
qed

declare parse_args.simps [simp del]

definition req_tryDecode :: "string \<Rightarrow> bool \<Rightarrow> http_request \<Rightarrow> (http_result \<times> http_request \<times> string) res" where
  "req_tryDecode b copyBody m =
     rbind (tryDecode0 b copyBody m) (\<lambda>(r, ln1, m1, b').
     if ssize ln1 = 0 then Inr (r, m1, b')
     else
       rbind (eatWord ln1) (\<lambda>(w1, l2). rbind (eatWord l2) (\<lambda>(w2, l3). rbind (eatWord l3) (\<lambda>(w3, l4).
         let q = contents w2; m2 = m1\<lparr>rmethod := contents w1, query_uri := q, version := contents w3\<rparr> in
         if q = [] \<or> hd q \<noteq> CHR ''/'' then Inr (Error, m2, b')
         else
           (let path = takeWhile (\<lambda>c. c \<noteq> CHR ''?'') q in
            if path = q then Inr (r, m2\<lparr>uri := q\<rparr>, b')
            else Inr (r, m2\<lparr>uri := path, args := parse_args (drop (length path + 1) q) (args m2)\<rparr>, b'))))))"

text \<open>The status is read by \<open>atoi\<close> from the start of its word on, whatever follows.\<close>

definition resp_tryDecode :: "string \<Rightarrow> bool \<Rightarrow> http_response \<Rightarrow> (http_result \<times> http_response \<times> string) res" where
  "resp_tryDecode b copyBody m =
     rbind (tryDecode0 b copyBody m) (\<lambda>(r, ln1, m1, b').
     if ssize ln1 = 0 then Inr (r, m1, b')
     else
       rbind (eatWord ln1) (\<lambda>(w1, l2). rbind (eatWord l2) (\<lambda>(w2, l3). rbind (trimSpace l3) (\<lambda>w3.
         Inr (r, m1\<lparr>version := contents w1, status := atoi (cstr (drop (nat (pb w2)) (smem w2))),
                statusWord := contents w3\<rparr>, b')))))"

section \<open>Finding the empty line\<close>

fun first4 :: "string \<Rightarrow> nat option" where
  "first4 [] = None"
| "first4 (x # xs) = (if take 4 (x # xs) = CRLF2 then Some 0 else map_option Suc (first4 xs))"

lemma first4_some: "first4 xs = Some n \<Longrightarrow> n + 4 \<le> length xs \<and> take 4 (drop n xs) = CRLF2"
proof (induction xs arbitrary: n)
  case (Cons x xs)
  show ?case
  proof (cases "take 4 (x # xs) = CRLF2")
    case True
    then have "length (take 4 (x # xs)) = 4" by (simp add: CRLF2_def)
    then show ?thesis using Cons.prems True by (auto split: if_splits)
  next
    case False
    then show ?thesis using Cons by auto
  qed
qed simp

lemma first4_short: "length xs < 4 \<Longrightarrow> first4 xs = None"
  using first4_some [of xs] by (cases "first4 xs") auto

lemma first4_drop: "first4 xs = Some n \<Longrightarrow> k \<le> n \<Longrightarrow> first4 (drop k xs) = Some (n - k)"
proof (induction xs arbitrary: n k)
  case (Cons x xs)
  then show ?case by (cases k) (auto split: if_splits)
qed simp

lemma first4_take: "first4 xs = Some n \<Longrightarrow> j < n + 4 \<Longrightarrow> first4 (take j xs) = None"
proof (induction xs arbitrary: n j)
  case (Cons x xs)
  show ?case
  proof (cases j)
    case (Suc i)
    have "take 4 (x # take i xs) \<noteq> CRLF2"
    proof
      assume a: "take 4 (x # take i xs) = CRLF2"
      then have "length (take 4 (x # take i xs)) = 4" by (simp add: CRLF2_def)
      then have "3 \<le> i" by (auto split: if_splits)
      then have "take 4 (x # xs) = CRLF2" using a by (simp add: min_def numeral_eq_Suc)
      then show False using Cons.prems Suc \<open>3 \<le> i\<close> by simp
    qed
    moreover have "first4 (take i xs) = None"
      using Cons.IH [of "n - 1" i] Cons.prems Suc first4_short [of "take i xs"] by (cases "i < 4") (auto split: if_splits)
    ultimately show ?thesis using Suc by simp
  qed simp
qed simp

lemma find_end_first4:
  "find_end b sc = (case first4 (drop sc b) of Some n \<Rightarrow> (True, sc + n) | None \<Rightarrow> (False, max sc (length b - 3)))"
proof (induction b sc rule: find_end.induct)
  case (1 b sc)
  show ?case
  proof (cases "sc + 4 \<le> length b")
    case True
    then have d: "drop sc b = b ! sc # drop (Suc sc) b" by (simp add: Cons_nth_drop_Suc)
    show ?thesis
    proof (cases "take 4 (drop sc b) = CRLF2")
      case t: True
      then have "b ! sc = CR" using d by (simp add: CRLF2_def)
      then show ?thesis using True t d by (simp add: find_end.simps [of b sc])
    next
      case False
      then show ?thesis
        using True "1.IH" d by (auto simp: find_end.simps [of b sc] max_def split: option.splits)
    qed
  next
    case False
    have "first4 (drop sc b) = None"
    proof (rule ccontr)
      assume "first4 (drop sc b) \<noteq> None"
      then obtain n where "first4 (drop sc b) = Some n" by auto
      from first4_some [OF this] show False using False by auto
    qed
    then show ?thesis using False by (auto simp: find_end.simps [of b sc] max_def)
  qed
qed

text \<open>Text without CR, and a line break that another line follows, are no empty line.\<close>

lemma first4_skip: "CR \<notin> set l \<Longrightarrow> first4 (l @ xs) = map_option ((+) (length l)) (first4 xs)"
  by (induction l; cases "first4 xs") (auto simp: CRLF2_def)

lemma first4_break: "c \<noteq> CR \<Longrightarrow> first4 (CR # LF # c # xs) = map_option ((+) 2) (first4 (c # xs))"
  by (cases "first4 (c # xs)") (auto simp: CRLF2_def split: if_splits)

section \<open>Header lines\<close>

text \<open>A header line with the two bytes before it.\<close>

definition hline :: "string \<times> string \<times> string \<Rightarrow> string" where
  "hline h = (case h of (sep, k, v) \<Rightarrow> sep @ k @ '': '' @ v)"

lemma hline_simp: "hline (sep, k, v) = sep @ k @ '': '' @ v"
  by (simp add: hline_def)

definition hline_ok :: "string \<times> string \<times> string \<Rightarrow> bool" where
  "hline_ok h \<longleftrightarrow> (case h of (sep, k, v) \<Rightarrow> length sep = 2 \<and> (\<forall>c \<in> set k. \<not> isspace c) \<and>
     v \<noteq> [] \<and> \<not> isspace (hd v) \<and> \<not> isspace (last v) \<and> CR \<notin> set v \<and> LF \<notin> set v)"

lemma isspace_http [simp]: "isspace CR" "isspace LF" "isspace (CHR '' '')" "\<not> isspace (CHR '':'')"
  by (simp_all add: isspace_def CR_def LF_def)

lemma length_lower_range: "0 \<le> b \<Longrightarrow> b \<le> e \<Longrightarrow> e \<le> int (length m) \<Longrightarrow> length (lower_range m b e) = length m"
  by (simp add: lower_range_def)

lemma lower_range_in:
  assumes "0 \<le> b" "b \<le> e" "e \<le> int (length m)"
  shows "bytes_in (lower_range m b e) b e = map tolower (bytes_in m b e)"
proof -
  have "length (take (nat b) m) = nat b" using assms by simp
  then show ?thesis using assms by (simp add: lower_range_def bytes_in_def [of "_ @ _"])
qed

lemma lower_range_after:
  assumes "0 \<le> b" "b \<le> e" "e \<le> int (length m)" "e \<le> p"
  shows "drop (nat p) (lower_range m b e) = drop (nat p) m" "bytes_in (lower_range m b e) p q = bytes_in m p q"
proof -
  have l: "length (take (nat b) m) = nat b" "length (map tolower (bytes_in m b e)) = nat (e - b)" using assms by simp_all
  have "nat p - nat b - nat (e - b) = nat (p - e)" "nat p = nat (p - e) + nat e" "nat b \<le> nat p" "nat (e - b) \<le> nat p - nat b"
    using assms by simp_all
  then show d: "drop (nat p) (lower_range m b e) = drop (nat p) m"
    using l by (simp add: lower_range_def del: nat_le_eq_zle)
  then show "bytes_in (lower_range m b e) p q = bytes_in m p q" by (simp add: bytes_in_def)
qed

lemma lower_range_before:
  assumes "0 \<le> b" "b \<le> e" "e \<le> int (length m)" "p \<le> b"
  shows "take (nat p) (lower_range m b e) = take (nat p) m"
proof -
  have "nat p \<le> nat b" "nat p \<le> length m" using assms by simp_all
  then show ?thesis by (simp add: lower_range_def min_def)
qed

lemma takeWhile_line:
  assumes "\<forall>c \<in> set l. c \<noteq> LF \<and> c \<noteq> CR" "rest = [] \<or> hd rest \<in> {CR, LF}"
  shows "takeWhile (\<lambda>c. c \<noteq> LF \<and> c \<noteq> CR) (l @ rest) = l \<and> dropWhile (\<lambda>c. c \<noteq> LF \<and> c \<noteq> CR) (l @ rest) = rest"
  using assms by (induction l; cases rest) auto

lemma word_split:
  assumes "\<forall>c \<in> set w. \<not> isspace c" "w \<noteq> []" "rest = [] \<or> isspace (hd rest)"
  shows "takeWhile (\<lambda>c. \<not> isspace c) (dropWhile isspace (w @ rest)) = w \<and>
         dropWhile (\<lambda>c. \<not> isspace c) (dropWhile isspace (w @ rest)) = rest"
proof -
  have "dropWhile isspace (w @ rest) = w @ rest" using assms(1,2) by (cases w) simp_all
  moreover have "takeWhile (\<lambda>c. \<not> isspace c) (w @ rest) = w" "dropWhile (\<lambda>c. \<not> isspace c) (w @ rest) = rest"
    using assms(1,3) by (induction w; cases rest; auto)+
  ultimately show ?thesis by simp
qed

lemma trim_space: "v \<noteq> [] \<Longrightarrow> \<not> isspace (hd v) \<Longrightarrow> \<not> isspace (last v) \<Longrightarrow> isspace c \<Longrightarrow> trim (c # v) = v"
proof -
  assume v: "v \<noteq> []" "\<not> isspace (hd v)" "\<not> isspace (last v)" "isspace c"
  then have "dropWhile isspace (c # v) = v" "dropWhile isspace (rev v) = rev v"
    by (auto simp: dropWhile_eq_self_iff hd_rev)
  then show ?thesis by (simp add: trim_def)
qed

text \<open>One turn of the header loop on a well-formed line.\<close>

lemma header_step:
  assumes "slice_ok req" "length (smem req) < 2 ^ 64" "hline_ok (sep, k, v)"
    and "contents req = hline (sep, k, v) @ rest" "rest = [] \<or> hd rest \<in> {CR, LF}"
  shows "\<exists>req1. header_loop req hs = header_loop req1 (mput (map tolower k) v hs) \<and> slice_ok req1 \<and>
      length (smem req1) = length (smem req) \<and> pe req1 = pe req \<and> pb req \<le> pb req1 \<and> contents req1 = rest \<and>
      drop (nat (pe req)) (smem req1) = drop (nat (pe req)) (smem req) \<and>
      take (nat (pb req)) (smem req1) = take (nat (pb req)) (smem req)"
proof -
  have h: "length sep = 2" "\<forall>c \<in> set k. \<not> isspace c" "v \<noteq> []" "\<not> isspace (hd v)" "\<not> isspace (last v)"
      "\<forall>c \<in> set v. c \<noteq> LF \<and> c \<noteq> CR"
    using assms(3) by (auto simp: hline_ok_def)
  let ?m = "smem req" and ?line = "k @ '': '' @ v"
  have len: "length (contents req) = nat (pe req - pb req)" using assms(1) by (auto simp: slice_ok_def contents_def)
  then have "nat (pe req - pb req) > 3" using assms(4) h(1) by (simp add: hline_def)
  then have sz: "ssize req \<noteq> 0" "slice_ok (snd (eat 2 req))"
    using assms(1,2) by (auto simp: ssize_def slice_ok_def eat_def)
  have p2: "0 \<le> pb req" "pb req + 2 \<le> pe req" "pe req \<le> int (length ?m)"
    using \<open>nat (pe req - pb req) > 3\<close> assms(1) by (auto simp: slice_ok_def)
  have "bytes_in ?m (pb req) (pe req) = bytes_in ?m (pb req) (pb req + 2) @ bytes_in ?m (pb req + 2) (pe req)"
    by (rule range_append [OF p2(1) _ p2(2,3)]) simp
  moreover have "length (bytes_in ?m (pb req) (pb req + 2)) = 2"
    by (subst length_range) (use p2 in linarith)+
  ultimately have "contents (snd (eat 2 req)) = drop 2 (contents req)" by (simp add: eat_def contents_def)
  then have c2: "contents (snd (eat 2 req)) = ?line @ rest" using assms(4) h(1) by (simp add: hline_def)
  have "\<forall>c \<in> set k. c \<noteq> LF \<and> c \<noteq> CR" using h(2) isspace_http(1,2) by metis
  moreover have "\<forall>c \<in> set '': ''. c \<noteq> LF \<and> c \<noteq> CR" by (simp add: LF_def CR_def)
  ultimately have "\<forall>c \<in> set ?line. c \<noteq> LF \<and> c \<noteq> CR" using h(6) unfolding set_append by blast
  note tw = takeWhile_line [OF this assms(5)]
  obtain ln req1 where ln: "eatLine (snd (eat 2 req)) = Inr (ln, req1)" "slice_ok ln" "slice_ok req1" "smem ln = ?m" "smem req1 = ?m"
      "pe req1 = pe req" "pb ln = pb req + 2" "pe ln = pb req1" "contents ln = ?line" "contents req1 = rest"
    using eatLine_spec [OF sz(2)] c2 tw by (auto simp: eat_def)
  have w: "\<forall>c \<in> set (k @ '':''). \<not> isspace c" "k @ '':'' \<noteq> []" "'' '' @ v = [] \<or> isspace (hd ('' '' @ v))" using h(2) by auto
  obtain kk ln1 where kk: "eatWord ln = Inr (kk, ln1)" "slice_ok kk" "slice_ok ln1" "smem kk = ?m" "smem ln1 = ?m" "pe ln1 = pe ln"
      "pb ln \<le> pb kk" "pe kk = pb ln1" "contents kk = k @ '':''" "contents ln1 = '' '' @ v"
    using eatWord_spec [OF ln(2)] word_split [OF w] ln(4,9) by auto
  obtain ln2 where ln2: "trimSpace ln1 = Inr ln2" "slice_ok ln2" "smem ln2 = ?m" "pb ln1 \<le> pb ln2" "pe ln2 \<le> pe ln1" "contents ln2 = v"
    using trimSpace_spec [OF kk(3)] kk(5,10) trim_space [OF h(3-5), of "CHR '' ''"] by auto
  let ?m' = "lower_range ?m (pb kk) (pe kk)"
  have kr: "0 \<le> pb kk" "pb kk \<le> pe kk" "pe kk \<le> int (length ?m)" using kk(2,4) by (auto simp: slice_ok_def)
  have "ssize kk \<noteq> 0" "ssize ln2 \<noteq> 0"
    using ssize_ok [OF kk(2)] ssize_ok [OF ln2(2)] kk(4,9) ln2(3,6) assms(2) h(3) by simp_all
  moreover have "pb kk < pe kk" using contents_Nil_iff [OF kk(2)] kk(9) kr by auto
  then have last: "bytes_in ?m (pb kk) (pe kk) = bytes_in ?m (pb kk) (pe kk - 1) @ [?m ! nat (pe kk - 1)]"
    using range_snoc [OF kr(1) _ kr(3)] by simp
  then have "sback kk = Inr (CHR '':'')" "bytes_in ?m (pb kk) (pe kk - 1) = k"
    using kk(4,9) kr \<open>pb kk < pe kk\<close> by (simp_all add: sback_def contents_def)
  moreover have "contents (ssub 0 (- 1) (kk\<lparr>smem := ?m'\<rparr>)) = map tolower k"
  proof -
    have "bytes_in ?m' (pb kk) (pe kk) = map tolower k @ [tolower (?m ! nat (pe kk - 1))]"
      unfolding lower_range_in [OF kr] using last calculation(4) by simp
    moreover have "bytes_in ?m' (pb kk) (pe kk) = bytes_in ?m' (pb kk) (pe kk - 1) @ [?m' ! nat (pe kk - 1)]"
      using range_snoc [of "pb kk" "pe kk" ?m'] kr \<open>pb kk < pe kk\<close> length_lower_range [OF kr] by simp
    ultimately show ?thesis by (simp add: ssub_def contents_def)
  qed
  moreover have "contents (ln2\<lparr>smem := ?m'\<rparr>) = v"
    using lower_range_after(2) [OF kr, of "pb ln2" "pe ln2"] ln2(3,4,6) kk(8) by (simp add: contents_def)
  ultimately have "header_loop req hs = header_loop (req1\<lparr>smem := ?m'\<rparr>) (mput (map tolower k) v hs)"
    using sz(1) ln(1) kk(1,4) ln2(1) by (simp add: header_loop.simps [of req])
  moreover have "slice_ok (req1\<lparr>smem := ?m'\<rparr>)" using ln(3,5) length_lower_range [OF kr] by (simp add: slice_ok_def)
  moreover have "pe kk \<le> pb req1" "pb kk \<ge> pb req" using kk(3,6,7,8) ln(2,7,8) by (auto simp: slice_ok_def)
  moreover have "pb req1 \<le> pe req" using ln(3,6) by (simp add: slice_ok_def)
  ultimately show ?thesis
    using length_lower_range [OF kr] ln(5,6,10) lower_range_after [OF kr] lower_range_before [OF kr] ln(3) kr(2)
    by (intro exI [of _ "req1\<lparr>smem := ?m'\<rparr>"]) (auto simp: contents_def)
qed

lemma hline_break: "hs = [] \<or> (\<forall>h \<in> set hs. fst h \<in> {[CR, LF], [LF, LF]}) \<Longrightarrow> concat (map hline hs) = [] \<or> hd (concat (map hline hs)) \<in> {CR, LF}"
  by (cases hs) (auto simp: hline_def split: prod.splits)

definition add_headers :: "(string \<times> string \<times> string) list \<Rightarrow> (string \<times> string) list \<Rightarrow> (string \<times> string) list" where
  "add_headers hs acc = fold (\<lambda>(sep, k, v). mput (map tolower k) v) hs acc"

lemma header_loop_all:
  "slice_ok req \<Longrightarrow> length (smem req) < 2 ^ 64 \<Longrightarrow>
   \<forall>h \<in> set hs. hline_ok h \<and> fst h \<in> {[CR, LF], [LF, LF]} \<Longrightarrow> contents req = concat (map hline hs) \<Longrightarrow>
   \<exists>b'. header_loop req acc = Inr (True, add_headers hs acc, b') \<and> length b' = length (smem req) \<and>
      drop (nat (pe req)) b' = drop (nat (pe req)) (smem req) \<and> take (nat (pb req)) b' = take (nat (pb req)) (smem req)"
proof (induction hs arbitrary: req acc)
  case Nil
  then have "ssize req = 0" using ssize_ok [of req] by simp
  then show ?case by (simp add: header_loop.simps [of req] add_headers_def)
next
  case (Cons h hs)
  obtain sep k v where h: "h = (sep, k, v)" by (cases h)
  have c: "contents req = hline (sep, k, v) @ concat (map hline hs)" using Cons.prems(4) by (simp add: h)
  have r: "concat (map hline hs) = [] \<or> hd (concat (map hline hs)) \<in> {CR, LF}"
    using hline_break [of hs] Cons.prems(3) by auto
  have hk: "hline_ok (sep, k, v)" using Cons.prems(3) by (simp add: h)
  obtain req1 where r1: "header_loop req acc = header_loop req1 (mput (map tolower k) v acc)" "slice_ok req1"
      "length (smem req1) = length (smem req)" "pe req1 = pe req" "pb req \<le> pb req1" "contents req1 = concat (map hline hs)"
      "drop (nat (pe req)) (smem req1) = drop (nat (pe req)) (smem req)"
      "take (nat (pb req)) (smem req1) = take (nat (pb req)) (smem req)"
    using header_step [OF Cons.prems(1,2) hk c r, of acc] by blast
  obtain b' where b': "header_loop req1 (mput (map tolower k) v acc) = Inr (True, add_headers hs (mput (map tolower k) v acc), b')"
      "length b' = length (smem req1)" "drop (nat (pe req1)) b' = drop (nat (pe req1)) (smem req1)"
      "take (nat (pb req1)) b' = take (nat (pb req1)) (smem req1)"
    using Cons.IH [OF r1(2) _ _ r1(6)] Cons.prems(2,3) r1(3) by auto
  have "take (nat (pb req)) b' = take (nat (pb req)) (take (nat (pb req1)) b')" using r1(5) by (simp add: min_def)
  also have "\<dots> = take (nat (pb req)) (smem req1)" unfolding b'(4) using r1(5) by (simp add: min_def)
  finally show ?case using r1 b' by (simp add: h add_headers_def)
qed

section \<open>A message as it is written\<close>

text \<open>First line, header lines, the empty line and the body; \<open>head_len\<close> is the length up to the empty line.\<close>

definition http_text :: "string \<Rightarrow> (string \<times> string \<times> string) list \<Rightarrow> string \<Rightarrow> string" where
  "http_text l hs bd = l @ concat (map hline hs) @ CRLF2 @ bd"

definition head_len :: "string \<Rightarrow> (string \<times> string \<times> string) list \<Rightarrow> nat" where
  "head_len l hs = length l + length (concat (map hline hs))"

definition text_ok :: "string \<Rightarrow> (string \<times> string \<times> string) list \<Rightarrow> string \<Rightarrow> bool" where
  "text_ok l hs bd \<longleftrightarrow> l \<noteq> [] \<and> (\<forall>c \<in> set l. c \<noteq> LF \<and> c \<noteq> CR) \<and>
     (\<forall>h \<in> set hs. hline_ok h \<and> fst (snd h) \<noteq> [] \<and> fst h \<in> {[CR, LF], [LF, LF]}) \<and>
     atoi (cstr (map_get (add_headers hs []) ''content-length'')) = int (length bd) \<and>
     map_of (add_headers hs []) ''Expect'' = None \<and> length (http_text l hs bd) < 2 ^ 64"

lemma no_CR_line: "hline_ok (sep, k, v) \<Longrightarrow> CR \<notin> set (k @ '': '' @ v)"
  by (auto simp: hline_ok_def CR_def isspace_def)

lemma first4_headers:
  assumes "\<forall>h \<in> set hs. hline_ok h \<and> fst (snd h) \<noteq> [] \<and> fst h \<in> {[CR, LF], [LF, LF]}"
  shows "first4 (concat (map hline hs) @ CRLF2 @ bd) = Some (length (concat (map hline hs)))"
  using assms
proof (induction hs)
  case Nil
  then show ?case by (simp add: CRLF2_def)
next
  case (Cons h hs)
  obtain sep k v where h: "h = (sep, k, v)" by (cases h)
  have ok: "hline_ok (sep, k, v)" "k \<noteq> []" "sep \<in> {[CR, LF], [LF, LF]}" using Cons.prems by (auto simp: h)
  note line = no_CR_line [OF ok(1)]
  let ?rest = "concat (map hline hs) @ CRLF2 @ bd"
  have f: "first4 ((k @ '': '' @ v) @ ?rest) = Some (length (k @ '': '' @ v) + length (concat (map hline hs)))"
    unfolding first4_skip [OF line] using Cons by simp
  obtain c k' where k: "k = c # k'" "c \<noteq> CR" using ok(2) line by (cases k) auto
  have "first4 (sep @ (k @ '': '' @ v) @ ?rest) = Some (2 + (length (k @ '': '' @ v) + length (concat (map hline hs))))"
  proof (cases "sep = [CR, LF]")
    case True
    then show ?thesis using f first4_break [OF k(2), of "k' @ '': '' @ v @ ?rest"] k(1) by (simp del: first4.simps)
  next
    case False
    then have "CR \<notin> set sep" "length sep = 2" using ok(3) by auto
    then show ?thesis unfolding first4_skip [OF \<open>CR \<notin> set sep\<close>] using f by simp
  qed
  moreover have "length sep = 2" using ok(3) by auto
  ultimately show ?case by (simp add: h hline_simp del: first4.simps)
qed

lemma first4_text:
  assumes "text_ok l hs bd"
  shows "first4 (http_text l hs bd) = Some (head_len l hs)"
proof -
  have "CR \<notin> set l" using assms by (auto simp: text_ok_def)
  then show ?thesis
    using first4_headers [of hs bd] assms by (simp add: http_text_def first4_skip head_len_def text_ok_def)
qed

section \<open>Decoding what was written\<close>

lemma first4_take_some: "first4 xs = Some n \<Longrightarrow> n + 4 \<le> j \<Longrightarrow> first4 (take j xs) = Some n"
proof (induction xs arbitrary: n j)
  case (Cons x xs)
  then obtain i where j: "j = Suc i" "3 \<le> i" by (cases j) auto
  then have t: "take 4 (x # take i xs) = take 4 (x # xs)" by (simp add: min_def numeral_eq_Suc)
  show ?case
  proof (cases "take 4 (x # xs) = CRLF2")
    case True
    then show ?thesis using Cons.prems(1) t j by simp
  next
    case False
    then show ?thesis using Cons.prems Cons.IH [of "n - 1" i] t j by auto
  qed
qed simp

lemma http_text_split: "http_text l hs bd = (l @ concat (map hline hs)) @ CRLF2 @ bd"
  "length (http_text l hs bd) = head_len l hs + 4 + length bd"
  "drop (head_len l hs + 4) (http_text l hs bd) = bd"
  "take (head_len l hs) (http_text l hs bd) = l @ concat (map hline hs)"
  by (simp_all add: http_text_def head_len_def CRLF2_def)

definition headed :: "string \<Rightarrow> (string \<times> string \<times> string) list \<Rightarrow> string \<Rightarrow> 'a http_msg_scheme \<Rightarrow> 'a http_msg_scheme" where
  "headed l hs bd m = m\<lparr>headers := add_headers hs [], scanned := int (head_len l hs + 4), contentLen := int (length bd)\<rparr>"

definition finished :: "string \<Rightarrow> (string \<times> string \<times> string) list \<Rightarrow> string \<Rightarrow> 'a http_msg_scheme \<Rightarrow> 'a http_msg_scheme" where
  "finished l hs bd m = (headed l hs bd m)\<lparr>body := bd, completed := True, scanned := int (length (http_text l hs bd))\<rparr>"

definition unread :: "nat \<Rightarrow> 'a http_msg_scheme \<Rightarrow> bool" where
  "unread s m \<longleftrightarrow> \<not> completed m \<and> contentLen m = 0 \<and> headers m = [] \<and> scanned m = int s"

lemma decode_scanning:
  assumes "text_ok l hs bd" "unread s m" "s \<le> head_len l hs" "j < head_len l hs + 4"
  shows "\<exists>s' \<le> head_len l hs. tryDecode0 (take j (http_text l hs bd)) True m =
           Inr (NotComplete, slice_of [], m\<lparr>scanned := int s'\<rparr>, take j (http_text l hs bd))"
proof -
  let ?b = "take j (http_text l hs bd)" and ?s = "max s (length (take j (http_text l hs bd)) - 3)"
  have "first4 (take (j - s) (drop s (http_text l hs bd))) = None"
    using first4_take [OF first4_drop [OF first4_text [OF assms(1)] assms(3)], of "j - s"] assms(3,4)
    by (cases "s \<le> j") auto
  then have "find_end ?b s = (False, ?s)" by (simp add: find_end_first4 drop_take)
  moreover have "?s \<le> head_len l hs" using assms(3,4) by auto
  ultimately show ?thesis
    using assms(2) by (intro exI [of _ ?s]) (simp add: tryDecode0_def unread_def)
qed

lemma take_body_text:
  assumes "text_ok l hs bd" "length b = j" "drop (head_len l hs + 4) b = take (j - (head_len l hs + 4)) bd"
    and "head_len l hs + 4 \<le> j" "j \<le> length (http_text l hs bd)" "\<not> completed m"
  shows "take_body True b (headed l hs bd m) = Inr (if j = length (http_text l hs bd) then (Complete, finished l hs bd m)
           else (NotComplete, headed l hs bd m))"
proof -
  have n: "int (length bd) + int (head_len l hs + 4) = int (length (http_text l hs bd))"
    by (simp add: http_text_split(2))
  have lt: "int (length (http_text l hs bd)) < 2 ^ 64" using assms(1) by (simp add: text_ok_def)
  have md: "(contentLen (headed l hs bd m) + scanned (headed l hs bd m)) mod 2 ^ 64 = int (length (http_text l hs bd))"
    "(scanned (headed l hs bd m) + contentLen (headed l hs bd m)) mod 2 ^ 64 = int (length (http_text l hs bd))"
    "scanned (headed l hs bd m) + contentLen (headed l hs bd m) = int (length (http_text l hs bd))"
    using n lt by (simp_all add: headed_def)
  show ?thesis
  proof (cases "j = length (http_text l hs bd)")
    case True
    then have "take (nat (contentLen (headed l hs bd m))) (drop (nat (scanned (headed l hs bd m))) b) = bd"
      using assms(3) http_text_split(2) [of l hs bd] by (simp add: headed_def nat_add_distrib)
    then show ?thesis
      using True assms(2,6) md unfolding take_body_def Let_def by (simp add: finished_def) (simp add: headed_def)
  next
    case False
    then show ?thesis using assms(2,5,6) md unfolding take_body_def by (simp add: headed_def)
  qed
qed

lemma decode_body:
  assumes "text_ok l hs bd" "length b = j" "drop (head_len l hs + 4) b = take (j - (head_len l hs + 4)) bd"
    and "head_len l hs + 4 \<le> j" "j \<le> length (http_text l hs bd)" "\<not> completed m" "bd \<noteq> []"
  shows "tryDecode0 b True (headed l hs bd m) = Inr (if j = length (http_text l hs bd)
      then (Complete, slice_of [], finished l hs bd m, b) else (NotComplete, slice_of [], headed l hs bd m, b))"
  using take_body_text [OF assms(1-6)] assms(6,7) by (simp add: tryDecode0_def headed_def)

lemma decode_head:
  assumes "text_ok l hs bd" "unread s m" "s \<le> head_len l hs" "head_len l hs + 4 \<le> j" "j \<le> length (http_text l hs bd)"
  shows "\<exists>l1 b'. tryDecode0 (take j (http_text l hs bd)) True m = Inr (if j = length (http_text l hs bd)
      then (Complete, l1, finished l hs bd m, b') else (NotComplete, l1, headed l hs bd m, b')) \<and>
      slice_ok l1 \<and> smem l1 = b' \<and> contents l1 = l \<and> length b' = j \<and> pb l1 = 0 \<and>
      drop (head_len l hs) b' = drop (head_len l hs) (take j (http_text l hs bd))"
proof -
  let ?t = "http_text l hs bd" and ?hl = "head_len l hs"
  let ?b = "take j ?t"
  have lt: "length ?t < 2 ^ 64" and l: "l \<noteq> []" "\<forall>c \<in> set l. c \<noteq> LF \<and> c \<noteq> CR" using assms(1) by (simp_all add: text_ok_def)
  have "first4 (drop s ?b) = Some (?hl - s)"
    using first4_take_some [OF first4_drop [OF first4_text [OF assms(1)] assms(3)], of "j - s"] assms(3,4) by (simp add: drop_take)
  then have fe: "find_end ?b s = (True, ?hl)" using assms(3) by (simp add: find_end_first4)
  have hl: "?hl \<noteq> 0" using l(1) by (simp add: head_len_def)
  let ?q = "slice_at ?b 0 (int ?hl)"
  have lb: "length ?b = j" using assms(5) by simp
  have q: "slice_ok ?q" "contents ?q = l @ concat (map hline hs)"
    using assms(4) lb http_text_split(4) [of l hs bd]
    by (simp_all add: slice_defs bytes_in_def min_def)
  have br: "concat (map hline hs) = [] \<or> hd (concat (map hline hs)) \<in> {CR, LF}"
    using hline_break [of hs] assms(1) by (auto simp: text_ok_def)
  obtain l0 rq where rq: "eatLine ?q = Inr (l0, rq)" "slice_ok l0" "slice_ok rq" "smem l0 = ?b" "smem rq = ?b" "pe rq = int ?hl"
      "pb l0 = 0" "pe l0 = pb rq" "contents l0 = l" "contents rq = concat (map hline hs)"
    using eatLine_spec [OF q(1)] q(2) takeWhile_line [OF l(2) br] by (auto simp: slice_at_def)
  obtain b' where b': "header_loop rq [] = Inr (True, add_headers hs [], b')" "length b' = j" "drop ?hl b' = drop ?hl ?b"
      "take (nat (pb rq)) b' = take (nat (pb rq)) ?b"
    using header_loop_all [OF rq(3) _ _ rq(10), of "[]"] rq(5,6) lb lt assms(1,5) by (auto simp: text_ok_def)
  let ?l1 = "l0\<lparr>smem := b'\<rparr>"
  have l1: "slice_ok ?l1" "contents ?l1 = l"
    using rq(2,4,7,8,9) b'(2,4) lb by (simp_all add: slice_ok_def contents_def bytes_in_def)
  have d4: "drop (?hl + 4) b' = take (j - (?hl + 4)) bd"
    using arg_cong [OF b'(3), of "drop 4"] http_text_split(3) [of l hs bd] by (simp add: drop_take add.commute)
  have sm: "(int ?hl + 4) mod 2 ^ 64 = int (?hl + 4)"
    using lt http_text_split(2) [of l hs bd] by simp
  have cl: "atoi (cstr (map_get (add_headers hs []) ''content-length'')) mod 2 ^ 64 = int (length bd)"
    using assms(1) lt http_text_split(2) [of l hs bd] by (simp add: text_ok_def)
  have ex: "map_get (add_headers hs []) ''Expect'' = []" using assms(1) by (simp add: text_ok_def map_get_def)
  have "\<not> completed m" using assms(2) by (simp add: unread_def)
  note tb = take_body_text [OF assms(1) b'(2) d4 assms(4,5) this]
  have "tryDecode0 ?b True m = rbind (take_body True b' (headed l hs bd m)) (\<lambda>(r, m4). Inr (r, ?l1, m4, b'))"
    using assms(2) fe hl rq(1) b'(1) sm cl ex
    by (simp add: tryDecode0_def unread_def getHeader_def headed_def Let_def)
  then show ?thesis using tb l1 b'(2,3) rq(7) by (intro exI [of _ ?l1] exI [of _ b']) simp
qed

section \<open>A message that arrives in pieces\<close>

text \<open>Each piece is appended to the block the decoder left, and the decoder runs on all of it, as the
  connection's read callback does.\<close>

fun feed :: "(string \<Rightarrow> bool \<Rightarrow> 'm \<Rightarrow> (http_result \<times> 'm \<times> string) res) \<Rightarrow> string list \<Rightarrow> string \<Rightarrow> 'm \<Rightarrow>
    (http_result list \<times> 'm) res" where
  "feed dec [] mem m = Inr ([], m)"
| "feed dec (c # cs) mem m =
     rbind (dec (mem @ c) True m) (\<lambda>(r, m', mem').
     rbind (feed dec cs mem' m') (\<lambda>(rs, m''). Inr (r # rs, m'')))"

text \<open>What requests and responses add to \<open>tryDecode_\<close>: they read a good first line into fields of their own.\<close>

locale first_line =
  fixes dec :: "string \<Rightarrow> bool \<Rightarrow> 'a http_msg_scheme \<Rightarrow> (http_result \<times> 'a http_msg_scheme \<times> string) res"
    and good :: "string \<Rightarrow> bool"
    and fill :: "string \<Rightarrow> 'a http_msg_scheme \<Rightarrow> 'a http_msg_scheme"
  assumes no_line: "tryDecode0 b True m = Inr (r, slice_of [], m1, b') \<Longrightarrow> dec b True m = Inr (r, m1, b')"
    and line: "tryDecode0 b True m = Inr (r, l1, m1, b') \<Longrightarrow> slice_ok l1 \<Longrightarrow> smem l1 = b' \<Longrightarrow>
      length b' < 2 ^ 64 \<Longrightarrow> contents l1 = l \<Longrightarrow> good l \<Longrightarrow> dec b True m = Inr (r, fill l m1, b')"
    and fill_keeps: "completed (fill l m) = completed m"
    and fill_commutes: "fill l (m\<lparr>headers := hs\<rparr>) = (fill l m)\<lparr>headers := hs\<rparr>"
      "fill l (m\<lparr>scanned := n\<rparr>) = (fill l m)\<lparr>scanned := n\<rparr>"
      "fill l (m\<lparr>contentLen := n\<rparr>) = (fill l m)\<lparr>contentLen := n\<rparr>"
      "fill l (m\<lparr>body := s\<rparr>) = (fill l m)\<lparr>body := s\<rparr>"
      "fill l (m\<lparr>completed := c\<rparr>) = (fill l m)\<lparr>completed := c\<rparr>"
begin

lemma fill_phases: "fill l (headed l' hs bd m) = headed l' hs bd (fill l m)"
  "fill l (finished l' hs bd m) = finished l' hs bd (fill l m)"
  by (simp_all add: headed_def finished_def fill_commutes)

lemma body_pieces:
  assumes "text_ok l hs bd" "bd \<noteq> []" "\<not> completed m" "head_len l hs + 4 \<le> length mem"
    and "drop (head_len l hs + 4) mem @ concat cs = bd" "cs \<noteq> []" "last cs \<noteq> []"
  shows "feed dec cs mem (headed l hs bd m) = Inr (replicate (length cs - 1) NotComplete @ [Complete], finished l hs bd m)"
  using assms(4-)
proof (induction cs arbitrary: mem)
  case (Cons c cs)
  let ?j = "length (mem @ c)" and ?n = "head_len l hs + 4"
  have t: "length (http_text l hs bd) = ?j + length (concat cs)"
    using arg_cong [OF Cons.prems(2), of length] Cons.prems(1) by (simp add: http_text_split(2))
  have d: "drop ?n (mem @ c) = take (?j - ?n) bd" using Cons.prems(1) unfolding Cons.prems(2) [symmetric] by simp
  have "?n \<le> ?j" "?j \<le> length (http_text l hs bd)" using Cons.prems(1) t by simp_all
  note dec = decode_body [OF assms(1) refl d this assms(3,2)]
  show ?case
  proof (cases "cs = []")
    case True
    then show ?thesis using no_line dec t by simp
  next
    case False
    then have ne: "?j \<noteq> length (http_text l hs bd)" using t Cons.prems(4) last_in_set [of cs] by auto
    have "dec (mem @ c) True (headed l hs bd m) = Inr (NotComplete, headed l hs bd m, mem @ c)"
      using no_line dec ne by simp
    moreover have "feed dec cs (mem @ c) (headed l hs bd m) =
        Inr (replicate (length cs - 1) NotComplete @ [Complete], finished l hs bd m)"
      using Cons.IH [of "mem @ c"] Cons.prems False by simp
    moreover have "Suc (length cs - 1) = length cs" using False by (cases cs) simp_all
    ultimately show ?thesis by (simp flip: replicate_Suc)
  qed
qed simp

lemma all_pieces:
  assumes "text_ok l hs bd" "good l" "unread s m" "s \<le> head_len l hs" "length mem < head_len l hs + 4"
    and "mem @ concat cs = http_text l hs bd" "cs \<noteq> []" "last cs \<noteq> []"
  shows "feed dec cs mem m = Inr (replicate (length cs - 1) NotComplete @ [Complete], finished l hs bd (fill l m))"
  using assms(3-)
proof (induction cs arbitrary: mem m s)
  case (Cons c cs)
  let ?j = "length (mem @ c)" and ?t = "http_text l hs bd"
  have mc: "mem @ c = take ?j ?t" unfolding Cons.prems(4) [symmetric] by simp
  have lt: "?j + length (concat cs) = length ?t" unfolding Cons.prems(4) [symmetric] by simp
  have cs: "cs \<noteq> [] \<Longrightarrow> concat cs \<noteq> []" "cs \<noteq> [] \<Longrightarrow> Suc (length cs - 1) = length cs"
    using Cons.prems(6) last_in_set [of cs] by auto
  show ?case
  proof (cases "?j < head_len l hs + 4")
    case True
    obtain s' where s': "s' \<le> head_len l hs" "tryDecode0 (mem @ c) True m = Inr (NotComplete, slice_of [], m\<lparr>scanned := int s'\<rparr>, mem @ c)"
      using decode_scanning [OF assms(1) Cons.prems(1,2) True] mc by auto
    have "cs \<noteq> []" using True lt by (auto simp: http_text_split(2))
    moreover have "unread s' (m\<lparr>scanned := int s'\<rparr>)" using Cons.prems(1) by (simp add: unread_def)
    ultimately have "feed dec cs (mem @ c) (m\<lparr>scanned := int s'\<rparr>) =
        Inr (replicate (length cs - 1) NotComplete @ [Complete], finished l hs bd (fill l (m\<lparr>scanned := int s'\<rparr>)))"
      using Cons.IH [of s' "m\<lparr>scanned := int s'\<rparr>" "mem @ c"] Cons.prems(4,6) s'(1) True by simp
    moreover have "finished l hs bd (fill l (m\<lparr>scanned := int s'\<rparr>)) = finished l hs bd (fill l m)"
      by (simp add: fill_commutes finished_def headed_def)
    ultimately show ?thesis using no_line [OF s'(2)] cs(2) \<open>cs \<noteq> []\<close> by (simp flip: replicate_Suc)
  next
    case False
    then have j: "head_len l hs + 4 \<le> ?j" "?j \<le> length ?t" using lt by simp_all
    obtain l1 b' where h: "tryDecode0 (take ?j ?t) True m = Inr (if ?j = length ?t
          then (Complete, l1, finished l hs bd m, b') else (NotComplete, l1, headed l hs bd m, b'))"
        "slice_ok l1" "smem l1 = b'" "contents l1 = l" "length b' = ?j"
        "drop (head_len l hs) b' = drop (head_len l hs) (take ?j ?t)"
      using decode_head [OF assms(1) Cons.prems(1,2) j] by blast
    have lb: "length b' < 2 ^ 64" using h(5) j(2) assms(1) by (simp add: text_ok_def)
    have nc: "\<not> completed (fill l m)" using Cons.prems(1) by (simp add: unread_def fill_keeps)
    show ?thesis
    proof (cases "cs = []")
      case True
      then have jt: "?j = length ?t" using lt by simp
      then show ?thesis using line [OF _ h(2,3) lb h(4) assms(2)] h(1) mc True by (simp add: fill_phases)
    next
      case ne: False
      then have jt: "?j \<noteq> length ?t" using lt cs(1) by auto
      then have d: "dec (mem @ c) True m = Inr (NotComplete, headed l hs bd (fill l m), b')"
        using line [OF _ h(2,3) lb h(4) assms(2)] h(1) mc by (simp add: fill_phases)
      have "drop (head_len l hs + 4) b' @ concat cs = drop (head_len l hs + 4) ((mem @ c) @ concat cs)"
        using arg_cong [OF h(6), of "drop 4"] j mc by (simp add: add.commute min_def)
      also have "\<dots> = bd" using Cons.prems(4) http_text_split(3) [of l hs bd] by simp
      finally have bd: "drop (head_len l hs + 4) b' @ concat cs = bd" .
      then have "bd \<noteq> []" using cs(1) [OF ne] by auto
      from body_pieces [OF assms(1) this nc _ bd ne] show ?thesis
        using d j(1) h(5) Cons.prems(6) ne cs(2) by (simp flip: replicate_Suc)
    qed
  qed
qed simp

end

section \<open>First lines\<close>

text \<open>The next word of a line and what follows it.\<close>

definition cut_word :: "string \<Rightarrow> string \<times> string" where
  "cut_word l = (takeWhile (\<lambda>c. \<not> isspace c) (dropWhile isspace l), dropWhile (\<lambda>c. \<not> isspace c) (dropWhile isspace l))"

lemma eatWord_cut:
  assumes "slice_ok s"
  obtains w t where "eatWord s = Inr (w, t)" "slice_ok w" "slice_ok t" "smem w = smem s" "smem t = smem s" "pe w = pb t"
    "contents w = fst (cut_word (contents s))" "contents t = snd (cut_word (contents s))"
  using eatWord_spec [OF assms] by (auto simp: cut_word_def)

lemma cut_word_app:
  assumes "\<forall>c \<in> set w. \<not> isspace c" "w \<noteq> []" "rest = [] \<or> isspace (hd rest)"
  shows "cut_word (w @ rest) = (w, rest)" "cut_word (CHR '' '' # w @ rest) = (w, rest)"
  using word_split [OF assms] by (simp_all add: cut_word_def)

text \<open>A status line: version, status, and whatever comes after a blank.\<close>

definition resp_line_ok :: "string \<Rightarrow> bool" where
  "resp_line_ok l \<longleftrightarrow> (let (w2, r2) = cut_word (snd (cut_word l)) in
     r2 \<noteq> [] \<and> w2 = int_string (atoi w2) \<and> - (2 ^ 31) \<le> atoi w2 \<and> atoi w2 < 2 ^ 31)"

definition resp_fill :: "string \<Rightarrow> http_response \<Rightarrow> http_response" where
  "resp_fill l m = (let (w1, r1) = cut_word l; (w2, r2) = cut_word r1 in
     m\<lparr>version := w1, status := atoi w2, statusWord := trim r2\<rparr>)"

lemma slice_rest:
  assumes "slice_ok w" "slice_ok t" "smem t = smem w" "pe w = pb t"
  shows "drop (nat (pb w)) (smem w) = contents w @ contents t @ drop (nat (pe t)) (smem w)"
proof -
  have split: "drop (nat (pb s)) (smem s) = contents s @ drop (nat (pe s)) (smem s)" if "slice_ok s" for s
  proof -
    have "drop (nat (pe s)) (smem s) = drop (nat (pe s - pb s)) (drop (nat (pb s)) (smem s))"
      using that by (simp add: slice_ok_def add.commute flip: nat_add_distrib)
    then show ?thesis unfolding contents_def bytes_in_def by (simp only: append_take_drop_id)
  qed
  show ?thesis using split [OF assms(1)] split [OF assms(2)] assms(3,4) by simp
qed

lemma atoi_in_block:
  assumes "w = int_string n" "- (2 ^ 31) \<le> n" "n < 2 ^ 31" "r \<noteq> []" "isspace (hd r)"
  shows "atoi (cstr (w @ r @ rest)) = n"
proof -
  obtain c r' where r: "r = c # r'" "isspace c" using assms(4,5) by (cases r) auto
  have c: "c \<noteq> CHR 0x00" "\<not> is_digit 10 c" using r(2) by (auto simp: isspace_def is_digit_range)
  have "cstr (w @ r @ rest) = w @ c # cstr (r' @ rest)"
    using int_string_plain(1) [of n] c(1) r(1) assms(1) by (subst cstr_app) (auto simp: cstr_def)
  moreover have "CHR 0x00 \<notin> set (c # cstr (r' @ rest))"
    using c(1) set_takeWhileD [of "CHR 0x00" "\<lambda>c. c \<noteq> CHR 0x00" "r' @ rest"] by (auto simp: cstr_def)
  ultimately show ?thesis using atoi_int_string [OF assms(2,3), of "c # cstr (r' @ rest)"] c(2) assms(1) by simp
qed

lemma snd_cut_word: "snd (cut_word l) = [] \<or> isspace (hd (snd (cut_word l)))"
  using hd_dropWhile [of "\<lambda>c. \<not> isspace c" "dropWhile isspace l"] by (auto simp: cut_word_def)

lemma resp_first_line:
  assumes "tryDecode0 b True m = Inr (r, l1, m1, b')" "slice_ok l1" "smem l1 = b'" "length b' < 2 ^ 64"
    "contents l1 = l" "resp_line_ok l"
  shows "resp_tryDecode b True m = Inr (r, resp_fill l m1, b')"
proof -
  obtain w1 t1 where t1: "eatWord l1 = Inr (w1, t1)" "slice_ok t1" "smem t1 = b'"
      "contents w1 = fst (cut_word l)" "contents t1 = snd (cut_word l)"
    using eatWord_cut [OF assms(2)] assms(3,5) by metis
  obtain w2 t2 where t2: "eatWord t1 = Inr (w2, t2)" "slice_ok w2" "slice_ok t2" "smem w2 = b'" "smem t2 = b'" "pe w2 = pb t2"
      "contents w2 = fst (cut_word (contents t1))" "contents t2 = snd (cut_word (contents t1))"
    using eatWord_cut [OF t1(2)] t1(3) by metis
  obtain t3 where t3: "trimSpace t2 = Inr t3" "contents t3 = trim (contents t2)" using trimSpace_spec [OF t2(3)] by auto
  have g: "contents t2 \<noteq> []" "contents w2 = int_string (atoi (contents w2))"
      "- (2 ^ 31) \<le> atoi (contents w2)" "atoi (contents w2) < 2 ^ 31"
    using assms(6) t1(5) t2(7,8) by (simp_all add: resp_line_ok_def split: prod.splits)
  have "atoi (cstr (drop (nat (pb w2)) (smem w2))) = atoi (contents w2)"
    unfolding slice_rest [OF t2(2,3) trans [OF t2(5) t2(4) [symmetric]] t2(6)]
    using atoi_in_block [OF g(2-4,1)] snd_cut_word [of "contents t1"] g(1) t2(8) by simp
  moreover have "l \<noteq> []" using g(1) t1(5) t2(8) by (auto simp: cut_word_def)
  then have "ssize l1 \<noteq> 0" using ssize_ok [OF assms(2)] assms(3-5) by simp
  ultimately show ?thesis
    using assms(1) t1(1,4,5) t2(1,7,8) t3 by (simp add: resp_tryDecode_def resp_fill_def split: prod.splits)
qed

interpretation rsp: first_line resp_tryDecode resp_line_ok resp_fill
proof unfold_locales
  show "resp_tryDecode b True m = Inr (r, m1, b')" if "tryDecode0 b True m = Inr (r, slice_of [], m1, b')" for b m r m1 b'
    using that by (simp add: resp_tryDecode_def slice_of_def ssize_def)
qed (rule resp_first_line; assumption | simp add: resp_fill_def split: prod.splits)+

text \<open>A request line: method, a query that begins with a slash, version.\<close>

definition req_line_ok :: "string \<Rightarrow> bool" where
  "req_line_ok l \<longleftrightarrow> take 1 (fst (cut_word (snd (cut_word l)))) = ''/''"

definition uri_of :: "string \<Rightarrow> string" where
  "uri_of q = takeWhile (\<lambda>c. c \<noteq> CHR ''?'') q"

definition args_of :: "string \<Rightarrow> (string \<times> string) list \<Rightarrow> (string \<times> string) list" where
  "args_of q as = parse_args (drop (length (uri_of q) + 1) q) as"

definition req_fill :: "string \<Rightarrow> http_request \<Rightarrow> http_request" where
  "req_fill l m = (let (w1, r1) = cut_word l; (w2, r2) = cut_word r1 in
     m\<lparr>rmethod := w1, query_uri := w2, version := fst (cut_word r2), uri := uri_of w2, args := args_of w2 (args m)\<rparr>)"

lemma uri_all: "uri_of q = q \<Longrightarrow> args_of q as = as"
  by (simp add: args_of_def parse_args.simps del: takeWhile_eq_all_conv)

lemma req_first_line:
  assumes "tryDecode0 b True m = Inr (r, l1, m1, b')" "slice_ok l1" "smem l1 = b'" "length b' < 2 ^ 64"
    "contents l1 = l" "req_line_ok l"
  shows "req_tryDecode b True m = Inr (r, req_fill l m1, b')"
proof -
  obtain w1 t1 where t1: "eatWord l1 = Inr (w1, t1)" "slice_ok t1"
      "contents w1 = fst (cut_word l)" "contents t1 = snd (cut_word l)"
    using eatWord_cut [OF assms(2)] assms(5) by metis
  obtain w2 t2 where t2: "eatWord t1 = Inr (w2, t2)" "slice_ok t2"
      "contents w2 = fst (cut_word (contents t1))" "contents t2 = snd (cut_word (contents t1))"
    using eatWord_cut [OF t1(2)] by metis
  obtain w3 t3 where t3: "eatWord t2 = Inr (w3, t3)" "contents w3 = fst (cut_word (contents t2))"
    using eatWord_cut [OF t2(2)] by metis
  have q: "take 1 (contents w2) = ''/''" using assms(6) t1(4) t2(3) by (simp add: req_line_ok_def)
  then have q': "contents w2 \<noteq> []" "hd (contents w2) = CHR ''/''" by (cases "contents w2"; simp)+
  then have "l \<noteq> []" using t1(4) t2(3) by (auto simp: cut_word_def)
  then have "ssize l1 \<noteq> 0" using ssize_ok [OF assms(2)] assms(3-5) by simp
  then show ?thesis
    using assms(1) t1(1,3,4) t2(1,3,4) t3 q' uri_all [of "contents w2"]
    by (simp add: req_tryDecode_def req_fill_def uri_of_def args_of_def Let_def del: takeWhile_eq_all_conv split: prod.splits)
qed

interpretation rqs: first_line req_tryDecode req_line_ok req_fill
proof unfold_locales
  show "req_tryDecode b True m = Inr (r, m1, b')" if "tryDecode0 b True m = Inr (r, slice_of [], m1, b')" for b m r m1 b'
    using that by (simp add: req_tryDecode_def slice_of_def ssize_def)
qed (rule req_first_line; assumption | simp add: req_fill_def split: prod.splits)+

section \<open>What an encoder writes\<close>

fun with_seps :: "string \<Rightarrow> (string \<times> string) list \<Rightarrow> (string \<times> string \<times> string) list" where
  "with_seps s [] = []"
| "with_seps s (kv # kvs) = (s, kv) # with_seps [CR, LF] kvs"

lemma map_snd_with_seps [simp]: "map snd (with_seps s kvs) = kvs"
  by (induction kvs arbitrary: s) simp_all

lemma seps_in: "h \<in> set (with_seps s kvs) \<Longrightarrow> (fst h = s \<or> fst h = [CR, LF]) \<and> snd h \<in> set kvs"
  by (induction kvs arbitrary: s) auto

lemma lines_with_seps:
  "kvs \<noteq> [] \<Longrightarrow> s @ concat (concat (map (\<lambda>(k, v). [k, '': '', v, [CR, LF]]) kvs)) = concat (map hline (with_seps s kvs)) @ [CR, LF]"
proof (induction kvs arbitrary: s)
  case (Cons kv kvs)
  show ?case
  proof (cases "kvs = []")
    case True
    then show ?thesis by (simp add: hline_def split: prod.splits)
  next
    case False
    then show ?thesis using Cons.IH [of "[CR, LF]"] by (simp add: hline_def split: prod.splits)
  qed
qed simp

text \<open>The headers on the wire.\<close>

definition sent_headers :: "'a http_msg_scheme \<Rightarrow> (string \<times> string) list" where
  "sent_headers m = headers m @ [(''Connection'', ''Keep-Alive''), (''Content-Length'', to_string (length (getBody m)))]"

text \<open>At most ten digits for a length an \<open>int\<close> can hold.\<close>

lemma length_to_string_pow: "n < 10 ^ Suc k \<Longrightarrow> length (to_string n) \<le> Suc k"
proof (induction k arbitrary: n)
  case 0
  then show ?case by (simp add: to_string.simps [of n])
next
  case (Suc k)
  then show ?case using Suc.IH [of "n div 10"] by (simp add: to_string.simps [of n])
qed

lemma pieces_text:
  assumes "length (getBody m) < 2 ^ 31"
  shows "s @ concat (header_pieces m) = concat (map hline (with_seps s (sent_headers m))) @ CRLF2 @ getBody m"
proof -
  have "length (to_string (length (getBody m))) \<le> 10" using length_to_string_pow [of "length (getBody m)" 9] assms by simp
  then have "concat (header_pieces m) =
      concat (concat (map (\<lambda>(k, v). [k, '': '', v, [CR, LF]]) (sent_headers m))) @ [CR, LF] @ getBody m"
    by (simp add: header_pieces_def sent_headers_def snprintf_def)
  then show ?thesis using lines_with_seps [of "sent_headers m" s] by (simp add: sent_headers_def CRLF2_def)
qed

section \<open>Messages that can be sent\<close>

text \<open>The fields of a message as the format carries them.\<close>

definition field_ok :: "string \<times> string \<Rightarrow> bool" where
  "field_ok kv \<longleftrightarrow> fst kv \<noteq> [] \<and> hline_ok ([CR, LF], kv)"

definition lowered :: "(string \<times> string) list \<Rightarrow> (string \<times> string) list" where
  "lowered kvs = map (\<lambda>(k, v). (map tolower k, v)) kvs"

definition msg_ok :: "'a http_msg_scheme \<Rightarrow> bool" where
  "msg_ok m \<longleftrightarrow> (\<forall>kv \<in> set (headers m). field_ok kv) \<and> distinct (map fst (lowered (sent_headers m))) \<and>
     length (getBody m) < 2 ^ 31 \<and> length (concat (header_pieces m)) < 2 ^ 63"

definition word_ok :: "string \<Rightarrow> bool" where
  "word_ok w \<longleftrightarrow> w \<noteq> [] \<and> (\<forall>c \<in> set w. \<not> isspace c \<and> c \<noteq> CHR 0x00)"

definition resp_line :: "http_response \<Rightarrow> string" where
  "resp_line m = version m @ '' '' @ int_string (status m) @ '' '' @ statusWord m"

definition resp_ok :: "http_response \<Rightarrow> bool" where
  "resp_ok m \<longleftrightarrow> msg_ok m \<and> word_ok (version m) \<and> - (2 ^ 31) \<le> status m \<and> status m < 2 ^ 31 \<and>
     trim (statusWord m) = statusWord m \<and> (\<forall>c \<in> set (statusWord m). c \<noteq> CHR 0x00 \<and> c \<noteq> CR \<and> c \<noteq> LF) \<and>
     length (resp_line m) + 2 < 1024"

definition req_line :: "http_request \<Rightarrow> string" where
  "req_line m = rmethod m @ '' '' @ query_uri m @ '' '' @ version m"

definition req_ok :: "http_request \<Rightarrow> bool" where
  "req_ok m \<longleftrightarrow> msg_ok m \<and> word_ok (rmethod m) \<and> word_ok (query_uri m) \<and> take 1 (query_uri m) = ''/'' \<and>
     word_ok (version m) \<and> length (req_line m) + 2 < 4096"

lemma add_headers_map:
  "mok acc \<Longrightarrow> distinct (map fst (lowered (map snd hs))) \<Longrightarrow>
   map_of (add_headers hs acc) = map_of acc ++ map_of (lowered (map snd hs)) \<and> mok (add_headers hs acc)"
proof (induction hs arbitrary: acc)
  case (Cons h hs)
  obtain s k v where h: "h = (s, k, v)" by (cases h)
  have "mok (mput (map tolower k) v acc)" using Cons.prems(1) by simp
  moreover have "map_of (lowered (map snd hs)) (map tolower k) = None"
    using Cons.prems(2) by (simp add: h lowered_def map_of_eq_None_iff image_image)
  moreover have "distinct (map fst (lowered (map snd hs)))" using Cons.prems(2) by (simp add: lowered_def h)
  ultimately have "map_of (add_headers (h # hs) acc) = (map_of acc ++ map_of (lowered (map snd hs)))(map tolower k \<mapsto> v)"
      "mok (add_headers (h # hs) acc)"
    using Cons.IH [of "mput (map tolower k) v acc"] Cons.prems(1)
    by (auto simp: h add_headers_def map_add_def fun_eq_iff)
  then show ?case by (simp add: h lowered_def map_add_def fun_eq_iff)
qed (simp add: add_headers_def lowered_def)

lemma tolower_no_upper: "tolower c \<noteq> CHR ''E''"
proof
  assume a: "tolower c = CHR ''E''"
  then have n: "(of_char (tolower c) :: nat) = 69" by simp
  show False
  proof (cases "65 \<le> (of_char c :: nat) \<and> (of_char c :: nat) \<le> 90")
    case True
    then show ?thesis using n by (simp add: tolower_def Let_def)
  next
    case False
    then show ?thesis using n by (auto simp: tolower_def Let_def split: if_splits)
  qed
qed

lemma fixed_fields: "field_ok (''Connection'', ''Keep-Alive'')" "field_ok (''Content-Length'', to_string n)"
proof -
  have "\<forall>c \<in> set (to_string n). \<not> isspace c \<and> c \<noteq> CR \<and> c \<noteq> LF" "to_string n \<noteq> []"
    using int_string_plain [of "int n"] by (auto simp: int_string_def)
  then show "field_ok (''Content-Length'', to_string n)" by (auto simp: field_ok_def hline_ok_def isspace_def)
qed (simp add: field_ok_def hline_ok_def isspace_def CR_def LF_def)

lemma msg_text_ok:
  assumes "msg_ok m" "s \<in> {[CR, LF], [LF, LF]}" "l \<noteq> []" "\<forall>c \<in> set l. c \<noteq> LF \<and> c \<noteq> CR" "length l < 2 ^ 62"
  shows "text_ok l (with_seps s (sent_headers m)) (getBody m)"
    "map_of (add_headers (with_seps s (sent_headers m)) []) = map_of (lowered (sent_headers m))"
proof -
  let ?hs = "with_seps s (sent_headers m)" and ?n = "length (getBody m)"
  have m: "distinct (map fst (lowered (sent_headers m)))" "?n < 2 ^ 31" using assms(1) by (simp_all add: msg_ok_def)
  show ad: "map_of (add_headers ?hs []) = map_of (lowered (sent_headers m))"
    using add_headers_map [of "[]" ?hs] m(1) by simp
  have f: "\<forall>kv \<in> set (sent_headers m). field_ok kv"
    using assms(1) fixed_fields by (auto simp: msg_ok_def sent_headers_def)
  have h: "\<forall>h \<in> set ?hs. hline_ok h \<and> fst (snd h) \<noteq> [] \<and> fst h \<in> {[CR, LF], [LF, LF]}"
  proof
    fix h assume "h \<in> set ?hs"
    from seps_in [OF this] f assms(2)
    show "hline_ok h \<and> fst (snd h) \<noteq> [] \<and> fst h \<in> {[CR, LF], [LF, LF]}"
      by (cases h) (auto simp: field_ok_def hline_ok_def)
  qed
  have "(map tolower ''Content-Length'', to_string ?n) \<in> set (lowered (sent_headers m))"
    by (simp add: lowered_def sent_headers_def)
  then have "map_of (lowered (sent_headers m)) (map tolower ''Content-Length'') = Some (to_string ?n)"
    using m(1) by simp
  moreover have "map tolower ''Content-Length'' = ''content-length''" by code_simp
  ultimately have "map_get (add_headers ?hs []) ''content-length'' = int_string (int ?n)"
    using ad by (simp add: map_get_def int_string_def)
  moreover have "cstr (int_string (int ?n)) = int_string (int ?n)"
    using cstr_app [of "int_string (int ?n)" "[]"] int_string_plain(1) [of "int ?n"] by (auto simp: cstr_def)
  ultimately have cl: "atoi (cstr (map_get (add_headers ?hs []) ''content-length'')) = int ?n"
    using atoi_int_string [of "int ?n" "[]"] m(2) by simp
  have "''Expect'' \<notin> fst ` set (lowered (sent_headers m))" by (auto simp: lowered_def tolower_no_upper [symmetric])
  then have ex: "map_of (add_headers ?hs []) ''Expect'' = None" unfolding ad by (simp add: map_of_eq_None_iff)
  have "length (s @ concat (header_pieces m)) = length (concat (map hline ?hs) @ CRLF2 @ getBody m)"
    using pieces_text [OF m(2), of s] by simp
  then have "length (http_text l ?hs (getBody m)) < 2 ^ 64"
    using assms(1,2,5) by (auto simp: http_text_def msg_ok_def)
  then show "text_ok l ?hs (getBody m)" using assms(3,4) h cl ex unfolding text_ok_def by blast
qed

section \<open>Round trips\<close>

lemma resp_line_parts:
  assumes "resp_ok m"
  shows "resp_line m \<noteq> []" "\<forall>c \<in> set (resp_line m). c \<noteq> LF \<and> c \<noteq> CR" "resp_line_ok (resp_line m)"
    "resp_fill (resp_line m) m' = m'\<lparr>version := version m, status := status m, statusWord := statusWord m\<rparr>"
proof -
  have r: "word_ok (version m)" "- (2 ^ 31) \<le> status m" "status m < 2 ^ 31" "trim (statusWord m) = statusWord m"
      "\<forall>c \<in> set (statusWord m). c \<noteq> CR \<and> c \<noteq> LF"
    using assms by (simp_all add: resp_ok_def)
  have v: "\<forall>c \<in> set (version m). \<not> isspace c" "version m \<noteq> []" using r(1) by (simp_all add: word_ok_def)
  have n: "\<forall>c \<in> set (int_string (status m)). \<not> isspace c" "int_string (status m) \<noteq> []"
    using int_string_plain [of "status m"] by auto
  have c1: "cut_word (resp_line m) = (version m, '' '' @ int_string (status m) @ '' '' @ statusWord m)"
    unfolding resp_line_def by (rule cut_word_app) (use v in simp_all)
  have c2: "cut_word ('' '' @ int_string (status m) @ '' '' @ statusWord m) = (int_string (status m), '' '' @ statusWord m)"
    using cut_word_app(2) [OF n, of "'' '' @ statusWord m"] by simp
  have st: "atoi (int_string (status m)) = status m" using atoi_int_string [OF r(2,3), of "[]"] by simp
  have tr: "trim ('' '' @ statusWord m) = statusWord m" using r(4) by (simp add: trim_def)
  show "resp_line_ok (resp_line m)" using c1 c2 st r(2,3) by (simp add: resp_line_ok_def)
  show "resp_fill (resp_line m) m' = m'\<lparr>version := version m, status := status m, statusWord := statusWord m\<rparr>"
    using c1 c2 st tr by (simp add: resp_fill_def)
  have "\<forall>c \<in> set (version m). c \<noteq> LF \<and> c \<noteq> CR" using v(1) isspace_http(1,2) by metis
  moreover have "\<forall>c \<in> set '' ''. c \<noteq> LF \<and> c \<noteq> CR" by (simp add: LF_def CR_def)
  ultimately show "\<forall>c \<in> set (resp_line m). c \<noteq> LF \<and> c \<noteq> CR"
    using r(5) int_string_plain(1) [of "status m"] unfolding resp_line_def set_append by blast
  show "resp_line m \<noteq> []" using v(2) by (simp add: resp_line_def)
qed

lemma cstr_id: "\<forall>c \<in> set s. c \<noteq> CHR 0x00 \<Longrightarrow> cstr s = s"
  using cstr_app [of s "[]"] by (auto simp: cstr_def)

lemma encoded_text:
  assumes "msg_ok m"
  shows "\<exists>out. appends_with bappend ((l @ s) # header_pieces m) buf_new = Inr out \<and> bsize out - bsize buf_new = length (bytes out) \<and>
           bytes out = http_text l (with_seps s (sent_headers m)) (getBody m)"
proof -
  obtain out where out: "appends_with bappend ((l @ s) # header_pieces m) buf_new = Inr out" "buffer_ok out"
      "bytes out = l @ s @ concat (header_pieces m)"
    using bq.appends_law [OF buf_new_ok(1), of "(l @ s) # header_pieces m"] by auto
  moreover have "bytes out = http_text l (with_seps s (sent_headers m)) (getBody m)"
    using out(3) pieces_text [of m s] assms by (simp add: http_text_def msg_ok_def)
  ultimately show ?thesis using bsize_bytes [OF out(2)] bsize_bytes [OF buf_new_ok(1)] by auto
qed

lemma resp_encode_text:
  assumes "resp_ok m"
  shows "\<exists>out. resp_encode m buf_new = Inr (length (bytes out), out) \<and>
           bytes out = http_text (resp_line m) (with_seps [CR, LF] (sent_headers m)) (getBody m)"
proof -
  have "snprintf 1024 (cstr (version m) @ '' '' @ int_string (status m) @ '' '' @ cstr (statusWord m) @ [CR, LF]) = resp_line m @ [CR, LF]"
  proof -
    have "cstr (version m) = version m" "cstr (statusWord m) = statusWord m" "length (resp_line m @ [CR, LF]) \<le> 1024 - 1"
      using assms by (simp_all add: resp_ok_def word_ok_def cstr_id)
    then show ?thesis unfolding snprintf_def by (simp only: take_all append_assoc resp_line_def)
  qed
  then show ?thesis
    using encoded_text [of m "resp_line m" "[CR, LF]"] assms unfolding resp_encode_def resp_ok_def by fastforce
qed

lemma req_encode_text:
  assumes "req_ok m"
  shows "\<exists>out. req_encode m buf_new = Inr (length (bytes out), out) \<and>
           bytes out = http_text (req_line m) (with_seps [LF, LF] (sent_headers m)) (getBody m)"
proof -
  have "snprintf 4096 (cstr (rmethod m) @ '' '' @ cstr (query_uri m) @ '' '' @ cstr (version m) @ [LF, LF]) = req_line m @ [LF, LF]"
  proof -
    have "cstr (rmethod m) = rmethod m" "cstr (query_uri m) = query_uri m" "cstr (version m) = version m"
        "length (req_line m @ [LF, LF]) \<le> 4096 - 1"
      using assms by (simp_all add: req_ok_def word_ok_def cstr_id)
    then show ?thesis unfolding snprintf_def by (simp only: take_all append_assoc req_line_def)
  qed
  then show ?thesis
    using encoded_text [of m "req_line m" "[LF, LF]"] assms unfolding req_encode_def req_ok_def by fastforce
qed

lemma req_line_parts:
  assumes "req_ok m"
  shows "req_line m \<noteq> []" "\<forall>c \<in> set (req_line m). c \<noteq> LF \<and> c \<noteq> CR" "req_line_ok (req_line m)"
    "req_fill (req_line m) m' = m'\<lparr>rmethod := rmethod m, query_uri := query_uri m, version := version m,
       uri := uri_of (query_uri m), args := args_of (query_uri m) (args m')\<rparr>"
proof -
  have w: "\<forall>c \<in> set (rmethod m). \<not> isspace c" "rmethod m \<noteq> []" "\<forall>c \<in> set (query_uri m). \<not> isspace c" "query_uri m \<noteq> []"
      "\<forall>c \<in> set (version m). \<not> isspace c" "version m \<noteq> []" "take 1 (query_uri m) = ''/''"
    using assms by (simp_all add: req_ok_def word_ok_def)
  have c1: "cut_word (req_line m) = (rmethod m, '' '' @ query_uri m @ '' '' @ version m)"
    unfolding req_line_def by (rule cut_word_app) (use w in simp_all)
  have c2: "cut_word ('' '' @ query_uri m @ '' '' @ version m) = (query_uri m, '' '' @ version m)"
    using cut_word_app(2) [OF w(3,4), of "'' '' @ version m"] by simp
  have c3: "cut_word ('' '' @ version m) = (version m, [])" using cut_word_app(2) [OF w(5,6), of "[]"] by simp
  show "req_line_ok (req_line m)" using c1 c2 w(7) by (simp add: req_line_ok_def)
  show "req_fill (req_line m) m' = m'\<lparr>rmethod := rmethod m, query_uri := query_uri m, version := version m,
       uri := uri_of (query_uri m), args := args_of (query_uri m) (args m')\<rparr>"
    using c1 c2 c3 by (simp add: req_fill_def)
  have "\<forall>c \<in> set '' ''. c \<noteq> LF \<and> c \<noteq> CR" by (simp add: LF_def CR_def)
  then show "\<forall>c \<in> set (req_line m). c \<noteq> LF \<and> c \<noteq> CR"
    using w(1,3,5) isspace_http(1,2) unfolding req_line_def set_append by (metis UnE)
  show "req_line m \<noteq> []" using w(2) by (simp add: req_line_def)
qed

text \<open>C17. \<open>HttpResponse::encode\<close> and \<open>HttpResponse::tryDecode\<close> are a round trip
  over a byte stream. For every response whose fields the format can carry, however the encoded bytes
  are cut into reads, the decoder of a cleared response answers \<open>NotComplete\<close> on every read but the last
  and \<open>Complete\<close> on the last; the message then has the version, status, status word and body that were
  sent, the sent headers under lower-case names, and has consumed exactly the bytes that were written.\<close>

theorem http_response_transfer:
  assumes "resp_ok m" "resp_encode m buf_new = Inr (n, out)" "concat cs = bytes out" "cs \<noteq> []" "last cs \<noteq> []"
  shows "\<exists>m'. feed resp_tryDecode cs [] (resp_clear m0) = Inr (replicate (length cs - 1) NotComplete @ [Complete], m') \<and>
      version m' = version m \<and> status m' = status m \<and> statusWord m' = statusWord m \<and> getBody m' = getBody m \<and>
      map_of (headers m') = map_of (lowered (sent_headers m)) \<and> scanned m' = int n"
proof -
  let ?hs = "with_seps [CR, LF] (sent_headers m)" and ?l = "resp_line m"
  note l = resp_line_parts [OF assms(1)]
  have ok: "msg_ok m" "length ?l < 2 ^ 62" using assms(1) by (simp_all add: resp_ok_def)
  have t: "text_ok ?l ?hs (getBody m)" "map_of (add_headers ?hs []) = map_of (lowered (sent_headers m))"
    using msg_text_ok [OF ok(1) _ l(1,2) ok(2)] by simp_all
  have out: "n = length (http_text ?l ?hs (getBody m))" "concat cs = http_text ?l ?hs (getBody m)"
    using resp_encode_text [OF assms(1)] assms(2,3) by auto
  have u: "unread 0 (resp_clear m0)" by (simp add: unread_def resp_clear_def msg_clear_def)
  have "feed resp_tryDecode cs [] (resp_clear m0) = Inr (replicate (length cs - 1) NotComplete @ [Complete],
      finished ?l ?hs (getBody m) (resp_fill ?l (resp_clear m0)))"
    using rsp.all_pieces [OF t(1) l(3) u _ _ _ assms(4,5), of "[]"] out(2) by simp
  then show ?thesis
    using t(2) out(1) unfolding l(4) by (simp add: finished_def headed_def getBody_def resp_clear_def msg_clear_def)
qed

lemma request_arrives:
  assumes "req_ok m" "req_encode m buf_new = Inr (n, out)" "concat cs = bytes out" "cs \<noteq> []" "last cs \<noteq> []"
  shows "\<exists>m'. feed req_tryDecode cs [] (req_clear m0) = Inr (replicate (length cs - 1) NotComplete @ [Complete], m') \<and>
      rmethod m' = rmethod m \<and> query_uri m' = query_uri m \<and> version m' = version m \<and> getBody m' = getBody m \<and>
      uri m' = uri_of (query_uri m) \<and> args m' = args_of (query_uri m) [] \<and>
      map_of (headers m') = map_of (lowered (sent_headers m)) \<and> scanned m' = int n"
proof -
  let ?hs = "with_seps [LF, LF] (sent_headers m)" and ?l = "req_line m"
  note l = req_line_parts [OF assms(1)]
  have ok: "msg_ok m" "length ?l < 2 ^ 62" using assms(1) by (simp_all add: req_ok_def)
  have t: "text_ok ?l ?hs (getBody m)" "map_of (add_headers ?hs []) = map_of (lowered (sent_headers m))"
    using msg_text_ok [OF ok(1) _ l(1,2) ok(2)] by simp_all
  have out: "n = length (http_text ?l ?hs (getBody m))" "concat cs = http_text ?l ?hs (getBody m)"
    using req_encode_text [OF assms(1)] assms(2,3) by auto
  have u: "unread 0 (req_clear m0)" by (simp add: unread_def req_clear_def msg_clear_def)
  have "feed req_tryDecode cs [] (req_clear m0) = Inr (replicate (length cs - 1) NotComplete @ [Complete],
      finished ?l ?hs (getBody m) (req_fill ?l (req_clear m0)))"
    using rqs.all_pieces [OF t(1) l(3) u _ _ _ assms(4,5), of "[]"] out(2) by simp
  then show ?thesis
    using t(2) out(1) unfolding l(4) by (simp add: finished_def headed_def getBody_def req_clear_def msg_clear_def)
qed

text \<open>C18. \<open>HttpRequest::encode\<close> and \<open>HttpRequest::tryDecode\<close> are a round trip
  over a byte stream: for every request the format can carry and every cut of its bytes into reads, the
  decoder answers \<open>NotComplete\<close> until the last read and then \<open>Complete\<close>, with the method, query, version
  and body that were sent and the sent headers under lower-case names; the part of the query before its
  question mark is the path, and the parsed rest is the arguments.\<close>

theorem http_request_transfer:
  assumes "req_ok m" "req_encode m buf_new = Inr (n, out)" "concat cs = bytes out" "cs \<noteq> []" "last cs \<noteq> []"
  shows "\<exists>m'. feed req_tryDecode cs [] (req_clear m0) = Inr (replicate (length cs - 1) NotComplete @ [Complete], m') \<and>
      rmethod m' = rmethod m \<and> query_uri m' = query_uri m \<and> version m' = version m \<and> getBody m' = getBody m \<and>
      uri m' = uri_of (query_uri m) \<and> args m' = args_of (query_uri m) [] \<and>
      map_of (headers m') = map_of (lowered (sent_headers m)) \<and> scanned m' = int n"
  using request_arrives [OF assms] .

definition sample_response :: http_response where
  "sample_response = \<lparr>headers = [(''Server'', ''x'')], version = ''HTTP/1.1'', body = ''hi'', body2 = [], completed = False,
     contentLen = 0, scanned = 0, statusWord = ''OK'', status = 200\<rparr>"

definition sample_request :: http_request where
  "sample_request = \<lparr>headers = [(''Host'', ''h'')], version = ''HTTP/1.1'', body = [], body2 = [], completed = False,
     contentLen = 0, scanned = 0, args = [], rmethod = ''GET'', uri = [], query_uri = ''/a?k=v''\<rparr>"

lemma sample_keys: "distinct (map fst (lowered (sent_headers sample_response)))" "distinct (map fst (lowered (sent_headers sample_request)))"
  by code_simp+

lemma sample_lines: "length (resp_line sample_response) = 15" "length (req_line sample_request) = 19"
    "trim (statusWord sample_response) = statusWord sample_response"
  by code_simp+

lemma sample_fields: "list_all field_ok (headers sample_response)" "list_all field_ok (headers sample_request)"
    "list_all (\<lambda>c. c \<noteq> CHR 0x00 \<and> c \<noteq> CR \<and> c \<noteq> LF) (statusWord sample_response)"
    "word_ok (version sample_response)" "word_ok (rmethod sample_request)" "word_ok (query_uri sample_request)" "word_ok (version sample_request)"
  by code_simp+

lemma sample_sizes: "length (concat (header_pieces sample_response)) = 58" "length (concat (header_pieces sample_request)) = 54"
    "getBody sample_response = ''hi''" "getBody sample_request = []"
  by code_simp+

lemma samples_ok: "resp_ok sample_response" "req_ok sample_request"
proof -
  have "msg_ok sample_response" "msg_ok sample_request"
    using sample_keys sample_fields(1,2) sample_sizes by (simp_all add: msg_ok_def list_all_iff)
  then show "resp_ok sample_response" "req_ok sample_request"
    using sample_lines sample_fields(3-)
    by (simp_all add: resp_ok_def req_ok_def list_all_iff) (simp_all add: sample_response_def sample_request_def)
qed

lemma sample_text: "20 < length (http_text (resp_line sample_response) (with_seps [CR, LF] (sent_headers sample_response)) ''hi'')"
  by (simp add: http_text_split(2) head_len_def sample_lines)

theorem http_response_transfer_witness:
  "\<exists>n out m'. resp_encode sample_response buf_new = Inr (n, out) \<and>
     feed resp_tryDecode [take 20 (bytes out), drop 20 (bytes out)] [] (resp_clear sample_response) = Inr ([NotComplete, Complete], m') \<and>
     status m' = 200 \<and> getBody m' = ''hi''"
proof -
  obtain out where out: "resp_encode sample_response buf_new = Inr (length (bytes out), out)" "20 < length (bytes out)"
    using resp_encode_text [OF samples_ok(1)] sample_text sample_sizes(3) by auto
  from http_response_transfer [OF samples_ok(1) out(1), of "[take 20 (bytes out), drop 20 (bytes out)]" sample_response] out
  show ?thesis using sample_sizes(3) by (auto simp: sample_response_def)
qed

theorem http_request_transfer_witness:
  "\<exists>n out m'. req_encode sample_request buf_new = Inr (n, out) \<and>
     feed req_tryDecode [take 18 (bytes out), drop 18 (bytes out)] [] (req_clear sample_request) = Inr ([NotComplete, Complete], m') \<and>
     rmethod m' = ''GET'' \<and> uri m' = ''/a'' \<and> args m' = [(''k'', ''v'')]"
proof -
  obtain out where out: "req_encode sample_request buf_new = Inr (length (bytes out), out)" "18 < length (bytes out)"
    using req_encode_text [OF samples_ok(2)] sample_lines(2) by (auto simp: http_text_split(2) head_len_def)
  have q: "uri_of (query_uri sample_request) = ''/a''" "args_of (query_uri sample_request) [] = [(''k'', ''v'')]"
    by code_simp+
  from http_request_transfer [OF samples_ok(2) out(1), of "[take 18 (bytes out), drop 18 (bytes out)]" sample_request] out
  show ?thesis using q by (auto simp: sample_request_def)
qed

section \<open>Continue and the length of the body\<close>

text \<open>Header names are stored in lower case.\<close>

definition lower_keys :: "(string \<times> string) list \<Rightarrow> bool" where
  "lower_keys hs \<longleftrightarrow> (\<forall>kv \<in> set hs. CHR ''E'' \<notin> set (fst kv))"

lemma lower_keys_mput: "lower_keys hs \<Longrightarrow> lower_keys (mput (map tolower k) v hs)"
  using set_mput [of "map tolower k" v hs] tolower_no_upper by (fastforce simp: lower_keys_def)

lemma lowered_key:
  assumes "slice_ok k" "ssize k \<noteq> 0"
  shows "\<exists>w. contents (ssub 0 (- 1) (k\<lparr>smem := lower_range (smem k) (pb k) (pe k)\<rparr>)) = map tolower w"
proof -
  have r: "0 \<le> pb k" "pb k \<le> pe k" "pe k \<le> int (length (smem k))" using assms(1) by (auto simp: slice_ok_def)
  have "nat (pe k - 1 - pb k) \<le> nat (pe k - pb k)" by simp
  then have "bytes_in (lower_range (smem k) (pb k) (pe k)) (pb k) (pe k - 1) =
      take (nat (pe k - 1 - pb k)) (bytes_in (lower_range (smem k) (pb k) (pe k)) (pb k) (pe k))"
    by (simp add: bytes_in_def min_def)
  then show ?thesis unfolding lower_range_in [OF r] by (simp add: ssub_def contents_def take_map) blast
qed

lemma eat_past: "\<not> slice_ok (snd (eat 2 req)) \<Longrightarrow> slice_ok req \<Longrightarrow> eatLine (snd (eat 2 req)) = Inr (ln, req1) \<Longrightarrow> pb ln = pe ln"
  using eatLine_ge [of "snd (eat 2 req)" ln req1] by (auto simp: slice_ok_def eat_def)

lemma header_loop_lower:
  "header_loop req hs = Inr (g, hs', b') \<Longrightarrow> slice_ok req \<Longrightarrow>
   (lower_keys hs \<longrightarrow> lower_keys hs') \<and> length b' = length (smem req)"
proof (induction req hs arbitrary: g hs' b' rule: header_loop.induct)
  case (1 req hs)
  show ?case
  proof (cases "ssize req = 0")
    case True
    then show ?thesis using "1.prems" by (auto simp: header_loop.simps [of req])
  next
    case False
    then obtain ln req1 k ln1 ln2 colon where s: "eatLine (snd (eat 2 req)) = Inr (ln, req1)" "eatWord ln = Inr (k, ln1)"
        "trimSpace ln1 = Inr ln2"
        "(if ssize k \<noteq> 0 \<and> ssize ln2 \<noteq> 0 then rbind (sback k) (\<lambda>c. Inr (c = CHR '':'')) else Inr False) = Inr colon"
      and h: "(if colon then (let m = lower_range (smem k) (pb k) (pe k) in header_loop (req1\<lparr>smem := m\<rparr>)
                     (mput (contents (ssub 0 (- 1) (k\<lparr>smem := m\<rparr>))) (contents (ln2\<lparr>smem := m\<rparr>)) hs))
          else if sempty k \<and> sempty ln2 \<and> sempty req1 then Inr (True, hs, smem req1) else Inr (False, hs, smem req1)) = Inr (g, hs', b')"
      using "1.prems"(1) by (auto simp: header_loop.simps [of req])
    have len: "smem req1 = smem req \<and> smem ln = smem req" using s(1) by (auto simp: eatLine_def eat_def slice_at_def)
    show ?thesis
    proof (cases colon)
      case False
      then show ?thesis using h len by (auto split: if_splits)
    next
      case c: True
      then have k: "ssize k \<noteq> 0" using s(4) by (auto split: if_splits)
      then have "pb k \<noteq> pe k" by (auto simp: ssize_def)
      then have "slice_ok (snd (eat 2 req))"
        using eat_past [OF _ "1.prems"(2) s(1)] eatWord_empty [OF s(2)] by blast
      from eatLine_spec [OF this] s(1) have ln: "slice_ok ln" "slice_ok req1" by auto
      from eatWord_spec [OF ln(1)] s(2) have kk: "slice_ok k" "smem k = smem ln" by auto
      obtain w where w: "contents (ssub 0 (- 1) (k\<lparr>smem := lower_range (smem k) (pb k) (pe k)\<rparr>)) = map tolower w"
        using lowered_key [OF kk(1) k] by blast
      have l: "length (lower_range (smem k) (pb k) (pe k)) = length (smem req)"
        using kk len length_lower_range by (auto simp: slice_ok_def)
      then have "slice_ok (req1\<lparr>smem := lower_range (smem k) (pb k) (pe k)\<rparr>)"
        using ln(2) len by (simp add: slice_ok_def)
      from "1.IH" [OF False s(1) refl s(2) refl s(3) s(4) c refl _ this] show ?thesis
        using h c w l lower_keys_mput [of hs w] by (simp add: Let_def)
    qed
  qed
qed

text \<open>A call either meets the end of the head or takes one of the other exits.\<close>

lemma decode_cases:
  assumes "tryDecode0 b c m = Inr (r, l, m', b')"
  obtains (done_or_waiting) "b' = b" "headers m' = headers m" "r \<noteq> Continue100"
  | (head) req g where "slice_ok req" "smem req = b" "header_loop req (headers m) = Inr (g, headers m', b')"
      "r = Continue100 \<Longrightarrow> getHeader ''Expect'' m' \<noteq> []"
proof -
  have tb: "take_body c x (n :: 'a http_msg_scheme) = Inr (r', n') \<Longrightarrow> r' \<noteq> Continue100 \<and> headers n' = headers n" for x n r' n'
    by (auto simp: take_body_def Let_def split: if_splits)
  show thesis
  proof (cases "completed m \<or> contentLen m \<noteq> 0")
    case True
    show thesis
    proof (cases "completed m")
      case c: True
      then show thesis using assms done_or_waiting by (auto simp: tryDecode0_def)
    next
      case nc: False
      then have "take_body c b m = Inr (r, m')" "b' = b" using True assms by (auto simp: tryDecode0_def)
      then show thesis using tb [of b m r m'] done_or_waiting by simp
    qed
  next
    case False
    obtain found sc where fe: "find_end b (nat (scanned m)) = (found, sc)" by (cases "find_end b (nat (scanned m))")
    show thesis
    proof (cases "\<not> found \<or> sc = 0")
      case True
      then show thesis using assms False fe done_or_waiting by (auto simp: tryDecode0_def)
    next
      case f: False
      then have "sc + 4 \<le> length b" using fe first4_some by (fastforce simp: find_end_first4 split: option.splits)
      then have q: "slice_ok (slice_at b 0 (int sc))" by (simp add: slice_defs)
      obtain l1 req where e: "eatLine (slice_at b 0 (int sc)) = Inr (l1, req)" "slice_ok req" "smem req = b"
        using eatLine_spec [OF q] by (auto simp: slice_at_def)
      obtain g hs b1 where h: "header_loop req (headers m) = Inr (g, hs, b1)"
        using assms False fe f e(1) by (auto simp: tryDecode0_def Let_def)
      have "headers m' = hs \<and> b' = b1 \<and> (r = Continue100 \<longrightarrow> getHeader ''Expect'' m' \<noteq> [])"
        using assms False fe f e(1) h
        by (auto simp: tryDecode0_def Let_def getHeader_def dest!: tb split: if_splits)
      then show thesis using head [OF e(2,3)] h by blast
    qed
  qed
qed

lemma decode_keeps_length: "tryDecode0 b c m = Inr (r, l, m', b') \<Longrightarrow> length b' = length b"
  by (erule decode_cases) (auto dest: header_loop_lower)

text \<open>Although \<open>tryDecode_\<close> has a branch for requests that wait for
  \<open>100 Continue\<close>, no message whose headers come from the decoder takes it: names are stored in lower case,
  and the branch asks for the header \<open>Expect\<close>.\<close>

theorem continue_never_returned:
  assumes "lower_keys (headers m)" "tryDecode0 b copyBody m = Inr (r, l, m', b')"
  shows "r \<noteq> Continue100 \<and> lower_keys (headers m')"
proof -
  have ne: "getHeader ''Expect'' n = []" if "lower_keys (headers n)" for n :: "'a http_msg_scheme"
  proof -
    have "map_of (headers n) ''Expect'' = None"
      using that by (force simp: lower_keys_def map_of_eq_None_iff)
    then show ?thesis by (simp add: getHeader_def map_get_def)
  qed
  show ?thesis
    using assms(2)
  proof (cases rule: decode_cases)
    case done_or_waiting
    then show ?thesis using assms(1) by simp
  next
    case (head req g)
    then show ?thesis using header_loop_lower [OF head(3,1)] assms(1) ne [of m'] by auto
  qed
qed

theorem continue_never_returned_witness:
  "Continue100 \<noteq> fst (sum.projr (tryDecode0 (''POST / HTTP/1.1'' @ [CR, LF] @ ''Expect: 100-continue'' @ [CR, LF] @
     ''Content-Length: 5'' @ CRLF2) True (msg_clear sample_response))) \<and> lower_keys (headers (msg_clear sample_response))"
proof -
  let ?b = "''POST / HTTP/1.1'' @ [CR, LF] @ ''Expect: 100-continue'' @ [CR, LF] @ ''Content-Length: 5'' @ CRLF2"
  have "\<not> isl (tryDecode0 ?b True (msg_clear sample_response))" by code_simp
  then have e: "\<exists>r l m' b'. tryDecode0 ?b True (msg_clear sample_response) = Inr (r, l, m', b')"
    by (cases "tryDecode0 ?b True (msg_clear sample_response)") auto
  have k: "lower_keys (headers (msg_clear sample_response))" by (simp add: lower_keys_def msg_clear_def)
  from e obtain r l m' b' where d: "tryDecode0 ?b True (msg_clear sample_response) = Inr (r, l, m', b')" by blast
  show ?thesis using continue_never_returned [OF k d] k unfolding d by auto
qed

text \<open>A negative \<open>Content-Length\<close> becomes a huge \<open>size_t\<close>: the sum with what was scanned wraps around, the
  body counts as present, and the \<open>assign\<close> asks for almost \<open>2 ^ 64\<close> bytes.\<close>

theorem negative_content_length:
  "tryDecode0 (''HTTP/1.1 200 OK'' @ [CR, LF] @ ''Content-Length: -1'' @ CRLF2) True (msg_clear sample_response) = Inl OutOfBounds"
  by code_simp

text \<open>An empty first line never completes: the head found at offset 0 is taken for a head not yet found.\<close>

theorem leading_empty_line:
  "find_end (CRLF2 @ b) 0 = (True, 0) \<and>
   (\<not> completed m \<longrightarrow> contentLen m = 0 \<longrightarrow> scanned m = 0 \<longrightarrow> tryDecode0 (CRLF2 @ b) c m = Inr (NotComplete, slice_of [], m, CRLF2 @ b))"
  by (auto simp: tryDecode0_def find_end.simps CRLF2_def)

end
