(* ===== verification/HttpConn.thy ===== *)
theory HttpConn
  imports Conn Http
begin

text \<open>
  HTTP over a connection (\<open>HttpConnPtr\<close> and \<open>HttpServer\<close> of \<open>http.h\<close> and \<open>http.cc\<close>): the read
  callback that runs the decoder on \<open>input_\<close>, sending a message through \<open>output_\<close>, files as
  responses, and the dispatch of requests to registered callbacks. The context of the connection holds
  one request and one response. \<open>resp.body2\<close> is a slice: \<open>body2_freed\<close> says that the string it points
  into has been destroyed. \<open>file::getContent\<close> is a parameter.
\<close>

section \<open>Connections\<close>

record http_conn = conn +
  hreq :: http_request
  hresp :: http_response
  body2_freed :: bool
  closings :: nat            \<comment> \<open>tasks posted by \<open>TcpConn::close\<close>\<close>

type_synonym http_callback = "http_conn \<Rightarrow> http_conn res"

definition tcp_close :: http_callback where
  "tcp_close c = Inr (if chan c \<noteq> None then c\<lparr>closings := closings c + 1\<rparr> else c)"

text \<open>\<open>getByte\<close> returns the \<open>size_t\<close> as an \<open>int\<close>; a negative one would move \<open>b_\<close> back over bytes already
  consumed.\<close>

definition getByte :: "'a http_msg_scheme \<Rightarrow> int" where
  "getByte m = to_int32 (scanned m)"

definition consume_message :: "'a http_msg_scheme \<Rightarrow> buffer \<Rightarrow> buffer res" where
  "consume_message m inp = (if getByte m < 0 then Inl OutOfBounds else Inr (consume (nat (getByte m)) inp))"

definition clearData :: http_callback where
  "clearData c =
     (if isClient c
      then rbind (consume_message (hresp c) (inb c)) (\<lambda>inp. Inr (c\<lparr>inb := inp, hresp := resp_clear (hresp c)\<rparr>))
      else rbind (consume_message (hreq c) (inb c)) (\<lambda>inp. Inr (c\<lparr>inb := inp, hreq := req_clear (hreq c)\<rparr>)))"

definition sendRequest :: "http_request \<Rightarrow> http_callback" where
  "sendRequest req c =
     rbind (req_encode req (outb c)) (\<lambda>(_, out). rbind (clearData (c\<lparr>outb := out\<rparr>)) sendOutput)"

definition sendResponse :: http_callback where
  "sendResponse c =
     (if body2 (hresp c) \<noteq> [] \<and> body2_freed c then Inl UseAfterFree
      else rbind (resp_encode (hresp c) (outb c)) (\<lambda>(_, out). rbind (clearData (c\<lparr>outb := out\<rparr>)) sendOutput))"

definition ENOENT :: int where "ENOENT = 2"

text \<open>\<open>sendFile\<close>; \<open>getContent\<close> answers an error code with its message, or the content, which lives until the
  method returns.\<close>

definition sendFile :: "(string \<Rightarrow> (int \<times> string) + string) \<Rightarrow> string \<Rightarrow> http_callback" where
  "sendFile getContent filename c =
     (case getContent filename of
        Inl (code, msg) \<Rightarrow>
          sendResponse (c\<lparr>hresp := (if code = ENOENT then setNotFound (hresp c) else setStatus 500 msg (hresp c))\<rparr>)
      | Inr cont \<Rightarrow>
          rbind (sendResponse (c\<lparr>hresp := (hresp c)\<lparr>body2 := cont\<rparr>, body2_freed := False\<rparr>)) (\<lambda>c'.
            Inr (c'\<lparr>body2_freed := True\<rparr>)))"

text \<open>The decoder lowers names in \<open>input_\<close> itself.\<close>

definition decode_input ::
  "(string \<Rightarrow> bool \<Rightarrow> 'm \<Rightarrow> (http_result \<times> 'm \<times> string) res) \<Rightarrow> 'm \<Rightarrow> buffer \<Rightarrow> (http_result \<times> 'm \<times> buffer) res" where
  "decode_input dec m inp =
     rbind (dec (bytes inp) True m) (\<lambda>(r, m', b').
     rbind (poke (bb inp) b' inp) (\<lambda>inp'. Inr (r, m', inp')))"

definition http_handleRead :: "http_callback \<Rightarrow> http_callback" where
  "http_handleRead cb c =
     (if \<not> isClient c
      then rbind (decode_input req_tryDecode (hreq c) (inb c)) (\<lambda>(r, m, inp).
        let c1 = c\<lparr>hreq := m, inb := inp\<rparr> in
        if r = Error then tcp_close c1
        else if r = Continue100 then send_str (''HTTP/1.1 100 Continue'' @ [LF, CR, LF]) c1
        else if r = Complete then cb c1 else Inr c1)
      else rbind (decode_input resp_tryDecode (hresp c) (inb c)) (\<lambda>(r, m, inp).
        let c1 = c\<lparr>hresp := m, inb := inp\<rparr> in
        if r = Error then tcp_close c1 else if r = Complete then cb c1 else Inr c1))"

section \<open>The server\<close>

type_synonym routes = "(string \<times> (string \<times> http_callback) list) list"

definition onRequest :: "string \<Rightarrow> string \<Rightarrow> http_callback \<Rightarrow> routes \<Rightarrow> routes" where
  "onRequest meth path cb cbs =
     mput meth (mput path cb (case map_of cbs meth of None \<Rightarrow> [] | Some us \<Rightarrow> us)) cbs"

definition onGet :: "string \<Rightarrow> http_callback \<Rightarrow> routes \<Rightarrow> routes" where
  "onGet = onRequest ''GET''"

definition default_cb :: http_callback where
  "default_cb c = sendResponse (c\<lparr>hresp := (hresp c)\<lparr>status := 404, statusWord := ''Not Found'', body := ''Not Found''\<rparr>\<rparr>)"

definition http_dispatch :: "routes \<Rightarrow> http_callback \<Rightarrow> http_callback" where
  "http_dispatch cbs defcb c =
     (case map_of cbs (rmethod (hreq c)) of
        Some us \<Rightarrow> (case map_of us (uri (hreq c)) of Some cb \<Rightarrow> cb c | None \<Rightarrow> defcb c)
      | None \<Rightarrow> defcb c)"

definition http_server_read :: "routes \<Rightarrow> http_callback \<Rightarrow> http_callback" where
  "http_server_read cbs defcb = http_handleRead (http_dispatch cbs defcb)"

section \<open>Reads\<close>

lemma poke_bytes:
  assumes "buffer_ok b" "length d = length (bytes b)"
  shows "\<exists>b'. poke (bb b) d b = Inr b' \<and> buffer_ok b' \<and> bytes b' = d"
proof (cases "d = []")
  case True
  then show ?thesis using assms by (simp add: poke_def)
next
  case False
  obtain bl where bl: "cells b = Some bl" using assms False by (cases "cells b") (auto simp: bytes_def live_def blk_def)
  have len: "bb b + length d = be b" "be b \<le> length bl"
    using assms False bl by (auto simp: buffer_ok_def bytes_def live_def blk_def)
  let ?b = "b\<lparr>cells := Some (take (bb b) bl @ map Some d @ drop (bb b + length d) bl)\<rparr>"
  have "live ?b = map Some d" using len by (simp add: live_def blk_def drop_take)
  moreover have "poke (bb b) d b = Inr ?b" using False bl len by (simp add: poke_def)
  moreover have "buffer_ok ?b"
    using assms(1) len bl \<open>live ?b = map Some d\<close> by (auto simp: buffer_ok_def blk_def)
  ultimately show ?thesis by (auto simp: bytes_def comp_def)
qed

lemma decode_line_block:
  "req_tryDecode b c m = Inr (r, m', b') \<Longrightarrow> length b' = length b"
  "resp_tryDecode b c n = Inr (r, n', b') \<Longrightarrow> length b' = length b"
  by (auto simp: req_tryDecode_def resp_tryDecode_def Let_def dest!: decode_keeps_length split: if_splits)

text \<open>Pieces arriving one after the other, each followed by a run of the read callback.\<close>

fun http_reads :: "http_callback \<Rightarrow> string list \<Rightarrow> http_callback" where
  "http_reads cb [] c = Inr c"
| "http_reads cb (d # ds) c =
     rbind (bappend d (inb c)) (\<lambda>inp. rbind (http_handleRead cb (c\<lparr>inb := inp\<rparr>)) (http_reads cb ds))"

lemma decode_input_ok:
  assumes "buffer_ok inp" "dec (bytes inp) True m = Inr (r, m', b')" "length b' = length (bytes inp)"
  shows "\<exists>inp'. decode_input dec m inp = Inr (r, m', inp') \<and> buffer_ok inp' \<and> bytes inp' = b'"
  using poke_bytes [OF assms(1,3)] assms(2) by (auto simp: decode_input_def)

lemma http_reads_feed:
  assumes "feed req_tryDecode cs (bytes (inb c)) (hreq c) = Inr (replicate (length cs - 1) NotComplete @ [Complete], m')"
    and "buffer_ok (inb c)" "\<not> isClient c" "cs \<noteq> []"
  shows "\<exists>inp. http_reads cb cs c = cb (c\<lparr>hreq := m', inb := inp\<rparr>) \<and> buffer_ok inp \<and>
           length (bytes inp) = length (bytes (inb c)) + length (concat cs)"
  using assms
proof (induction cs arbitrary: c)
  case (Cons d cs)
  obtain inp where inp: "bappend d (inb c) = Inr inp" "buffer_ok inp" "bytes inp = bytes (inb c) @ d"
    using bq.append_law [OF Cons.prems(2), of d] by blast
  obtain r m1 mem rs where d: "req_tryDecode (bytes inp) True (hreq c) = Inr (r, m1, mem)"
      "feed req_tryDecode cs mem m1 = Inr (rs, m')" "r # rs = replicate (length cs) NotComplete @ [Complete]"
    using Cons.prems(1) inp(3) by auto
  obtain inp' where i: "decode_input req_tryDecode (hreq c) inp = Inr (r, m1, inp')" "buffer_ok inp'" "bytes inp' = mem"
    using decode_input_ok [of inp req_tryDecode, OF inp(2) d(1) decode_line_block(1) [OF d(1)]] by blast
  have len: "length mem = length (bytes (inb c)) + length d" using decode_line_block(1) [OF d(1)] inp(3) by simp
  show ?case
  proof (cases cs)
    case Nil
    then have "r = Complete" "m1 = m'" using d(2,3) by simp_all
    moreover have "isClient (c\<lparr>inb := inp\<rparr>) = isClient c" "http_reads cb [] = Inr" by (auto simp: isClient_def)
    ultimately have "http_reads cb (d # cs) c = cb (c\<lparr>hreq := m', inb := inp'\<rparr>)"
      using Nil inp(1) i(1) Cons.prems(3) by (simp add: http_handleRead_def)
    then show ?thesis using i(2,3) len Nil by auto
  next
    case (Cons d' cs')
    then have r: "r = NotComplete" "rs = replicate (length cs - 1) NotComplete @ [Complete]" using d(3) by simp_all
    let ?c = "c\<lparr>hreq := m1, inb := inp'\<rparr>"
    have "isClient (c\<lparr>inb := inp\<rparr>) = isClient c" by (simp add: isClient_def)
    then have "http_reads cb (d # cs) c = http_reads cb cs ?c"
      using r(1) inp(1) i(1) Cons.prems(3) by (simp add: http_handleRead_def)
    moreover have "\<exists>inp. http_reads cb cs ?c = cb (?c\<lparr>hreq := m', inb := inp\<rparr>) \<and> buffer_ok inp \<and>
           length (bytes inp) = length (bytes (inb ?c)) + length (concat cs)"
      using Cons.IH [of ?c] d(2) r(2) i(2,3) Cons.prems(3) Cons by (simp add: isClient_def)
    ultimately show ?thesis using len i(3) by auto
  qed
qed simp

section \<open>Answers\<close>

text \<open>The bytes of a response on the wire.\<close>

definition resp_wire :: "http_response \<Rightarrow> string" where
  "resp_wire r = snprintf 1024 (cstr (version r) @ '' '' @ int_string (status r) @ '' '' @ cstr (statusWord r) @ [CR, LF]) @
     concat (header_pieces r)"

lemma resp_encode_wire:
  assumes "buffer_ok buf"
  shows "\<exists>n out. resp_encode r buf = Inr (n, out) \<and> buffer_ok out \<and> bytes out = bytes buf @ resp_wire r"
proof -
  let ?l = "snprintf 1024 (cstr (version r) @ '' '' @ int_string (status r) @ '' '' @ cstr (statusWord r) @ [CR, LF])"
  obtain out where out: "appends_with bappend (?l # header_pieces r) buf = Inr out" "buffer_ok out"
      "bytes out = bytes buf @ concat (?l # header_pieces r)"
    using bq.appends_law [OF assms] by blast
  then show ?thesis unfolding resp_encode_def out(1) by (auto simp: resp_wire_def)
qed

lemma clear_same: "req_clear m = req_clear m'" "resp_clear r = resp_clear r'"
  by (cases m; cases m'; cases r; cases r'; simp add: req_clear_def resp_clear_def msg_clear_def)+

text \<open>Sending leaves the context of the connection alone.\<close>

lemma same_context: "sendOutput c = Inr c' \<Longrightarrow> hreq c' = hreq c \<and> hresp c' = hresp c \<and> body2_freed c' = body2_freed c"
  using sendOutput_more [of c c'] by (cases c; cases c') simp

lemma sendResponse_ok:
  assumes "\<not> isClient c" "out_ok c" "buffer_ok (inb c)" "scanned (hreq c) = int (length (bytes (inb c)))"
    and "length (bytes (inb c)) < 2 ^ 31" "\<not> body2_freed c"
  shows "\<exists>c'. sendResponse c = Inr c' \<and> stream c' = stream c @ resp_wire (hresp c) \<and> out_ok c' \<and> buffer_ok (inb c') \<and>
           bytes (inb c') = [] \<and> hreq c' = req_clear (hreq c) \<and> hresp c' = hresp c \<and> same_life c c' \<and> \<not> body2_freed c'"
proof -
  obtain n out where out: "resp_encode (hresp c) (outb c) = Inr (n, out)" "buffer_ok out" "bytes out = bytes (outb c) @ resp_wire (hresp c)"
    using resp_encode_wire assms(2) unfolding out_ok_def by blast
  have "getByte (hreq c) = int (length (bytes (inb c)))"
    using assms(4,5) by (simp add: getByte_def to_int32_def signed_take_bit_int_eq_self_iff)
  then have cl: "clearData (c\<lparr>outb := out\<rparr>) = Inr (c\<lparr>outb := out, inb := consume (length (bytes (inb c))) (inb c), hreq := req_clear (hreq c)\<rparr>)"
    (is "_ = Inr ?c") using assms(1) by (simp add: clearData_def consume_message_def isClient_def)
  obtain c' where c': "sendOutput ?c = Inr c'" "out_ok c'" "inb c' = inb ?c" "stream c' = stream ?c" "same_life ?c c'"
    using sendOutput_spec [of ?c] out(2) by (auto simp: out_ok_def)
  have "same_life c c'" using c'(5) by (simp add: same_life_def)
  moreover have "buffer_ok (inb c') \<and> bytes (inb c') = []" using consume_ok [OF assms(3), of "length (bytes (inb c))"] c'(3) by simp
  moreover have "stream c' = stream c @ resp_wire (hresp c)" using c'(4) out(3) by (simp add: stream_def)
  moreover have "sendResponse c = Inr c'" using assms(6) out(1) cl c'(1) by (simp add: sendResponse_def)
  ultimately show ?thesis using same_context [OF c'(1)] c'(2) assms(6) by simp
qed

text \<open>A callback that makes its answer from the request.\<close>

definition reply :: "(http_request \<Rightarrow> http_response \<Rightarrow> http_response) \<Rightarrow> http_callback" where
  "reply f c = sendResponse (c\<lparr>hresp := f (hreq c) (hresp c)\<rparr>)"

definition routes_ok :: "routes \<Rightarrow> bool" where
  "routes_ok cbs \<longleftrightarrow> mok cbs \<and> (\<forall>us \<in> ran (map_of cbs). mok us)"

lemma dispatch_registered:
  assumes "routes_ok cbs" "rmethod (hreq c) = meth" "uri (hreq c) = path"
  shows "http_dispatch (onRequest meth path cb cbs) defcb c = cb c"
proof -
  have "mok (case map_of cbs meth of None \<Rightarrow> [] | Some us \<Rightarrow> us)"
    using assms(1) by (auto simp: routes_ok_def ran_def split: option.split)
  then show ?thesis using assms by (simp add: http_dispatch_def onRequest_def routes_ok_def)
qed

text \<open>A request that arrives on an idle server connection, in any cut, is
  answered once and completely: the callback last registered for its method and path runs when the last
  byte is there, on the request as it was sent; what it answers follows everything sent before it on the
  connection; the request's bytes are gone from \<open>input_\<close> and the connection is ready for the next one.\<close>

theorem http_request_answered:
  assumes "req_ok rq" "req_encode rq buf_new = Inr (n, out)" "n < 2 ^ 31" "concat cs = bytes out" "cs \<noteq> []" "last cs \<noteq> []"
    and "\<not> isClient c" "out_ok c" "buffer_ok (inb c)" "bytes (inb c) = []" "hreq c = req_clear m0" "\<not> body2_freed c"
    and "routes_ok cbs"
  shows "\<exists>q c'. http_reads (http_dispatch (onRequest (rmethod rq) (uri_of (query_uri rq)) (reply f) cbs) defcb) cs c = Inr c' \<and>
      rmethod q = rmethod rq \<and> query_uri q = query_uri rq \<and> args q = args_of (query_uri rq) [] \<and> getBody q = getBody rq \<and>
      map_of (headers q) = map_of (lowered (sent_headers rq)) \<and>
      wire c' @ bytes (outb c') = wire c @ bytes (outb c) @ resp_wire (f q (hresp c)) \<and>
      bytes (inb c') = [] \<and> hreq c' = req_clear m0 \<and> tstate c' = tstate c"
proof -
  obtain q where f: "feed req_tryDecode cs [] (req_clear m0) = Inr (replicate (length cs - 1) NotComplete @ [Complete], q)"
    and q: "rmethod q = rmethod rq" "query_uri q = query_uri rq" "getBody q = getBody rq" "uri q = uri_of (query_uri rq)"
      "args q = args_of (query_uri rq) []" "map_of (headers q) = map_of (lowered (sent_headers rq))" "scanned q = int n"
    using request_arrives [OF assms(1,2,4-6), of m0] by blast
  let ?cb = "http_dispatch (onRequest (rmethod rq) (uri_of (query_uri rq)) (reply f) cbs) defcb"
  obtain inp where inp: "http_reads ?cb cs c = ?cb (c\<lparr>hreq := q, inb := inp\<rparr>)" "buffer_ok inp" "length (bytes inp) = length (concat cs)"
    using http_reads_feed [of cs c q ?cb] f assms(5,7,9,10,11) by auto
  have n: "n = length (bytes inp)" using req_encode_text [OF assms(1)] assms(2,4) inp(3) by auto
  let ?c = "c\<lparr>hreq := q, inb := inp, hresp := f q (hresp c)\<rparr>"
  have "?cb (c\<lparr>hreq := q, inb := inp\<rparr>) = sendResponse ?c"
    using dispatch_registered [OF assms(13)] q(1,4) by (simp add: reply_def)
  moreover obtain c' where "sendResponse ?c = Inr c'" "stream c' = stream ?c @ resp_wire (f q (hresp c))" "bytes (inb c') = []"
      "hreq c' = req_clear q" "same_life ?c c'"
    using sendResponse_ok [of ?c] assms(3,7,8,12) inp(2) n q(7) by (auto simp: conn_defs)
  ultimately show ?thesis
    using inp(1) q clear_same(1) [of q m0] by (intro exI [of _ q] exI [of _ c']) (simp add: conn_defs)
qed

lemma sample_wire:
  "18 < length (http_text (req_line sample_request) (with_seps [LF, LF] (sent_headers sample_request)) (getBody sample_request))"
  "length (http_text (req_line sample_request) (with_seps [LF, LF] (sent_headers sample_request)) (getBody sample_request)) < 2 ^ 31"
proof -
  have "length ([LF, LF] @ concat (header_pieces sample_request)) =
      length (concat (map hline (with_seps [LF, LF] (sent_headers sample_request))) @ CRLF2 @ getBody sample_request)"
    using pieces_text [of sample_request "[LF, LF]"] sample_sizes(4) by simp
  then show "18 < length (http_text (req_line sample_request) (with_seps [LF, LF] (sent_headers sample_request)) (getBody sample_request))"
    "length (http_text (req_line sample_request) (with_seps [LF, LF] (sent_headers sample_request)) (getBody sample_request)) < 2 ^ 31"
    using sample_lines(2) sample_sizes(2) by (simp_all add: http_text_def)
qed

definition sample_server :: http_conn where
  "sample_server = conn.extend ((conn_new [Wrote 10, WAgain] [])\<lparr>tstate := Connected, chan := Some (new_channel 5 1)\<rparr>)
     (http_conn.fields (req_clear sample_request) (resp_clear sample_response) False 0)"

lemma sample_server_ok: "\<not> isClient sample_server" "out_ok sample_server" "buffer_ok (inb sample_server)" "bytes (inb sample_server) = []"
    "hreq sample_server = req_clear sample_request" "\<not> body2_freed sample_server" "routes_ok []"
  by (simp_all add: sample_server_def conn.defs http_conn.defs conn_new_def isClient_def out_ok_def routes_ok_def)

theorem http_request_answered_witness:
  "\<exists>n out c'. req_encode sample_request buf_new = Inr (n, out) \<and>
     http_reads (http_dispatch (onGet ''/a'' (reply (\<lambda>q r. r\<lparr>body := query_uri q\<rparr>)) []) default_cb)
       [take 18 (bytes out), drop 18 (bytes out)] sample_server = Inr c' \<and>
     wire c' @ bytes (outb c') = resp_wire ((hresp sample_server)\<lparr>body := ''/a?k=v''\<rparr>)"
proof -
  obtain out where out: "req_encode sample_request buf_new = Inr (length (bytes out), out)" "18 < length (bytes out)" "length (bytes out) < 2 ^ 31"
    using req_encode_text [OF samples_ok(2)] sample_wire by auto
  let ?cs = "[take 18 (bytes out), drop 18 (bytes out)]"
  have cs: "concat ?cs = bytes out" "?cs \<noteq> []" "last ?cs \<noteq> []" using out(2) by simp_all
  from http_request_answered [OF samples_ok(2) out(1,3) cs sample_server_ok, of "\<lambda>q r. r\<lparr>body := query_uri q\<rparr>" default_cb]
  obtain q :: http_request and c' where "http_reads (http_dispatch (onRequest (rmethod sample_request) (uri_of (query_uri sample_request))
        (reply (\<lambda>q r. r\<lparr>body := query_uri q\<rparr>)) []) default_cb) ?cs sample_server = Inr c'" "query_uri q = query_uri sample_request"
      "wire c' @ bytes (outb c') = wire sample_server @ bytes (outb sample_server) @ resp_wire ((hresp sample_server)\<lparr>body := query_uri q\<rparr>)"
    by blast
  moreover have "uri_of (query_uri sample_request) = ''/a''" by code_simp
  moreover have "rmethod sample_request = ''GET''" "query_uri sample_request = ''/a?k=v''" by (simp_all add: sample_request_def)
  moreover have "wire sample_server = []" "bytes (outb sample_server) = []"
    by (simp_all add: sample_server_def conn.defs http_conn.defs conn_new_def)
  ultimately show ?thesis using out(1) unfolding onGet_def by auto
qed

section \<open>Error paths\<close>

text \<open>A server connection that has sent a non-empty file cannot send another
  response: \<open>clearData\<close> clears the request only, \<open>body2\<close> still points into the destroyed content of the
  file, and any response that does not set \<open>body2\<close> again, the 404 page included, reads it.\<close>

theorem file_response_dangles:
  assumes "\<not> isClient c" "getContent f = Inr cont" "cont \<noteq> []" "sendFile getContent f c = Inr c'"
    and "body2 (g (hreq c') (hresp c')) = body2 (hresp c')"
  shows "reply g c' = Inl UseAfterFree \<and> default_cb c' = Inl UseAfterFree"
proof -
  let ?c = "c\<lparr>hresp := (hresp c)\<lparr>body2 := cont\<rparr>, body2_freed := False\<rparr>"
  obtain c2 where s: "sendResponse ?c = Inr c2" "c' = c2\<lparr>body2_freed := True\<rparr>" using assms(2,4) by (auto simp: sendFile_def)
  obtain n out c1 where r: "clearData (?c\<lparr>outb := out\<rparr>) = Inr c1" "sendOutput c1 = Inr c2"
    using s(1) by (auto simp: sendResponse_def)
  have "hresp c1 = (hresp c)\<lparr>body2 := cont\<rparr>"
    using r(1) assms(1) by (auto simp: clearData_def isClient_def)
  then have "body2 (hresp c') = cont" "body2_freed c'" using same_context [OF r(2)] s(2) by simp_all
  then show ?thesis using assms(3,5) by (simp add: reply_def default_cb_def sendResponse_def)
qed

theorem file_response_dangles_witness:
  "\<exists>c'. sendFile (\<lambda>_. Inr ''x'') ''index'' sample_server = Inr c' \<and> reply (\<lambda>q r. setStatus 200 ''OK'' r) c' = Inl UseAfterFree"
proof -
  let ?c = "sample_server\<lparr>hresp := (hresp sample_server)\<lparr>body2 := ''x''\<rparr>, body2_freed := False\<rparr>"
  have "scanned (hreq ?c) = int (length (bytes (inb ?c)))"
    using sample_server_ok(4,5) by (simp add: req_clear_def msg_clear_def)
  then obtain c2 where "sendResponse ?c = Inr c2"
    using sendResponse_ok [of ?c] sample_server_ok by (auto simp: conn_defs)
  then have s: "sendFile (\<lambda>_. Inr ''x'') ''index'' sample_server = Inr (c2\<lparr>body2_freed := True\<rparr>)" by (simp add: sendFile_def)
  have b: "body2 (setStatus 200 ''OK'' (hresp (c2\<lparr>body2_freed := True\<rparr>))) = body2 (hresp (c2\<lparr>body2_freed := True\<rparr>))"
    by (simp add: setStatus_def)
  show ?thesis
    using file_response_dangles [OF sample_server_ok(1) _ _ s, where cont = "''x''" and g = "\<lambda>q r. setStatus 200 ''OK'' r"] b s by auto
qed

end
