(* ===== verification/StatServer.thy ===== *)
theory StatServer
  imports HttpConn Util
begin

text \<open>
  \<open>StatServer\<close> (\<open>stat-svr.h\<close>, \<open>stat-svr.cc\<close>): registered states, pages and
  commands, and the default callback of its \<open>HttpServer\<close> that answers a key or lists everything. A
  registered callback is a function from the request to a change of the response; \<open>file::getContent\<close> and the
  values of the information callbacks are parameters. The log line of each answer is left out.
\<close>

section \<open>Registration\<close>

datatype StatType = STATE | PAGE | CMD | OtherType int

type_synonym stat_cb = "http_request \<Rightarrow> http_response \<Rightarrow> http_response"

record stat_server =
  statcbs :: "(string \<times> string \<times> stat_cb) list"
  pagecbs :: "(string \<times> string \<times> stat_cb) list"
  cmdcbs :: "(string \<times> string \<times> stat_cb) list"
  allcbs :: "(string \<times> stat_cb) list"

definition stat_new :: stat_server where
  "stat_new = \<lparr>statcbs = [], pagecbs = [], cmdcbs = [], allcbs = []\<rparr>"

definition stat_onRequest :: "StatType \<Rightarrow> string \<Rightarrow> string \<Rightarrow> stat_cb \<Rightarrow> stat_server \<Rightarrow> stat_server" where
  "stat_onRequest ty key desc cb sv =
     (case ty of
        STATE \<Rightarrow> sv\<lparr>statcbs := mput key (desc, cb) (statcbs sv), allcbs := mput key cb (allcbs sv)\<rparr>
      | PAGE \<Rightarrow> sv\<lparr>pagecbs := mput key (desc, cb) (pagecbs sv), allcbs := mput key cb (allcbs sv)\<rparr>
      | CMD \<Rightarrow> sv\<lparr>cmdcbs := mput key (desc, cb) (cmdcbs sv), allcbs := mput key cb (allcbs sv)\<rparr>
      | OtherType _ \<Rightarrow> sv)"

definition info_cb :: "string \<Rightarrow> stat_cb" where
  "info_cb v req r = r\<lparr>body := v\<rparr>"

definition onInfo :: "StatType \<Rightarrow> string \<Rightarrow> string \<Rightarrow> string \<Rightarrow> stat_server \<Rightarrow> stat_server" where
  "onInfo ty key desc v = stat_onRequest ty key desc (info_cb v)"

definition onState :: "string \<Rightarrow> string \<Rightarrow> string \<Rightarrow> stat_server \<Rightarrow> stat_server" where
  "onState = onInfo STATE"

definition onState_int :: "string \<Rightarrow> string \<Rightarrow> int \<Rightarrow> stat_server \<Rightarrow> stat_server" where
  "onState_int state desc n = onInfo STATE state desc (format (int_string n))"

definition onPage :: "string \<Rightarrow> string \<Rightarrow> string \<Rightarrow> stat_server \<Rightarrow> stat_server" where
  "onPage = onInfo PAGE"

definition onCmd :: "string \<Rightarrow> string \<Rightarrow> string \<Rightarrow> stat_server \<Rightarrow> stat_server" where
  "onCmd = onInfo CMD"

definition onCmd_int :: "string \<Rightarrow> string \<Rightarrow> int \<Rightarrow> stat_server \<Rightarrow> stat_server" where
  "onCmd_int cmd desc n = onInfo CMD cmd desc (format (int_string n))"

definition file_cb :: "(string \<Rightarrow> (int \<times> string) + string) \<Rightarrow> string \<Rightarrow> stat_cb" where
  "file_cb getContent file req r =
     (case getContent file of
        Inl e \<Rightarrow> setNotFound r
      | Inr cont \<Rightarrow> r\<lparr>body := body r @ cont, headers := mput ''Content-Type'' ''text/plain; charset=utf-8'' (headers r)\<rparr>)"

definition onPageFile :: "(string \<Rightarrow> (int \<times> string) + string) \<Rightarrow> string \<Rightarrow> string \<Rightarrow> string \<Rightarrow> stat_server \<Rightarrow> stat_server" where
  "onPageFile getContent page desc file = stat_onRequest PAGE page desc (file_cb getContent file)"

section \<open>Answers\<close>

definition query_link :: "string \<Rightarrow> string" where
  "query_link path = format (''<a href=\"/?stat='' @ cstr path @ ''\">'' @ cstr path @ ''</a>'')"

definition page_link :: "string \<Rightarrow> string" where
  "page_link path = format (''<a href=\"/'' @ cstr path @ ''\">'' @ cstr path @ ''</a>'')"

definition resp_new :: http_response where
  "resp_new = \<lparr>headers = [], version = ''HTTP/1.1'', body = [], body2 = [], completed = False, contentLen = 0, scanned = 0,
     statusWord = ''OK'', status = 200\<rparr>"

text \<open>The rows of the three tables; each state is asked with a fresh response and its key as the \<open>uri\<close>.\<close>

definition state_row :: "http_request \<Rightarrow> string \<times> string \<times> stat_cb \<Rightarrow> string list" where
  "state_row req x = (case x of (key, desc, cb) \<Rightarrow>
     [''<tr><td>'', page_link key, ''</td><td>'', desc, ''</td><td>'', body (cb (req\<lparr>uri := key\<rparr>) resp_new), ''</td></tr>\<newline>''])"

definition link_row :: "(string \<Rightarrow> string) \<Rightarrow> string \<times> string \<times> stat_cb \<Rightarrow> string list" where
  "link_row link x = (case x of (key, desc, cb) \<Rightarrow> [''<tr><td>'', link key, ''</td><td>'', desc, ''</td></tr>\<newline>''])"

definition index_pieces :: "stat_server \<Rightarrow> http_request \<Rightarrow> string list" where
  "index_pieces sv req =
     [''<a href=\"/\">refresh</a><br/>\<newline>'', ''<table>\<newline>'', ''<tr><td>Stat</td><td>Desc</td><td>Value</td></tr>\<newline>''] @
     concat (map (state_row req) (statcbs sv)) @
     [''</table>\<newline><br/>\<newline><table>\<newline>'', ''<tr><td>Page</td><td>Desc</td>\<newline>''] @
     concat (map (link_row page_link) (pagecbs sv)) @
     [''</table>\<newline><br/>\<newline><table>\<newline>'', ''<tr><td>Cmd</td><td>Desc</td>\<newline>''] @
     concat (map (link_row query_link) (cmdcbs sv)) @
     [''</table>\<newline>'']"

text \<open>\<open>query.assign(req.uri.data()+1, req.uri.size()-1)\<close> of an empty \<open>uri\<close> has a length of \<open>2 ^ 64 - 1\<close>.\<close>

definition stat_query :: "http_request \<Rightarrow> string res" where
  "stat_query req =
     (let q = getArg ''stat'' req in
      if q \<noteq> [] then Inr q else if uri req = [] then Inl OutOfBounds else Inr (tl (uri req)))"

definition sub_answer :: "stat_server \<Rightarrow> string \<Rightarrow> stat_cb" where
  "sub_answer sv query req resp =
     (if query = [] then resp
      else case map_of (allcbs sv) query of Some cb \<Rightarrow> cb req resp | None \<Rightarrow> setNotFound resp)"

definition stat_default :: "stat_server \<Rightarrow> http_callback" where
  "stat_default sv c =
     rbind (stat_query (hreq c)) (\<lambda>query.
       let resp = sub_answer sv query (hreq c) (hresp c) in
       if uri (hreq c) \<noteq> ''/'' then sendResponse (c\<lparr>hresp := resp\<rparr>)
       else
         rbind (appends_with bappend
             (index_pieces sv (hreq c) @
              (if body resp \<noteq> [] then [format (''<br/>SubQuery '' @ cstr query @ '':<br/> '' @ cstr (body resp))] else []))
             buf_new) (\<lambda>buf.
           let req = (if statcbs sv = [] then hreq c else (hreq c)\<lparr>uri := fst (last (statcbs sv))\<rparr>) in
           sendResponse (c\<lparr>hreq := req, hresp := resp\<lparr>body := bytes buf\<rparr>\<rparr>)))"

section \<open>What a request gets\<close>

text \<open>The index for a request, with what a sub-query answered.\<close>

definition index_text :: "stat_server \<Rightarrow> http_request \<Rightarrow> string \<Rightarrow> string \<Rightarrow> string" where
  "index_text sv req query sub = concat (index_pieces sv req) @
     (if sub \<noteq> [] then format (''<br/>SubQuery '' @ cstr query @ '':<br/> '' @ cstr sub) else [])"

definition stat_response :: "stat_server \<Rightarrow> string \<Rightarrow> stat_cb" where
  "stat_response sv query req resp =
     (let r = sub_answer sv query req resp in
      if uri req \<noteq> ''/'' then r else r\<lparr>body := index_text sv req query (body r)\<rparr>)"

lemma same_uri: "uri (hreq c) = u \<Longrightarrow> c\<lparr>hreq := (hreq c)\<lparr>uri := u\<rparr>, hresp := r\<rparr> = c\<lparr>hresp := r\<rparr>"
  by (cases c; cases "hreq c") simp

lemma stat_default_sends:
  assumes "stat_query (hreq c) = Inr query"
  shows "\<exists>u. stat_default sv c = sendResponse (c\<lparr>hreq := (hreq c)\<lparr>uri := u\<rparr>, hresp := stat_response sv query (hreq c) (hresp c)\<rparr>)"
proof (cases "uri (hreq c) = ''/''")
  case True
  let ?r = "sub_answer sv query (hreq c) (hresp c)"
  let ?ps = "index_pieces sv (hreq c) @
        (if body ?r \<noteq> [] then [format (''<br/>SubQuery '' @ cstr query @ '':<br/> '' @ cstr (body ?r))] else [])"
  obtain buf where buf: "appends_with bappend ?ps buf_new = Inr buf" "bytes buf = concat ?ps"
    using bq.appends_law [OF buf_new_ok(1), of ?ps] by auto
  have "concat ?ps = index_text sv (hreq c) query (body ?r)" by (simp add: index_text_def)
  with buf(2) have bytes: "bytes buf = index_text sv (hreq c) query (body ?r)" by simp
  show ?thesis
    using assms True buf(1) bytes
    by (intro exI [of _ "if statcbs sv = [] then ''/'' else fst (last (statcbs sv))"]) (simp add: same_uri [OF True] stat_default_def stat_response_def Let_def)
next
  case False
  then show ?thesis using assms by (intro exI [of _ "uri (hreq c)"]) (simp add: stat_default_def stat_response_def Let_def)
qed

text \<open>A registered key leads to the callback registered last under it, of whatever type.\<close>

definition stat_register :: "StatType \<times> string \<times> string \<times> stat_cb \<Rightarrow> stat_server \<Rightarrow> stat_server" where
  "stat_register r sv = (case r of (ty, key, desc, cb) \<Rightarrow> stat_onRequest ty key desc cb sv)"

definition registered :: "(StatType \<times> string \<times> string \<times> stat_cb) list \<Rightarrow> stat_server" where
  "registered rs = fold stat_register rs stat_new"

fun known_type :: "StatType \<times> 'x \<Rightarrow> bool" where
  "known_type (OtherType _, _) = False"
| "known_type _ = True"

lemma registered_snoc: "registered (rs @ [r]) = stat_register r (registered rs)"
  by (simp add: registered_def)

lemma registered_all:
  "mok (allcbs (registered rs)) \<and>
   map_of (allcbs (registered rs)) = map_of (rev (map (\<lambda>(ty, key, desc, cb). (key, cb)) (filter known_type rs)))"
proof (induction rs rule: rev_induct)
  case Nil
  show ?case by (simp add: registered_def stat_new_def mok_def)
next
  case (snoc r rs)
  obtain ty key desc cb where r: "r = (ty, key, desc, cb)" by (cases r)
  show ?case using snoc by (cases ty) (simp_all add: registered_snoc stat_register_def stat_onRequest_def r)
qed

lemma registered_table:
  "mok (statcbs (registered rs)) \<and>
   map_of (statcbs (registered rs)) = map_of (rev (map snd (filter (\<lambda>r. fst r = STATE) rs)))"
proof (induction rs rule: rev_induct)
  case Nil
  show ?case by (simp add: registered_def stat_new_def mok_def)
next
  case (snoc r rs)
  obtain ty key desc cb where r: "r = (ty, key, desc, cb)" by (cases r)
  show ?case using snoc by (cases ty) (simp_all add: registered_snoc stat_register_def stat_onRequest_def r)
qed



lemma sendResponse_keeps:
  assumes "sendResponse c = Inr c'" "\<not> isClient c"
  shows "hresp c' = hresp c"
proof -
  obtain n out c1 where r: "clearData (c\<lparr>outb := out\<rparr>) = Inr c1" "sendOutput c1 = Inr c'"
    using assms(1) by (auto simp: sendResponse_def split: if_splits)
  then show ?thesis using same_context [OF r(2)] assms(2) by (auto simp: clearData_def isClient_def)
qed

section \<open>What stays on the connection\<close>

text \<open>The response of a server connection is not cleared between requests: after a 404 every state,
  page or command of the statistics server is answered 404 on that connection although its callback runs, the index
  shows the text of the earlier answer as a sub-query, and a file page is appended to the text of the
  earlier answer.\<close>

theorem stat_answer_sticks:
  assumes "uri (hreq c) = CHR ''/'' # key" "map_of (args (hreq c)) ''stat'' = None" "key \<noteq> []" "map_of (allcbs sv) key = None"
    and "stat_default sv c = Inr c'" "\<not> isClient c"
    and "map_of (allcbs sv) k = Some (info_cb v)" "k \<noteq> []" "uri req = CHR ''/'' # k" "getContent f = Inr cont"
  shows "status (stat_response sv k req (hresp c')) = 404 \<and> body (stat_response sv k req (hresp c')) = v \<and>
    body (stat_response sv [] (req\<lparr>uri := ''/''\<rparr>) (hresp c')) =
      concat (index_pieces sv (req\<lparr>uri := ''/''\<rparr>)) @ ''<br/>SubQuery :<br/> Not Found'' \<and>
    body (file_cb getContent f req (hresp c')) = ''Not Found'' @ cont"
proof -
  have "stat_query (hreq c) = Inr key" using assms(1,2) by (simp add: stat_query_def getArg_def map_get_def)
  from stat_default_sends [OF this, of sv] obtain u where "stat_default sv c =
      sendResponse (c\<lparr>hreq := (hreq c)\<lparr>uri := u\<rparr>, hresp := setNotFound (hresp c)\<rparr>)"
    using assms(1,3,4) by (auto simp: stat_response_def sub_answer_def)
  then have "sendResponse (c\<lparr>hreq := (hreq c)\<lparr>uri := u\<rparr>, hresp := setNotFound (hresp c)\<rparr>) = Inr c'" using assms(5) by simp
  from sendResponse_keeps [OF this] have h: "hresp c' = setNotFound (hresp c)" using assms(6) by (simp add: isClient_def)
  show ?thesis
    using assms(7-10)
    by (simp add: h stat_response_def sub_answer_def info_cb_def file_cb_def setNotFound_def setStatus_def index_text_def format_def cstr_def)
qed

definition sticky_server :: http_conn where
  "sticky_server = sample_server\<lparr>hreq := (hreq sample_server)\<lparr>uri := ''/zzz''\<rparr>\<rparr>"

theorem stat_answer_sticks_witness:
  "\<exists>c'. stat_default (registered [(STATE, ''a'', ''d'', info_cb ''17'')]) sticky_server = Inr c' \<and>
     (let r = stat_response (registered [(STATE, ''a'', ''d'', info_cb ''17'')]) ''a'' ((hreq sample_server)\<lparr>uri := ''/a''\<rparr>) (hresp c')
      in status r = 404 \<and> body r = ''17'')"
proof -
  let ?sv = "registered [(STATE, ''a'', ''d'', info_cb ''17'')]" and ?c = "sticky_server"
  have req: "hreq sticky_server = (req_clear sample_request)\<lparr>uri := ''/zzz''\<rparr>"
    using sample_server_ok(5) by (simp add: sticky_server_def)
  have a: "uri (hreq ?c) = CHR ''/'' # ''zzz''" "map_of (args (hreq ?c)) ''stat'' = None" "\<not> isClient ?c"
    using sample_server_ok(1) by (simp_all add: req) (simp_all add: req_clear_def sticky_server_def isClient_def)
  have m: "map_of (allcbs ?sv) = [''a'' \<mapsto> info_cb ''17'']"
    using registered_all [of "[(STATE, ''a'', ''d'', info_cb ''17'')]"] by simp
  have "stat_query (hreq ?c) = Inr ''zzz''" using a by (simp add: stat_query_def getArg_def map_get_def)
  from stat_default_sends [OF this, of ?sv] obtain u where u: "stat_default ?sv ?c =
      sendResponse (?c\<lparr>hreq := (hreq ?c)\<lparr>uri := u\<rparr>, hresp := stat_response ?sv ''zzz'' (hreq ?c) (hresp ?c)\<rparr>)" by blast
  have "scanned (hreq ?c) = 0" by (simp add: req req_clear_def msg_clear_def)
  then obtain c' where c': "stat_default ?sv ?c = Inr c'"
    unfolding u using sendResponse_ok [of "?c\<lparr>hreq := (hreq ?c)\<lparr>uri := u\<rparr>, hresp := stat_response ?sv ''zzz'' (hreq ?c) (hresp ?c)\<rparr>"]
      sample_server_ok by (auto simp: conn_defs sticky_server_def)
  have "status (stat_response ?sv ''a'' ((hreq sample_server)\<lparr>uri := ''/a''\<rparr>) (hresp c')) = 404 \<and>
      body (stat_response ?sv ''a'' ((hreq sample_server)\<lparr>uri := ''/a''\<rparr>) (hresp c')) = ''17''"
    using stat_answer_sticks [OF a(1,2) _ _ c' a(3), of "''a''" "''17''" "(hreq sample_server)\<lparr>uri := ''/a''\<rparr>" "\<lambda>_. Inr []" "[]" "[]"] m by simp
  with c' show ?thesis by (auto simp: Let_def)
qed

end
