(* ===== verification/Pollers.thy ===== *)
theory Pollers
  imports Channel
begin

text \<open>
  The rest of \<open>poller.cc\<close>: the kqueue poller, which shares the bookkeeping of \<open>Channel\<close> with the epoll
  poller and differs in its changes to the kernel and in its dispatch, and the destructor both pollers
  have. A channel object is found under its address until it is deleted; \<open>kevent\<close> is a parameter, as the
  list of events it returns and as the result of submitting changes.
\<close>

section \<open>The kqueue poller\<close>

datatype kfilter = EVFILT_READ | EVFILT_WRITE

datatype kaction = EV_ADD_ENABLE | EV_DELETE

type_synonym kchange = "int \<times> kfilter \<times> kaction \<times> nat"

record kqueue =
  kpoll :: poller
  kchans :: "nat \<Rightarrow> channel option"
  submitted :: "kchange list"

definition EV_EOF :: "16 word" where "EV_EOF = 0x8000"

definition kq_add_changes :: "nat \<Rightarrow> channel \<Rightarrow> kchange list" where
  "kq_add_changes p ch =
     (if readEnabled ch then [(ch_fd ch, EVFILT_READ, EV_ADD_ENABLE, p)] else []) @
     (if writeEnabled ch then [(ch_fd ch, EVFILT_WRITE, EV_ADD_ENABLE, p)] else [])"

definition kq_update_changes :: "nat \<Rightarrow> channel \<Rightarrow> kchange list" where
  "kq_update_changes p ch =
     [(ch_fd ch, EVFILT_READ, if readEnabled ch then EV_ADD_ENABLE else EV_DELETE, p),
      (ch_fd ch, EVFILT_WRITE, if writeEnabled ch then EV_ADD_ENABLE else EV_DELETE, p)]"

text \<open>\<open>kevent\<close> applies the changes or fails, which is fatal.\<close>

definition kq_addChannel :: "bool \<Rightarrow> nat \<Rightarrow> channel \<Rightarrow> kqueue \<Rightarrow> kqueue res" where
  "kq_addChannel ok p ch k =
     (if \<not> ok then Inl Fatal
      else Inr (k\<lparr>submitted := submitted k @ kq_add_changes p ch, kchans := (kchans k)(p \<mapsto> ch), kpoll := addChannel p (kpoll k)\<rparr>))"

definition kq_updateChannel :: "bool \<Rightarrow> nat \<Rightarrow> channel \<Rightarrow> kqueue \<Rightarrow> kqueue res" where
  "kq_updateChannel ok p ch k =
     (if \<not> ok then Inl Fatal
      else Inr (k\<lparr>submitted := submitted k @ kq_update_changes p ch, kchans := (kchans k)(p \<mapsto> ch)\<rparr>))"

definition kq_removeChannel :: "nat \<Rightarrow> kqueue \<Rightarrow> kqueue" where
  "kq_removeChannel p k = k\<lparr>kpoll := removeChannel p (kpoll k)\<rparr>"

text \<open>What a handler does: \<open>KClose\<close> removes the channel from the poller and deletes it. A handler changes the flags of
  existing channels only.\<close>

datatype kq_op = KAdd nat channel | KUpdate nat channel | KClose nat

fun kq_run :: "kq_op list \<Rightarrow> kqueue \<Rightarrow> kqueue res" where
  "kq_run [] k = Inr k"
| "kq_run (KAdd p ch # os) k = rbind (kq_addChannel True p ch k) (kq_run os)"
| "kq_run (KUpdate p ch # os) k = rbind (if kchans k p = None then Inr k else kq_updateChannel True p ch k) (kq_run os)"
| "kq_run (KClose p # os) k = kq_run os ((kq_removeChannel p k)\<lparr>kchans := (kchans k)(p := None)\<rparr>)"

text \<open>The events carry the kernel's flags; the channel's own flags decide what is handled.\<close>

definition kq_dispatch_of :: "nat \<Rightarrow> 16 word \<Rightarrow> channel \<Rightarrow> dispatch res" where
  "kq_dispatch_of p evflags ch =
     (if evflags AND EV_EOF = 0 \<and> writeEnabled ch then Inr (HandleWrite p)
      else if evflags AND EV_EOF \<noteq> 0 \<or> readEnabled ch then Inr (HandleRead p)
      else Inl Fatal)"

fun kq_dispatch_loop :: "(dispatch \<Rightarrow> kq_op list) \<Rightarrow> nat \<Rightarrow> kqueue \<Rightarrow> kqueue res" where
  "kq_dispatch_loop handler 0 k = Inr (k\<lparr>kpoll := (kpoll k)\<lparr>lastActive := -1\<rparr>\<rparr>)"
| "kq_dispatch_loop handler (Suc i) k =
     (let k1 = k\<lparr>kpoll := (kpoll k)\<lparr>lastActive := int i\<rparr>\<rparr> in
      case activeEvs (kpoll k1) ! i of
        (None, _) \<Rightarrow> kq_dispatch_loop handler i k1
      | (Some p, evflags) \<Rightarrow>
          (case kchans k1 p of
             None \<Rightarrow> Inl UseAfterFree
           | Some ch \<Rightarrow>
               rbind (kq_dispatch_of p evflags ch) (\<lambda>d. rbind (kq_run (handler d) k1) (kq_dispatch_loop handler i))))"

definition kq_loop_once :: "(dispatch \<Rightarrow> kq_op list) \<Rightarrow> (nat option \<times> 16 word) list \<Rightarrow> kqueue \<Rightarrow> kqueue res" where
  "kq_loop_once handler evs k =
     kq_dispatch_loop handler (length evs) (k\<lparr>kpoll := (kpoll k)\<lparr>activeEvs := evs, lastActive := int (length evs)\<rparr>\<rparr>)"

section \<open>Destroying a poller\<close>

text \<open>\<open>while (liveChannels_.size()) ( *liveChannels_.begin())->close();\<close> \<open>close\<close> does nothing to a channel without
  descriptor; otherwise it removes the channel and calls its read handler, whose calls on the poller are
  \<open>handler p\<close>. \<open>closed\<close> collects the handlers called.\<close>

record ending =
  en_poll :: poller
  en_fds :: "nat \<Rightarrow> int"
  en_closed :: "nat list"

definition ending_close :: "(nat \<Rightarrow> chan_op list) \<Rightarrow> nat \<Rightarrow> ending \<Rightarrow> ending" where
  "ending_close handler p s =
     (if en_fds s p < 0 then s
      else s\<lparr>en_poll := run_ops (handler p) (removeChannel p (en_poll s)), en_fds := (en_fds s)(p := -1), en_closed := en_closed s @ [p]\<rparr>)"

partial_function (option) poller_destroy :: "(nat \<Rightarrow> chan_op list) \<Rightarrow> ending \<Rightarrow> ending option" where
  "poller_destroy handler s =
     (if liveChannels (en_poll s) = {} then Some s
      else poller_destroy handler (ending_close handler (Min (liveChannels (en_poll s))) s))"

section \<open>Kqueue: what is submitted follows the flags\<close>

definition registered_for :: "kchange list \<Rightarrow> int \<Rightarrow> kfilter \<Rightarrow> bool" where
  "registered_for cs fd f \<longleftrightarrow>
     fold (\<lambda>(fd', f', a, p) on. if fd' = fd \<and> f' = f then a = EV_ADD_ENABLE else on) cs False"

lemma registered_update:
  "registered_for (cs @ kq_update_changes p ch) (ch_fd ch) EVFILT_READ = readEnabled ch"
  "registered_for (cs @ kq_update_changes p ch) (ch_fd ch) EVFILT_WRITE = writeEnabled ch"
  by (simp_all add: registered_for_def kq_update_changes_def)

lemma registered_none: "\<forall>c \<in> set cs. fst c \<noteq> fd \<Longrightarrow> \<not> registered_for cs fd f"
  unfolding registered_for_def by (induction cs rule: rev_induct) (auto split: prod.splits)

lemma registered_add:
  assumes "\<forall>c \<in> set cs. fst c \<noteq> ch_fd ch"
  shows "registered_for (cs @ kq_add_changes p ch) (ch_fd ch) EVFILT_READ = readEnabled ch"
    "registered_for (cs @ kq_add_changes p ch) (ch_fd ch) EVFILT_WRITE = writeEnabled ch"
  using registered_none [OF assms] by (simp_all add: registered_for_def kq_add_changes_def)

section \<open>Kqueue: channels reported once\<close>

definition kq_ok :: "nat \<Rightarrow> kqueue \<Rightarrow> bool" where
  "kq_ok n k \<longleftrightarrow> pending_ok n (kpoll k) \<and> (\<forall>p \<in> liveChannels (kpoll k). kchans k p \<noteq> None)"

lemma kq_run_ok:
  "kq_ok (Suc n) k \<Longrightarrow> lastActive (kpoll k) = int n \<Longrightarrow> \<exists>k'. kq_run os k = Inr k' \<and> kq_ok (Suc n) k' \<and> lastActive (kpoll k') = int n"
proof (induction os k rule: kq_run.induct)
  case (2 p ch os k)
  have "kq_ok (Suc n) (k\<lparr>submitted := submitted k @ kq_add_changes p ch, kchans := (kchans k)(p \<mapsto> ch), kpoll := addChannel p (kpoll k)\<rparr>)"
    using "2.prems"(1) by (auto simp: kq_ok_def addChannel_def pending_ok_def)
  with 2 show ?case by (auto simp: kq_addChannel_def addChannel_def)
next
  case (3 p ch os k)
  have "kq_ok (Suc n) (k\<lparr>submitted := submitted k @ kq_update_changes p ch, kchans := (kchans k)(p \<mapsto> ch)\<rparr>)"
    using "3.prems"(1) by (auto simp: kq_ok_def)
  with 3 show ?case by (cases "kchans k p") (auto simp: kq_updateChannel_def)
next
  case (4 p os k)
  have "kq_ok (Suc n) ((kq_removeChannel p k)\<lparr>kchans := (kchans k)(p := None)\<rparr>)"
    using "4.prems" removeChannel_pending [of n "kpoll k" p] by (auto simp: kq_ok_def kq_removeChannel_def removeChannel_def)
  with 4 show ?case by (auto simp: kq_removeChannel_def removeChannel_def)
qed auto

lemma pending_ok_less: "pending_ok (Suc n) p \<Longrightarrow> pending_ok n p"
  unfolding pending_ok_def by (meson Suc_leD less_SucI)

lemma kq_dispatch_loop_ok: "kq_ok n k \<Longrightarrow> kq_dispatch_loop handler n k \<noteq> Inl UseAfterFree"
proof (induction n arbitrary: k)
  case (Suc n)
  let ?k = "k\<lparr>kpoll := (kpoll k)\<lparr>lastActive := int n\<rparr>\<rparr>"
  have ok: "kq_ok (Suc n) ?k" using Suc.prems by (auto simp: kq_ok_def pending_ok_def)
  have less: "kq_ok n q" if "kq_ok (Suc n) q" for q using that pending_ok_less by (auto simp: kq_ok_def)
  obtain ptr ev where pe: "activeEvs (kpoll ?k) ! n = (ptr, ev)" by (cases "activeEvs (kpoll ?k) ! n")
  show ?case
  proof (cases ptr)
    case None
    then show ?thesis using Suc.IH [OF less [OF ok]] pe by simp
  next
    case (Some p)
    then have "p \<in> liveChannels (kpoll k)" using Suc.prems pe by (auto simp: kq_ok_def pending_ok_def)
    then obtain ch where ch: "kchans k p = Some ch" using Suc.prems by (auto simp: kq_ok_def)
    show ?thesis
    proof (cases "kq_dispatch_of p ev ch")
      case (Inl e)
      then have "e = Fatal" by (auto simp: kq_dispatch_of_def split: if_splits)
      then show ?thesis using Inl pe Some ch by (simp add: Let_def)
    next
      case (Inr d)
      obtain k' where k': "kq_run (handler d) ?k = Inr k'" "kq_ok (Suc n) k'" using kq_run_ok [OF ok, of "handler d"] by auto
      then show ?thesis using Suc.IH [OF less [OF k'(2)]] Inr pe Some ch by (simp add: Let_def)
    qed
  qed
qed simp

text \<open>
  As long as \<open>kevent\<close> reports each channel once, the dispatch never meets a deleted channel, whatever the handlers close.
\<close>

theorem kqueue_once_safe:
  assumes "distinct (map fst evs)" "\<forall>e \<in> set evs. \<exists>p \<in> liveChannels (kpoll k). fst e = Some p"
    and "\<forall>p \<in> liveChannels (kpoll k). kchans k p \<noteq> None"
  shows "kq_loop_once handler evs k \<noteq> Inl UseAfterFree"
proof -
  let ?p = "(kpoll k)\<lparr>activeEvs := evs, lastActive := int (length evs)\<rparr>"
  have "pending_ok (length evs) ?p" using events_pending [OF assms(1,2)] .
  then have "kq_ok (length evs) (k\<lparr>kpoll := ?p\<rparr>)" using assms(3) by (simp add: kq_ok_def)
  then show ?thesis unfolding kq_loop_once_def by (rule kq_dispatch_loop_ok)
qed

text \<open>But \<open>kevent\<close> reports reading and writing of one descriptor as two events. When a channel is
  readable and writable and its handler closes it at the later event, \<open>removeChannel\<close> clears that event, stops
  at it, and leaves the earlier one: the dispatch then calls a deleted channel.\<close>

theorem kqueue_stale_event:
  assumes "kchans k p = Some ch" "writeEnabled ch" "f1 AND EV_EOF = 0" "handler (HandleWrite p) = [KClose p]"
  shows "kq_loop_once handler [(Some p, f0), (Some p, f1)] k = Inl UseAfterFree"
  using assms
  by (simp add: kq_loop_once_def kq_dispatch_of_def kq_removeChannel_def removeChannel_def hit_def Let_def numeral_2_eq_2)

theorem kqueue_stale_event_witness:
  "kq_loop_once (\<lambda>_. [KClose 7]) [(Some 7, 0), (Some 7, 0)]
     \<lparr>kpoll = \<lparr>liveChannels = {7}, activeEvs = [], lastActive = -1\<rparr>, kchans = [7 \<mapsto> new_channel 3 5], submitted = []\<rparr> = Inl UseAfterFree"
proof -
  have "writeEnabled (new_channel 3 5)" by (simp add: writeEnabled_def new_channel_def updateChannel_def kWriteEvent_def)
  then show ?thesis by (intro kqueue_stale_event) simp_all
qed

section \<open>Destruction ends\<close>

lemma run_ops_shrinks: "\<forall>ch. Add ch \<notin> set os \<Longrightarrow> liveChannels (run_ops os p) \<subseteq> liveChannels p"
proof (induction os p rule: run_ops.induct)
  case (3 ch os p)
  then have "liveChannels (run_ops os (removeChannel ch p)) \<subseteq> liveChannels (removeChannel ch p)" by simp
  then show ?case by (auto simp: removeChannel_def)
qed auto

text \<open>Destroying a poller returns, with every channel removed and closed at most once, when the live
  channels have their descriptors and no read handler adds a channel.\<close>

theorem poller_destroyed:
  assumes "finite (liveChannels (en_poll s))" "\<forall>p \<in> liveChannels (en_poll s). 0 \<le> en_fds s p"
    and "\<And>p ch. Add ch \<notin> set (handler p)" "en_closed s = []"
  shows "\<exists>s'. poller_destroy handler s = Some s' \<and> liveChannels (en_poll s') = {} \<and>
    distinct (en_closed s') \<and> set (en_closed s') \<subseteq> liveChannels (en_poll s) \<and> (\<forall>p \<in> set (en_closed s'). en_fds s' p = -1)"
proof -
  have "\<exists>s'. poller_destroy handler s = Some s' \<and> liveChannels (en_poll s') = {} \<and> distinct (en_closed s') \<and>
      set (en_closed s') \<subseteq> set (en_closed s) \<union> liveChannels (en_poll s) \<and> (\<forall>p \<in> set (en_closed s'). en_fds s' p = -1)"
    if "finite (liveChannels (en_poll s))" "\<forall>p \<in> liveChannels (en_poll s). 0 \<le> en_fds s p"
      "distinct (en_closed s)" "\<forall>p \<in> set (en_closed s). en_fds s p = -1" for s
    using that
  proof (induction "card (liveChannels (en_poll s))" arbitrary: s rule: less_induct)
    case less
    show ?case
    proof (cases "liveChannels (en_poll s) = {}")
      case True
      then show ?thesis using less.prems by (subst poller_destroy.simps) auto
    next
      case False
      let ?p = "Min (liveChannels (en_poll s))"
      let ?s = "ending_close handler ?p s"
      have p: "?p \<in> liveChannels (en_poll s)" using False less.prems(1) by simp
      then have fd: "0 \<le> en_fds s ?p" using less.prems(2) by blast
      have sub: "liveChannels (en_poll ?s) \<subseteq> liveChannels (en_poll s) - {?p}"
        using run_ops_shrinks [of "handler ?p" "removeChannel ?p (en_poll s)"] assms(3) fd by (auto simp: ending_close_def removeChannel_def)
      then have "liveChannels (en_poll ?s) \<subset> liveChannels (en_poll s)" using p by blast
      then have card: "card (liveChannels (en_poll ?s)) < card (liveChannels (en_poll s))" using less.prems(1) psubset_card_mono by blast
      have s: "en_fds ?s = (en_fds s)(?p := -1)" "en_closed ?s = en_closed s @ [?p]" using fd by (simp_all add: ending_close_def)
      have "?p \<notin> set (en_closed s)" using fd less.prems(4) by force
      then have "distinct (en_closed ?s)" "\<forall>q \<in> set (en_closed ?s). en_fds ?s q = -1" using less.prems(3,4) s by simp_all
      moreover have "finite (liveChannels (en_poll ?s))" using sub less.prems(1) finite_subset by blast
      moreover have "\<forall>q \<in> liveChannels (en_poll ?s). 0 \<le> en_fds ?s q" using sub less.prems(2) s(1) by auto
      ultimately obtain s' where s': "poller_destroy handler ?s = Some s'" "liveChannels (en_poll s') = {}" "distinct (en_closed s')"
          "set (en_closed s') \<subseteq> set (en_closed ?s) \<union> liveChannels (en_poll ?s)" "\<forall>p \<in> set (en_closed s'). en_fds s' p = -1"
        using less.hyps [OF card] by blast
      have "poller_destroy handler s = Some s'" using False s'(1) by (subst poller_destroy.simps) simp
      moreover have "set (en_closed s') \<subseteq> set (en_closed s) \<union> liveChannels (en_poll s)" using s'(4) sub p s(2) by auto
      ultimately show ?thesis using s' by blast
    qed
  qed
  from this [of s] show ?thesis using assms(1,2,4) by auto
qed

theorem poller_destroyed_witness:
  "\<exists>s'. poller_destroy (\<lambda>p. [Remove (p + 1)]) \<lparr>en_poll = \<lparr>liveChannels = {3, 4, 9}, activeEvs = [], lastActive = -1\<rparr>, en_fds = (\<lambda>_. 5), en_closed = []\<rparr>
     = Some s' \<and> liveChannels (en_poll s') = {}"
  using poller_destroyed [of "\<lparr>en_poll = \<lparr>liveChannels = {3, 4, 9}, activeEvs = [], lastActive = -1\<rparr>, en_fds = (\<lambda>_. 5), en_closed = []\<rparr>"
      "\<lambda>p. [Remove (p + 1)]"] by auto

end
