(* ===== verification/CmdCodes.thy ===== *)
theory CmdCodes
  imports LN_Prelude "HOL-Library.Word"
begin

text \<open>
  The command codes of the protocol (\<open>SSCmdCode.h\<close>), all of them, with their names. \<open>Server\<close> uses six.
\<close>

definition system_codes :: "(string \<times> 32 word) list" where
  "system_codes =
    [(''MSG_DS_MS_REGISTER'', 0x1001),
     (''MSG_DS_MS_REGISTER_ACK'', 0x1002),
     (''MSG_MS_DS_STREAMSTORE_PREPARE'', 0x1003),
     (''MSG_MS_DS_STREAMSTORE_PREPARE_ACK'', 0x1004),
     (''MSG_DS_MS_INVITE_CAMERA'', 0x1005),
     (''MSG_DS_MS_INVITE_CAMERA_ACK'', 0x1006),
     (''MSG_MS_DS_READ_STREAM'', 0x1007),
     (''MSG_MS_DS_READ_STREAM_ACK'', 0x1008),
     (''MSG_DS_MS_READ_STREAM_FINISH'', 0x1009),
     (''MSG_DS_MS_READ_STREAM_FINISH_ACK'', 0x100a),
     (''MSG_DS_MS_SYS_HEARTBEAT'', 0x100b),
     (''MSG_DS_MS_SYS_HEARTBEAT_ACK'', 0x100c),
     (''MSG_DS_MS_STREAMMETA_HEARTBEAT'', 0x100d),
     (''MSG_DS_MS_STREAMMETA_HEARTBEAT_ACK'', 0x100e),
     (''MSG_DS_MS_STORE_UNAVAILABLE'', 0x100f),
     (''MSG_DS_MS_STORE_UNAVAILABLE_ACK'', 0x1010),
     (''MSG_MS_DS_STOPALL_STREAMSTORE'', 0x1011),
     (''MSG_MS_DS_STOPALL_STREAMSTORE_ACK'', 0x1012),
     (''MSG_DS_MS_STORE_FINISH'', 0x1013),
     (''MSG_DS_MS_STORE_FINISH_ACK'', 0x1014),
     (''MSG_MS_DS_SLAVE_TO_MASTER'', 0x1101),
     (''MSG_MS_DS_SLAVE_TO_MASTER_ACK'', 0x1102)]"

definition proto_codes :: "(string \<times> 32 word) list" where
  "proto_codes =
    [(''MSG_DS_STORE_MAIN_REGISTER'', 0x601),
     (''MSG_DS_STORE_MAIN_REGISTER_ACK'', 0x602),
     (''MSG_DS_MAIN_STORE_PREPARE_STORE'', 0x603),
     (''MSG_DS_MAIN_STORE_PREPARE_STORE_ACK'', 0x604),
     (''MSG_DS_MAIN_STORE_START_STORE'', 0x605),
     (''MSG_DS_MAIN_STORE_START_STORE_ACK'', 0x606),
     (''MSG_MS_DS_STOREPLAN'', 0x610),
     (''MSG_MS_DS_DSREGISTER'', 0x611),
     (''MSG_MS_DS_DSREGISTERACK'', 0x612),
     (''MSG_STORE_ADMIN_REGISTER'', 0x613)]"

definition watchdog_codes :: "(string \<times> 32 word) list" where
  "watchdog_codes =
    [(''MSG_PLATFORMMANAGEMENT_WD_START_MAINMS'', 0x2001),
     (''MSG_PLATFORMMANAGEMENT_WD_START_MAINMS_ACK'', 0x2002),
     (''MSG_PLATFORMMANAGEMENT_WD_START_OTHERMS'', 0x2011),
     (''MSG_PLATFORMMANAGEMENT_WD_START_OTHERMS_ACK'', 0x2012),
     (''MSG_WD_WD_START_MS'', 0x2003),
     (''MSG_WD_WD_START_MS_ACK'', 0x2004),
     (''MSG_PLATFORMMANAGEMENT_WD_START_DS'', 0x2005),
     (''MSG_PLATFORMMANAGEMENT_WD_START_DS_ACK'', 0x2006),
     (''MSG_WD_WD_START_DS'', 0x2007),
     (''MSG_WD_WD_START_DS_ACK'', 0x2008),
     (''MSG_PLATFORMMANAGEMENT_WD_CONFIG_MAINMS'', 0x2009),
     (''MSG_PLATFORMMANAGEMENT_WD_CONFIG_MAINMS_ACK'', 0x200a),
     (''MSG_PLATFORMMANAGEMENT_WD_CONFIG_OTHERMS'', 0x2013),
     (''MSG_PLATFORMMANAGEMENT_WD_CONFIG_OTHERMS_ACK'', 0x2014),
     (''MSG_WD_WD_CONFIG_MS'', 0x200b),
     (''MSG_WD_WD_CONFIG_MS_ACK'', 0x200c),
     (''MSG_PLATFORMMANAGEMENT_WD_CONFIG_DS'', 0x200d),
     (''MSG_PLATFORMMANAGEMENT_WD_CONFIG_DS_ACK'', 0x200e),
     (''MSG_WD_WD_CONFIG_DS'', 0x200f),
     (''MSG_WD_WD_CONFIG_DS_ACK'', 0x2010),
     (''MSG_PLATFORMMANAGEMENT_WD_CONFIG_SPECIFY_DS'', 0x2015),
     (''MSG_PLATFORMMANAGEMENT_WD_CONFIG_SPECIFY_DS_ACK'', 0x2016),
     (''MSG_PLATFORMMANAGEMENT_WD_GET_DSCONFIG'', 0x2017),
     (''MSG_PLATFORMMANAGEMENT_WD_GET_DSCONFIG_ACK'', 0x2018),
     (''MSG_WD_WD_GET_DSCONFIG'', 0x2019),
     (''MSG_WD_WD_GET_DSCONFIG_ACK'', 0x201a),
     (''MSG_PLATFORMMANAGEMENT_WD_GET_MSCONFIG'', 0x201b),
     (''MSG_PLATFORMMANAGEMENT_WD_GET_MSCONFIG_ACK'', 0x201c)]"

definition cmd_codes :: "(string \<times> 32 word) list" where
  "cmd_codes = system_codes @ proto_codes @ watchdog_codes"

text \<open>An acknowledgement is named after its request, which precedes it in the header, and has the next code.\<close>

definition is_ack :: "string \<Rightarrow> bool" where
  "is_ack n \<longleftrightarrow> take 3 (rev n) = ''KCA''"

definition acks :: "string \<times> 32 word \<Rightarrow> string \<times> 32 word \<Rightarrow> bool" where
  "acks p q \<longleftrightarrow> (fst q = fst p @ ''_ACK'' \<or> fst q = fst p @ ''ACK'') \<and> snd q = snd p + 1"

fun acks_follow :: "(string \<times> 32 word) list \<Rightarrow> bool" where
  "acks_follow (p # q # r) = ((if is_ack (fst q) then acks p q else True) \<and> acks_follow (q # r))"
| "acks_follow _ = True"

lemma acks_follow_group:
  "acks_follow system_codes" "acks_follow proto_codes" "acks_follow watchdog_codes"
  by (simp_all add: system_codes_def proto_codes_def watchdog_codes_def acks_def is_ack_def)

lemma acks_follow_app: "acks_follow xs \<Longrightarrow> acks_follow (q # r) \<Longrightarrow> \<not> is_ack (fst q) \<Longrightarrow> acks_follow (xs @ q # r)"
  by (induction xs rule: acks_follow.induct) auto

lemma acks_follow_nth:
  "acks_follow xs \<Longrightarrow> Suc i < length xs \<Longrightarrow> is_ack (fst (xs ! Suc i)) \<Longrightarrow> acks (xs ! i) (xs ! Suc i)"
proof (induction xs arbitrary: i rule: acks_follow.induct)
  case (1 p q r)
  then show ?case by (cases i) (auto split: if_splits)
qed auto

lemma code_numbers: "distinct (map (\<lambda>p. uint (snd p)) cmd_codes)"
  by (simp add: cmd_codes_def system_codes_def proto_codes_def watchdog_codes_def)

lemma code_names: "distinct (map fst cmd_codes)"
  by (simp add: cmd_codes_def system_codes_def proto_codes_def watchdog_codes_def)

lemma acks_follow_all: "acks_follow cmd_codes"
proof -
  obtain p r where p: "proto_codes = p # r" "\<not> is_ack (fst p)" by (simp add: proto_codes_def is_ack_def)
  obtain w v where w: "watchdog_codes = w # v" "\<not> is_ack (fst w)" by (simp add: watchdog_codes_def is_ack_def)
  have "acks_follow (proto_codes @ watchdog_codes)" using acks_follow_app [OF acks_follow_group(2), of w v] acks_follow_group(3) w by simp
  then show ?thesis using acks_follow_app [OF acks_follow_group(1), of p "r @ watchdog_codes"] p(2) unfolding cmd_codes_def p(1) by simp
qed

text \<open>The command codes identify the commands: names and codes are distinct, and every
  acknowledgement follows the request it is named after and has the next code.\<close>

theorem command_codes:
  "distinct (map fst cmd_codes) \<and> distinct (map snd cmd_codes) \<and> \<not> is_ack (fst (hd cmd_codes)) \<and>
   (\<forall>i. Suc i < length cmd_codes \<and> is_ack (fst (cmd_codes ! Suc i)) \<longrightarrow> acks (cmd_codes ! i) (cmd_codes ! Suc i))"
proof -
  have "distinct (map snd cmd_codes)" using code_numbers distinct_map [of uint "map snd cmd_codes"] by (simp add: comp_def)
  moreover have "\<not> is_ack (fst (hd cmd_codes))" by (simp add: cmd_codes_def system_codes_def is_ack_def)
  ultimately show ?thesis using code_names acks_follow_nth [OF acks_follow_all] by blast
qed

theorem command_codes_witness:
  "acks (''MSG_DS_MS_REGISTER'', 0x1001) (''MSG_DS_MS_REGISTER_ACK'', 0x1002)"
proof -
  have n: "cmd_codes ! 0 = (''MSG_DS_MS_REGISTER'', 0x1001)" "cmd_codes ! Suc 0 = (''MSG_DS_MS_REGISTER_ACK'', 0x1002)" "Suc 0 < length cmd_codes"
    by (simp_all add: cmd_codes_def system_codes_def)
  have "is_ack (fst (cmd_codes ! Suc 0))" unfolding n by (simp add: is_ack_def)
  then have "acks (cmd_codes ! 0) (cmd_codes ! Suc 0)" using command_codes n(3) by blast
  then show ?thesis by (simp only: n)
qed

end
