(* ===== verification/Loops.thy ===== *)
theory Loops
  imports Tasks
begin

text \<open>
  The wake-up of an event loop from other threads: \<open>EventsImp::safeCall\<close>, \<open>exit\<close>, \<open>wakeup\<close>, the wake-up channel of
  \<open>init\<close> and the frame of \<open>loop\<close> (\<open>event_base.cc\<close>), and \<open>MultiBase\<close>. Each of a call's two actions, the change
  of the shared state and the write to the pipe, is a step of its own, and so is each stage of the loop
  thread; any number of threads call at once. Other channels and timers only make a wait return early.
\<close>

section \<open>State\<close>

text \<open>The stages of \<open>loop\<close>: the test of \<open>exit_\<close>, the wait in the poller, and the draining of the tasks; the last
  turn, after \<open>exit\<close>, does not wait.\<close>

datatype loop_stage = LHead | LPoll | LDrain | LLastPoll | LLastDrain | LEnded

datatype caller = Outside_call | Pushed | Flagged

record 't wsys =
  wtasks :: "'t safequeue"
  wpipe :: nat                  \<comment> \<open>bytes in the pipe\<close>
  wexit :: bool                 \<comment> \<open>\<open>exit_\<close>\<close>
  stage :: loop_stage
  callers :: "caller list"
  wposted :: "'t list"          \<comment> \<open>ghost: accepted tasks\<close>
  wran :: "'t list"             \<comment> \<open>ghost: tasks run\<close>

definition PIPE_CAP :: nat where "PIPE_CAP = 65536"

definition wsys_new :: "nat \<Rightarrow> nat \<Rightarrow> 't wsys" where
  "wsys_new cap n = \<lparr>wtasks = sq_new cap, wpipe = 0, wexit = False, stage = LHead, callers = replicate n Outside_call,
     wposted = [], wran = []\<rparr>"

section \<open>Operations\<close>

text \<open>\<open>safeCall\<close> is \<open>push_task\<close> and \<open>wakeup\<close>; \<open>exit\<close> is \<open>set_exit\<close> and \<open>wakeup\<close>. A full queue refuses the task.\<close>

definition push_task :: "'t \<Rightarrow> 't wsys \<Rightarrow> 't wsys" where
  "push_task t s = (let (ok, q) = sq_push t (wtasks s) in
     s\<lparr>wtasks := q, wposted := (if ok then wposted s @ [t] else wposted s)\<rparr>)"

definition set_exit :: "'t wsys \<Rightarrow> 't wsys" where
  "set_exit s = s\<lparr>wexit := True\<rparr>"

definition wakeup :: "'t wsys \<Rightarrow> 't wsys" where
  "wakeup s = s\<lparr>wpipe := wpipe s + 1\<rparr>"

text \<open>The wake-up callback: it reads up to 1024 bytes, then runs one task after the other.\<close>

definition wake_read :: "'t wsys \<Rightarrow> 't wsys" where
  "wake_read s = s\<lparr>wpipe := wpipe s - min 1024 (wpipe s)\<rparr>"

definition run_next :: "'t \<Rightarrow> 't safequeue \<Rightarrow> 't wsys \<Rightarrow> 't wsys" where
  "run_next t q s = s\<lparr>wtasks := q, wran := wran s @ [t]\<rparr>"

inductive call_step :: "'t wsys \<Rightarrow> 't wsys \<Rightarrow> bool" where
  Post: "i < length (callers s) \<Longrightarrow> callers s ! i = Outside_call \<Longrightarrow>
    call_step s ((push_task t s)\<lparr>callers := (callers s)[i := Pushed]\<rparr>)"
| ExitFlag: "i < length (callers s) \<Longrightarrow> callers s ! i = Outside_call \<Longrightarrow>
    call_step s ((set_exit s)\<lparr>callers := (callers s)[i := Flagged]\<rparr>)"
| Wake: "i < length (callers s) \<Longrightarrow> callers s ! i \<noteq> Outside_call \<Longrightarrow> wpipe s < PIPE_CAP \<Longrightarrow>
    call_step s ((wakeup s)\<lparr>callers := (callers s)[i := Outside_call]\<rparr>)"

inductive loop_step :: "'t wsys \<Rightarrow> 't wsys \<Rightarrow> bool" where
  HeadPoll: "stage s = LHead \<Longrightarrow> \<not> wexit s \<Longrightarrow> loop_step s (s\<lparr>stage := LPoll\<rparr>)"
| HeadExit: "stage s = LHead \<Longrightarrow> wexit s \<Longrightarrow> loop_step s (s\<lparr>stage := LLastPoll\<rparr>)"
| PollRead: "stage s = LPoll \<Longrightarrow> 0 < wpipe s \<Longrightarrow> loop_step s ((wake_read s)\<lparr>stage := LDrain\<rparr>)"
| DrainTask: "stage s = LDrain \<or> stage s = LLastDrain \<Longrightarrow> sq_pop (wtasks s) = (Some t, q) \<Longrightarrow> loop_step s (run_next t q s)"
| DrainEnd: "stage s = LDrain \<Longrightarrow> sq_pop (wtasks s) = (None, q) \<Longrightarrow> loop_step s (s\<lparr>stage := LHead\<rparr>)"
| LastRead: "stage s = LLastPoll \<Longrightarrow> 0 < wpipe s \<Longrightarrow> loop_step s ((wake_read s)\<lparr>stage := LLastDrain\<rparr>)"
| LastNone: "stage s = LLastPoll \<Longrightarrow> wpipe s = 0 \<Longrightarrow> loop_step s (s\<lparr>stage := LEnded\<rparr>)"
| LastEnd: "stage s = LLastDrain \<Longrightarrow> sq_pop (wtasks s) = (None, q) \<Longrightarrow> loop_step s (s\<lparr>stage := LEnded\<rparr>)"

text \<open>Anything else that ends the wait: its timeout, timers, other channels.\<close>

inductive wsys_step :: "'t wsys \<Rightarrow> 't wsys \<Rightarrow> bool" where
  Caller: "call_step s s' \<Longrightarrow> wsys_step s s'"
| Loop: "loop_step s s' \<Longrightarrow> wsys_step s s'"
| OtherEvent: "stage s = LPoll \<Longrightarrow> wsys_step s (s\<lparr>stage := LHead\<rparr>)"

inductive wsys_reach :: "nat \<Rightarrow> nat \<Rightarrow> 't wsys \<Rightarrow> bool" for cap n where
  wsys_init: "wsys_reach cap n (wsys_new cap n)"
| wsys_next: "wsys_reach cap n s \<Longrightarrow> wsys_step s s' \<Longrightarrow> wsys_reach cap n s'"

inductive_cases call_stepE: "call_step s s'"
inductive_cases loop_stepE: "loop_step s s'"
inductive_cases wsys_stepE: "wsys_step s s'"

section \<open>\<open>MultiBase\<close>\<close>

text \<open>\<open>exit\<close> sets the flag of every loop and wakes it; \<open>loop\<close> returns when the loop of the last base has ended and the
  threads of the others can be joined.\<close>

definition multi_exit :: "'t wsys list \<Rightarrow> 't wsys list" where
  "multi_exit bs = map (wakeup \<circ> set_exit) bs"

definition multi_returned :: "'t wsys list \<Rightarrow> bool" where
  "multi_returned bs \<longleftrightarrow> stage (last bs) = LEnded \<and> list_all (\<lambda>b. stage b = LEnded) (butlast bs)"

section \<open>No wake-up is lost\<close>

definition wsys_inv :: "'t wsys \<Rightarrow> bool" where
  "wsys_inv s \<longleftrightarrow>
     wposted s = wran s @ items (wtasks s) \<and>
     (stage s \<in> {LHead, LPoll, LLastPoll} \<and> items (wtasks s) \<noteq> [] \<and> Pushed \<notin> set (callers s) \<longrightarrow> 0 < wpipe s) \<and>
     (stage s = LPoll \<and> wexit s \<and> Flagged \<notin> set (callers s) \<longrightarrow> 0 < wpipe s) \<and>
     (stage s \<in> {LLastPoll, LLastDrain, LEnded} \<longrightarrow> wexit s)"

lemma caller_update: "i < length cs \<Longrightarrow> c \<in> set cs \<Longrightarrow> c \<noteq> cs ! i \<Longrightarrow> c \<in> set (cs[i := d])"
  by (metis in_set_conv_nth length_list_update nth_list_update_neq)

lemma call_step_inv:
  assumes "call_step s s'" "wsys_inv s"
  shows "wsys_inv s'"
  using assms(1)
proof cases
  case (Post i t)
  then have "Pushed \<in> set (callers s')" "Flagged \<in> set (callers s) \<Longrightarrow> Flagged \<in> set (callers s')"
    using caller_update [of i "callers s" Flagged] by (auto simp: set_update_memI)
  then show ?thesis using assms(2) Post by (auto simp: wsys_inv_def push_task_def sq_push_def Let_def)
next
  case (ExitFlag i)
  then have "Flagged \<in> set (callers s')" "Pushed \<in> set (callers s) \<Longrightarrow> Pushed \<in> set (callers s')"
    using caller_update [of i "callers s" Pushed] by (auto simp: set_update_memI)
  then show ?thesis using assms(2) ExitFlag by (auto simp: wsys_inv_def set_exit_def)
next
  case (Wake i)
  then show ?thesis using assms(2) by (auto simp: wsys_inv_def wakeup_def)
qed

lemma loop_step_inv: "loop_step s s' \<Longrightarrow> wsys_inv s \<Longrightarrow> wsys_inv s'"
  by (elim loop_stepE) (auto simp: wsys_inv_def wake_read_def run_next_def sq_pop_def split: list.splits)

lemma wsys_step_inv: "wsys_step s s' \<Longrightarrow> wsys_inv s \<Longrightarrow> wsys_inv s'"
  by (elim wsys_stepE) (auto simp: call_step_inv loop_step_inv, auto simp: wsys_inv_def)

lemma wsys_reach_inv: "wsys_reach cap n s \<Longrightarrow> wsys_inv s"
  by (induction rule: wsys_reach.induct) (auto simp: wsys_step_inv, auto simp: wsys_inv_def wsys_new_def sq_new_def)

section \<open>After \<open>exit\<close> the loop ends\<close>

text \<open>How far the loop thread is from its end once \<open>exit_\<close> is set and no more tasks arrive.\<close>

definition to_end :: "'t wsys \<Rightarrow> nat" where
  "to_end s = length (items (wtasks s)) +
     (case stage s of LDrain \<Rightarrow> 4 | LPoll \<Rightarrow> 5 | LHead \<Rightarrow> 3 | LLastPoll \<Rightarrow> 2 | LLastDrain \<Rightarrow> 1 | LEnded \<Rightarrow> 0)"

lemma loop_step_to_end: "loop_step s s' \<Longrightarrow> wexit s \<Longrightarrow> to_end s' < to_end s \<and> wexit s' \<and> callers s' = callers s"
  by (elim loop_stepE) (auto simp: to_end_def wake_read_def run_next_def sq_pop_def split: list.splits)

lemma loop_stuck:
  assumes "wsys_inv s" "wexit s" "set (callers s) \<subseteq> {Outside_call}" "\<And>s'. \<not> loop_step s s'"
  shows "stage s = LEnded"
proof (cases "stage s")
  case LHead
  then show ?thesis using assms(4) HeadExit [of s] assms(2) by blast
next
  case LPoll
  then have "0 < wpipe s" using assms(1-3) by (auto simp: wsys_inv_def)
  then show ?thesis using assms(4) PollRead [of s] LPoll by blast
next
  case LDrain
  show ?thesis using assms(4) DrainTask [of s] DrainEnd [of s] LDrain by (cases "sq_pop (wtasks s)"; cases "fst (sq_pop (wtasks s))") auto
next
  case LLastPoll
  show ?thesis using assms(4) LastRead [of s] LastNone [of s] LLastPoll by blast
next
  case LLastDrain
  show ?thesis using assms(4) DrainTask [of s] LastEnd [of s] LLastDrain by (cases "sq_pop (wtasks s)"; cases "fst (sq_pop (wtasks s))") auto
qed

lemma loop_run_bound:
  "(loop_step ^^ k) s s' \<Longrightarrow> wexit s \<Longrightarrow> k + to_end s' \<le> to_end s \<and> wexit s' \<and> callers s' = callers s"
proof (induction k arbitrary: s')
  case (Suc k)
  then obtain m where m: "(loop_step ^^ k) s m" "loop_step m s'" by auto
  then show ?case using Suc.IH [OF m(1) Suc.prems(2)] loop_step_to_end [OF m(2)] by auto
qed simp

lemma loop_run_inv: "(loop_step ^^ k) s s' \<Longrightarrow> wsys_inv s \<Longrightarrow> wsys_inv s'"
  by (induction k arbitrary: s') (auto dest: loop_step_inv)

text \<open>At the end nothing is left when no caller was under way.\<close>

definition all_run :: "'t wsys \<Rightarrow> bool" where
  "all_run s \<longleftrightarrow> stage s = LEnded \<longrightarrow> items (wtasks s) = []"

lemma loop_step_all_run:
  "loop_step s s' \<Longrightarrow> wsys_inv s \<Longrightarrow> set (callers s) \<subseteq> {Outside_call} \<Longrightarrow> all_run s \<Longrightarrow> all_run s'"
  by (elim loop_stepE) (auto simp: all_run_def wsys_inv_def wake_read_def run_next_def sq_pop_def split: list.splits)

lemma loop_run_all_run:
  "(loop_step ^^ k) s s' \<Longrightarrow> wsys_inv s \<Longrightarrow> wexit s \<Longrightarrow> set (callers s) \<subseteq> {Outside_call} \<Longrightarrow> all_run s \<Longrightarrow> all_run s'"
proof (induction k arbitrary: s')
  case (Suc k)
  then obtain m where m: "(loop_step ^^ k) s m" "loop_step m s'" by auto
  have "callers m = callers s" using loop_run_bound [OF m(1)] Suc.prems by blast
  then show ?case using loop_step_all_run [OF m(2) loop_run_inv [OF m(1)]] Suc.IH [OF m(1)] Suc.prems by auto
qed simp

text \<open>C25. However the callers and the loop interleave, the loop thread never sleeps over work: when all calls
  in progress have returned and a task is queued or \<open>exit\<close> was called, a waiting loop has a byte in its
  pipe. And the accepted tasks are at all times those run, in the order they were accepted, followed
  by those queued.\<close>

theorem no_lost_wakeup:
  assumes "wsys_reach cap n s"
  shows "wposted s = wran s @ items (wtasks s) \<and>
    (stage s = LPoll \<and> set (callers s) \<subseteq> {Outside_call} \<and> (items (wtasks s) \<noteq> [] \<or> wexit s) \<longrightarrow> 0 < wpipe s)"
  using wsys_reach_inv [OF assms] by (auto simp: wsys_inv_def)

text \<open>C26. Once \<open>exit\<close> has returned and no call is in progress, the loop thread ends by itself: it takes a bounded
  number of steps, needs no timeout, and when it can take no more it has ended with every accepted task run.\<close>

theorem exit_ends_loop:
  assumes "wsys_reach cap n s" "wexit s" "set (callers s) \<subseteq> {Outside_call}" "stage s \<noteq> LEnded" "(loop_step ^^ k) s s'"
  shows "k \<le> length (items (wtasks s)) + 5 \<and> ((\<forall>s''. \<not> loop_step s' s'') \<longrightarrow> stage s' = LEnded \<and> wran s' = wposted s')"
proof -
  have inv: "wsys_inv s" "wsys_inv s'" using wsys_reach_inv [OF assms(1)] loop_run_inv [OF assms(5)] by blast+
  have b: "k + to_end s' \<le> to_end s" "wexit s'" "callers s' = callers s" using loop_run_bound [OF assms(5,2)] by blast+
  have "to_end s \<le> length (items (wtasks s)) + 5" by (simp add: to_end_def split: loop_stage.split)
  moreover have "all_run s'" using loop_run_all_run [OF assms(5) inv(1) assms(2,3)] assms(4) by (simp add: all_run_def)
  moreover have "stage s' = LEnded" if "\<forall>s''. \<not> loop_step s' s''" using loop_stuck [OF inv(2) b(2)] b(3) assms(3) that by simp
  ultimately show ?thesis using b(1) inv(2) by (auto simp: all_run_def wsys_inv_def)
qed

section \<open>Runs\<close>

definition wdemo :: "nat list \<Rightarrow> nat \<Rightarrow> bool \<Rightarrow> loop_stage \<Rightarrow> caller \<Rightarrow> nat list \<Rightarrow> nat wsys" where
  "wdemo q p e st c rs = \<lparr>wtasks = \<lparr>items = q, capacity = 0, sq_exited = False\<rparr>, wpipe = p, wexit = e, stage = st,
     callers = [c], wposted = rs @ q, wran = rs\<rparr>"

lemma wdemo_steps:
  "wsys_new 0 1 = wdemo [] 0 False LHead Outside_call []"
  "loop_step (wdemo [] 0 False LHead Outside_call []) (wdemo [] 0 False LPoll Outside_call [])"
  "call_step (wdemo [] 0 False LPoll Outside_call []) (wdemo [7] 0 False LPoll Pushed [])"
  "call_step (wdemo [7] 0 False LPoll Pushed []) (wdemo [7] 1 False LPoll Outside_call [])"
  "call_step (wdemo [7] 1 False LPoll Outside_call []) (wdemo [7] 1 True LPoll Flagged [])"
  "call_step (wdemo [7] 1 True LPoll Flagged []) (wdemo [7] 2 True LPoll Outside_call [])"
proof -
  show "wsys_new 0 1 = wdemo [] 0 False LHead Outside_call []" by (simp add: wsys_new_def wdemo_def sq_new_def)
  show "loop_step (wdemo [] 0 False LHead Outside_call []) (wdemo [] 0 False LPoll Outside_call [])"
    using HeadPoll [of "wdemo [] 0 False LHead Outside_call []"] by (simp add: wdemo_def)
  show "call_step (wdemo [] 0 False LPoll Outside_call []) (wdemo [7] 0 False LPoll Pushed [])"
    using Post [of 0 "wdemo [] 0 False LPoll Outside_call []" 7] by (simp add: wdemo_def push_task_def sq_push_def)
  show "call_step (wdemo [7] 0 False LPoll Pushed []) (wdemo [7] 1 False LPoll Outside_call [])"
    using Wake [of 0 "wdemo [7] 0 False LPoll Pushed []"] by (simp add: wdemo_def wakeup_def PIPE_CAP_def)
  show "call_step (wdemo [7] 1 False LPoll Outside_call []) (wdemo [7] 1 True LPoll Flagged [])"
    using ExitFlag [of 0 "wdemo [7] 1 False LPoll Outside_call []"] by (simp add: wdemo_def set_exit_def)
  show "call_step (wdemo [7] 1 True LPoll Flagged []) (wdemo [7] 2 True LPoll Outside_call [])"
    using Wake [of 0 "wdemo [7] 1 True LPoll Flagged []"] by (simp add: wdemo_def wakeup_def PIPE_CAP_def numeral_2_eq_2)
qed

lemma wdemo_reach:
  "wsys_reach 0 1 (wdemo [7] 1 False LPoll Outside_call [])" "wsys_reach 0 1 (wdemo [7] 2 True LPoll Outside_call [])"
proof -
  have "wsys_reach 0 1 (wdemo [] 0 False LHead Outside_call [])" unfolding wdemo_steps(1) [symmetric] by (rule wsys_init)
  then have "wsys_reach 0 1 (wdemo [] 0 False LPoll Outside_call [])" using wdemo_steps(2) wsys_next Loop by blast
  then have "wsys_reach 0 1 (wdemo [7] 0 False LPoll Pushed [])" using wdemo_steps(3) wsys_next Caller by blast
  then show r: "wsys_reach 0 1 (wdemo [7] 1 False LPoll Outside_call [])" using wdemo_steps(4) wsys_next Caller by blast
  then have "wsys_reach 0 1 (wdemo [7] 1 True LPoll Flagged [])" using wdemo_steps(5) wsys_next Caller by blast
  then show "wsys_reach 0 1 (wdemo [7] 2 True LPoll Outside_call [])" using wdemo_steps(6) wsys_next Caller by blast
qed

lemma wdemo_end:
  "(loop_step ^^ 5) (wdemo [7] 2 True LPoll Outside_call []) (wdemo [] 0 True LEnded Outside_call [7])"
  "\<not> loop_step (wdemo [] 0 True LEnded Outside_call [7]) s"
proof -
  note step = relpowp_Suc_I2 [where P = "loop_step :: nat wsys \<Rightarrow> _"]
  have 1: "loop_step (wdemo [7] 2 True LPoll Outside_call []) (wdemo [7] 0 True LDrain Outside_call [])"
    using PollRead [of "wdemo [7] 2 True LPoll Outside_call []"] by (simp add: wdemo_def wake_read_def)
  have 2: "loop_step (wdemo [7] 0 True LDrain Outside_call []) (wdemo [] 0 True LDrain Outside_call [7])"
    using DrainTask [of "wdemo [7] 0 True LDrain Outside_call []"] by (simp add: wdemo_def run_next_def sq_pop_def)
  have 3: "loop_step (wdemo [] 0 True LDrain Outside_call [7]) (wdemo [] 0 True LHead Outside_call [7])"
    using DrainEnd [of "wdemo [] 0 True LDrain Outside_call [7]"] by (simp add: wdemo_def sq_pop_def)
  have 4: "loop_step (wdemo [] 0 True LHead Outside_call [7]) (wdemo [] 0 True LLastPoll Outside_call [7])"
    using HeadExit [of "wdemo [] 0 True LHead Outside_call [7]"] by (simp add: wdemo_def)
  have 5: "loop_step (wdemo [] 0 True LLastPoll Outside_call [7]) (wdemo [] 0 True LEnded Outside_call [7])"
    using LastNone [of "wdemo [] 0 True LLastPoll Outside_call [7]"] by (simp add: wdemo_def)
  have "(loop_step ^^ Suc (Suc (Suc (Suc (Suc 0))))) (wdemo [7] 2 True LPoll Outside_call []) (wdemo [] 0 True LEnded Outside_call [7])"
    using step [OF 1 step [OF 2 step [OF 3 step [OF 4 step [OF 5 relpowp_0_I]]]]] .
  then show "(loop_step ^^ 5) (wdemo [7] 2 True LPoll Outside_call []) (wdemo [] 0 True LEnded Outside_call [7])" by (simp add: eval_nat_numeral)
  show "\<not> loop_step (wdemo [] 0 True LEnded Outside_call [7]) s" by (auto simp: wdemo_def elim: loop_stepE)
qed

theorem no_lost_wakeup_witness:
  "\<exists>s :: nat wsys. wsys_reach 0 1 s \<and> stage s = LPoll \<and> items (wtasks s) = [7] \<and> 0 < wpipe s"
proof -
  let ?s = "wdemo [7] 1 False LPoll Outside_call []"
  have "0 < wpipe ?s" using no_lost_wakeup [OF wdemo_reach(1)] by (simp add: wdemo_def)
  then show ?thesis using wdemo_reach(1) by (intro exI [of _ ?s]) (simp add: wdemo_def)
qed

theorem exit_ends_loop_witness:
  "\<exists>s s' :: nat wsys. wsys_reach 0 1 s \<and> (loop_step ^^ 5) s s' \<and> stage s' = LEnded \<and> wran s' = [7]"
proof -
  have "stage (wdemo [] 0 True LEnded Outside_call [7]) = LEnded \<and>
      wran (wdemo [] 0 True LEnded Outside_call [7]) = wposted (wdemo [] 0 True LEnded Outside_call [7])"
    using exit_ends_loop [OF wdemo_reach(2) _ _ _ wdemo_end(1)] wdemo_end(2) by (simp add: wdemo_def)
  then show ?thesis using wdemo_reach(2) wdemo_end(1) by (intro exI conjI) (assumption | simp add: wdemo_def)+
qed

text \<open>After \<open>MultiBase::exit\<close> every loop without other callers ends, and \<open>MultiBase::loop\<close> returns when they have.\<close>

theorem multi_exit_returns:
  assumes "\<forall>b \<in> set bs. \<exists>cap n. wsys_reach cap n b \<and> set (callers b) \<subseteq> {Outside_call}" "bs \<noteq> []"
    and "list_all2 (\<lambda>b b'. \<exists>k. (loop_step ^^ k) b b' \<and> (\<forall>c. \<not> loop_step b' c)) (multi_exit bs) bs'"
  shows "multi_returned bs'"
proof -
  have "stage b' = LEnded" if "b \<in> set bs" "(loop_step ^^ k) (wakeup (set_exit b)) b'" "\<forall>c. \<not> loop_step b' c" for b b' k
  proof -
    let ?b = "wakeup (set_exit b)"
    have "wsys_inv b" "set (callers b) \<subseteq> {Outside_call}" using assms(1) that(1) wsys_reach_inv by blast+
    then have "wsys_inv ?b" "wexit ?b" "set (callers ?b) \<subseteq> {Outside_call}" by (auto simp: wsys_inv_def wakeup_def set_exit_def)
    then show ?thesis using loop_stuck [OF loop_run_inv [OF that(2)]] loop_run_bound [OF that(2)] that(3) by auto
  qed
  then have ended: "stage b' = LEnded" if "b \<in> set bs" "\<exists>k. (loop_step ^^ k) ((wakeup \<circ> set_exit) b) b' \<and> (\<forall>c. \<not> loop_step b' c)" for b b'
    using that by auto
  have len: "length bs = length bs'" using list_all2_lengthD [OF assms(3)] by (simp add: multi_exit_def)
  have "stage (bs' ! i) = LEnded" if i: "i < length bs'" for i
  proof -
    have "\<exists>k. (loop_step ^^ k) (multi_exit bs ! i) (bs' ! i) \<and> (\<forall>c. \<not> loop_step (bs' ! i) c)"
      using list_all2_nthD2 [OF assms(3) i] .
    moreover have e: "multi_exit bs ! i = (wakeup \<circ> set_exit) (bs ! i)" using i len by (simp add: multi_exit_def)
    moreover have "bs ! i \<in> set bs" using i len by simp
    ultimately show ?thesis using ended [of "bs ! i" "bs' ! i"] unfolding e by blast
  qed
  then have "\<forall>b' \<in> set bs'. stage b' = LEnded" by (metis in_set_conv_nth)
  moreover have "bs' \<noteq> []" using assms(2,3) by (auto simp: multi_exit_def)
  ultimately show ?thesis by (auto simp: multi_returned_def list_all_iff dest: in_set_butlastD)
qed

end
