(* ===== verification/Statuses.thy ===== *)
theory Statuses
  imports Files
begin

text \<open>
  The life of \<open>Status\<close> objects (\<open>status.h\<close>): each owns the block its \<open>state_\<close> points to. Constructors, copies, moves,
  both assignments and the destructor, over a heap of blocks and a map from variables to their pointers. A
  second \<open>delete[]\<close> or a read of a deleted block is \<open>UseAfterFree\<close>.
\<close>

section \<open>Objects and the heap\<close>

record sheap =
  blocks :: "nat \<Rightarrow> string option"
  next_block :: nat
  objs :: "nat \<Rightarrow> nat option option"     \<comment> \<open>\<open>None\<close>: no object; \<open>Some None\<close>: \<open>NULL\<close>\<close>

definition sheap_new :: sheap where
  "sheap_new = \<lparr>blocks = (\<lambda>_. None), next_block = 0, objs = (\<lambda>_. None)\<rparr>"

text \<open>\<open>new char[]\<close> with the content written into it, and \<open>delete[]\<close>.\<close>

definition alloc :: "status \<Rightarrow> sheap \<Rightarrow> nat option \<times> sheap" where
  "alloc st h = (case st of None \<Rightarrow> (None, h)
     | Some b \<Rightarrow> (Some (next_block h), h\<lparr>blocks := (blocks h)(next_block h \<mapsto> b), next_block := next_block h + 1\<rparr>))"

definition free :: "nat option \<Rightarrow> sheap \<Rightarrow> sheap res" where
  "free p h = (case p of None \<Rightarrow> Inr h
     | Some a \<Rightarrow> if blocks h a = None then Inl UseAfterFree else Inr (h\<lparr>blocks := (blocks h)(a := None)\<rparr>))"

definition read_block :: "nat option \<Rightarrow> sheap \<Rightarrow> status res" where
  "read_block p h = (case p of None \<Rightarrow> Inr None
     | Some a \<Rightarrow> (case blocks h a of None \<Rightarrow> Inl UseAfterFree | Some b \<Rightarrow> Inr (Some b)))"

definition set_obj :: "nat \<Rightarrow> nat option option \<Rightarrow> sheap \<Rightarrow> sheap" where
  "set_obj v p h = h\<lparr>objs := (objs h)(v := p)\<rparr>"

definition ptr :: "nat \<Rightarrow> sheap \<Rightarrow> nat option" where
  "ptr v h = (case objs h v of None \<Rightarrow> None | Some p \<Rightarrow> p)"

text \<open>The copy of a block, as in \<open>copyState\<close>.\<close>

definition copy_ptr :: "nat option \<Rightarrow> sheap \<Rightarrow> (nat option \<times> sheap) res" where
  "copy_ptr p h = rbind (read_block p h) (\<lambda>st. rbind (copyState st) (\<lambda>st'. Inr (alloc st' h)))"

definition st_init :: "status \<Rightarrow> nat \<Rightarrow> sheap \<Rightarrow> sheap res" where
  "st_init st v h = (let (p, h1) = alloc st h in Inr (set_obj v (Some p) h1))"

definition st_copy :: "nat \<Rightarrow> nat \<Rightarrow> sheap \<Rightarrow> sheap res" where
  "st_copy v u h = rbind (copy_ptr (ptr u h) h) (\<lambda>(p, h1). Inr (set_obj v (Some p) h1))"

definition st_assign :: "nat \<Rightarrow> nat \<Rightarrow> sheap \<Rightarrow> sheap res" where
  "st_assign v u h = rbind (free (ptr v h) h) (\<lambda>h1. rbind (copy_ptr (ptr u h1) h1) (\<lambda>(p, h2). Inr (set_obj v (Some p) h2)))"

definition st_move :: "nat \<Rightarrow> nat \<Rightarrow> sheap \<Rightarrow> sheap res" where
  "st_move v u h = Inr (set_obj u (Some None) (set_obj v (Some (ptr u h)) h))"

definition st_move_assign :: "nat \<Rightarrow> nat \<Rightarrow> sheap \<Rightarrow> sheap res" where
  "st_move_assign v u h = rbind (free (ptr v h) h) (\<lambda>h1. Inr (set_obj u (Some None) (set_obj v (Some (ptr u h1)) h1)))"

definition st_destroy :: "nat \<Rightarrow> sheap \<Rightarrow> sheap res" where
  "st_destroy v h = rbind (free (ptr v h) h) (\<lambda>h1. Inr (set_obj v None h1))"

section \<open>Programs\<close>

datatype st_op = NewStatus nat status | CopyStatus nat nat | AssignStatus nat nat | MoveStatus nat nat | MoveAssign nat nat | DestroyStatus nat

fun st_do :: "st_op \<Rightarrow> sheap \<Rightarrow> sheap res" where
  "st_do (NewStatus v st) h = st_init st v h"
| "st_do (CopyStatus v u) h = st_copy v u h"
| "st_do (AssignStatus v u) h = st_assign v u h"
| "st_do (MoveStatus v u) h = st_move v u h"
| "st_do (MoveAssign v u) h = st_move_assign v u h"
| "st_do (DestroyStatus v) h = st_destroy v h"

text \<open>What the language allows: construct an object that does not exist, use one that does. Content is a block whose size field is its
  length, as all constructors write it.\<close>

definition block_ok :: "status \<Rightarrow> bool" where
  "block_ok st \<longleftrightarrow> (case st of None \<Rightarrow> True | Some b \<Rightarrow> 4 \<le> length b \<and> unat (load32 b) = length b)"

fun st_legal :: "st_op \<Rightarrow> sheap \<Rightarrow> bool" where
  "st_legal (NewStatus v st) h = (objs h v = None \<and> block_ok st)"
| "st_legal (CopyStatus v u) h = (objs h v = None \<and> objs h u \<noteq> None)"
| "st_legal (AssignStatus v u) h = (objs h v \<noteq> None \<and> objs h u \<noteq> None)"
| "st_legal (MoveStatus v u) h = (objs h v = None \<and> objs h u \<noteq> None)"
| "st_legal (MoveAssign v u) h = (objs h v \<noteq> None \<and> objs h u \<noteq> None)"
| "st_legal (DestroyStatus v) h = (objs h v \<noteq> None)"

fun st_self :: "st_op \<Rightarrow> bool" where
  "st_self (AssignStatus v u) = (u = v)"
| "st_self _ = False"

section \<open>Ownership\<close>

text \<open>Every block has exactly one owner, and every pointer a block.\<close>

definition owned :: "sheap \<Rightarrow> bool" where
  "owned h \<longleftrightarrow>
     (\<forall>v u a. objs h v = Some (Some a) \<and> objs h u = Some (Some a) \<longrightarrow> u = v) \<and>
     (\<forall>a. blocks h a \<noteq> None \<longrightarrow> (\<exists>v. objs h v = Some (Some a))) \<and>
     (\<forall>v a. objs h v = Some (Some a) \<longrightarrow> a < next_block h \<and> (\<exists>b. blocks h a = Some b \<and> block_ok (Some b)))"

definition empty_at :: "nat \<Rightarrow> sheap \<Rightarrow> bool" where
  "empty_at v h \<longleftrightarrow> objs h v = None \<or> objs h v = Some None"

lemma copyState_block: "block_ok st \<Longrightarrow> copyState st = Inr st"
  by (auto simp: block_ok_def copyState_def split: option.splits)

lemma owned_new: "owned sheap_new"
  by (simp add: owned_def sheap_new_def)

lemma owned_live: "owned h \<Longrightarrow> objs h v = Some (Some a) \<Longrightarrow> \<exists>b. blocks h a = Some b \<and> block_ok (Some b)"
  unfolding owned_def by blast

lemma owned_set_null:
  assumes "owned h" "empty_at v h" "x = None \<or> x = Some None"
  shows "owned (set_obj v x h)"
proof -
  have "objs (set_obj v x h) u = Some (Some a) \<longleftrightarrow> objs h u = Some (Some a)" for u a
    using assms(2,3) by (auto simp: set_obj_def empty_at_def)
  moreover have "blocks (set_obj v x h) = blocks h" "next_block (set_obj v x h) = next_block h" by (simp_all add: set_obj_def)
  ultimately show ?thesis using assms(1) by (simp add: owned_def)
qed

lemma owned_free:
  assumes "owned h" "objs h v = Some (Some a)" "x = None \<or> x = Some None"
  shows "owned (set_obj v x (h\<lparr>blocks := (blocks h)(a := None)\<rparr>))" (is "owned ?h")
proof -
  have o: "objs ?h u = Some (Some c) \<longleftrightarrow> objs h u = Some (Some c) \<and> c \<noteq> a" for u c
    using assms by (auto simp: set_obj_def owned_def)
  have "blocks ?h = (blocks h)(a := None)" "next_block ?h = next_block h" by (simp_all add: set_obj_def)
  then show ?thesis using assms(1) o unfolding owned_def by auto
qed

lemma owned_alloc:
  assumes "owned h" "empty_at v h" "block_ok (Some b)"
  shows "owned (set_obj v (Some (Some (next_block h))) (h\<lparr>blocks := (blocks h)(next_block h \<mapsto> b), next_block := next_block h + 1\<rparr>))" (is "owned ?h")
proof -
  have new: "objs h u \<noteq> Some (Some (next_block h))" for u using assms(1) by (auto simp: owned_def)
  have o: "objs ?h u = Some (Some c) \<longleftrightarrow> (if c = next_block h then u = v else objs h u = Some (Some c))" for u c
    using assms(2) new by (auto simp: set_obj_def empty_at_def)
  have f: "blocks ?h = (blocks h)(next_block h \<mapsto> b)" "next_block ?h = next_block h + 1" by (simp_all add: set_obj_def)
  show ?thesis using assms(1,3) unfolding owned_def o f by (auto split: if_splits) (metis less_SucI)+
qed

lemma owned_move:
  assumes "owned h" "empty_at v h" "u \<noteq> v"
  shows "owned (set_obj u (Some None) (set_obj v (Some (ptr u h)) h))" (is "owned ?h")
proof -
  have o: "objs ?h w = Some (Some c) \<longleftrightarrow> (if w = v then objs h u = Some (Some c) else w \<noteq> u \<and> objs h w = Some (Some c))" for w c
    using assms(3) by (auto simp: set_obj_def ptr_def split: option.splits)
  have f: "blocks ?h = blocks h" "next_block ?h = next_block h" by (simp_all add: set_obj_def)
  have e: "objs h v \<noteq> Some (Some c)" for c using assms(2) by (auto simp: empty_at_def)
  show ?thesis
    unfolding owned_def
  proof (intro conjI allI impI)
    fix x y a assume "objs ?h x = Some (Some a) \<and> objs ?h y = Some (Some a)"
    then show "y = x" using assms(1) unfolding o owned_def by metis
  next
    fix a assume "blocks ?h a \<noteq> None"
    then obtain w where "objs h w = Some (Some a)" using assms(1) f by (auto simp: owned_def)
    then show "\<exists>w. objs ?h w = Some (Some a)" unfolding o using assms(3) e by metis
  next
    fix w a assume "objs ?h w = Some (Some a)"
    then show "a < next_block ?h" "\<exists>b. blocks ?h a = Some b \<and> block_ok (Some b)"
      using assms(1) f unfolding o owned_def by (metis, metis)
  qed
qed

text \<open>Releasing what an object holds; what another object holds can still be read.\<close>

lemma free_ok:
  assumes "owned h" "objs h v \<noteq> None"
  shows "\<exists>h1. free (ptr v h) h = Inr h1 \<and> owned (set_obj v None h1) \<and> owned (set_obj v (Some None) h1) \<and> objs h1 = objs h"
proof (cases "ptr v h")
  case None
  then have "empty_at v h" using assms(2) by (auto simp: ptr_def empty_at_def)
  then show ?thesis using None owned_set_null [OF assms(1)] by (simp add: free_def)
next
  case (Some a)
  then have a: "objs h v = Some (Some a)" using assms(2) by (auto simp: ptr_def split: option.splits)
  then have "blocks h a \<noteq> None" using owned_live [OF assms(1)] by blast
  then show ?thesis using Some owned_free [OF assms(1) a] by (simp add: free_def)
qed

lemma copy_ok:
  assumes "owned (set_obj v (Some None) h)" "u \<noteq> v" "objs h u \<noteq> None"
  shows "\<exists>p h1. copy_ptr (ptr u h) h = Inr (p, h1) \<and> owned (set_obj v (Some p) h1)"
proof (cases "ptr u h")
  case None
  then show ?thesis using assms(1) by (simp add: copy_ptr_def read_block_def copyState_def alloc_def)
next
  case (Some a)
  let ?h = "set_obj v (Some None) h"
  have "objs ?h u = Some (Some a)" using Some assms(2,3) by (auto simp: ptr_def set_obj_def split: option.splits)
  then obtain b where b: "blocks h a = Some b" "block_ok (Some b)"
    using owned_live [OF assms(1)] by (auto simp: set_obj_def)
  have "owned (set_obj v (Some (Some (next_block ?h))) (?h\<lparr>blocks := (blocks ?h)(next_block ?h \<mapsto> b), next_block := next_block ?h + 1\<rparr>))"
    by (rule owned_alloc [OF assms(1) _ b(2)]) (simp add: empty_at_def set_obj_def)
  then show ?thesis using Some b copyState_block [OF b(2)] by (simp add: copy_ptr_def read_block_def alloc_def set_obj_def)
qed

lemma st_do_ok:
  assumes "owned h" "st_legal opr h" "\<not> st_self opr"
  shows "\<exists>h'. st_do opr h = Inr h' \<and> owned h'"
proof (cases opr)
  case (NewStatus v st)
  then have e: "empty_at v h" "block_ok st" using assms(2) by (simp_all add: empty_at_def)
  show ?thesis
    using NewStatus owned_set_null [OF assms(1) e(1), of "Some None"] owned_alloc [OF assms(1) e(1)] e(2)
    by (cases st) (simp_all add: st_init_def alloc_def)
next
  case (CopyStatus v u)
  then have "empty_at v h" "u \<noteq> v" "objs h u \<noteq> None" using assms(2) by (auto simp: empty_at_def)
  then show ?thesis using CopyStatus copy_ok [OF owned_set_null [OF assms(1)], of v u] by (auto simp: st_copy_def)
next
  case (AssignStatus v u)
  then obtain h1 where h1: "free (ptr v h) h = Inr h1" "owned (set_obj v (Some None) h1)" "objs h1 = objs h"
    using free_ok [OF assms(1)] assms(2) by auto
  then show ?thesis using AssignStatus copy_ok [OF h1(2), of u] assms(2,3) by (auto simp: st_assign_def)
next
  case (MoveStatus v u)
  then have "empty_at v h" "u \<noteq> v" using assms(2) by (auto simp: empty_at_def)
  then show ?thesis using MoveStatus owned_move [OF assms(1)] by (simp add: st_move_def)
next
  case (MoveAssign v u)
  then obtain h1 where h1: "free (ptr v h) h = Inr h1" "owned (set_obj v (Some None) h1)" "objs h1 = objs h"
    using free_ok [OF assms(1)] assms(2) by auto
  have same: "set_obj w x (set_obj w y g) = set_obj w x g" for w x y g by (simp add: set_obj_def)
  show ?thesis
  proof (cases "u = v")
    case True
    then show ?thesis using MoveAssign h1 by (simp add: st_move_assign_def same)
  next
    case False
    have "owned (set_obj u (Some None) (set_obj v (Some (ptr u (set_obj v (Some None) h1))) (set_obj v (Some None) h1)))"
      by (rule owned_move [OF h1(2) _ False]) (simp add: empty_at_def set_obj_def)
    moreover have "ptr u (set_obj v (Some None) h1) = ptr u h1" using False by (simp add: ptr_def set_obj_def)
    ultimately show ?thesis using MoveAssign h1(1) by (simp add: st_move_assign_def same)
  qed
next
  case (DestroyStatus v)
  then obtain h1 where "free (ptr v h) h = Inr h1" "owned (set_obj v None h1)" using free_ok [OF assms(1), of v] assms(2) by auto
  then show ?thesis using DestroyStatus by (simp add: st_destroy_def)
qed

text \<open>A program is a list of operations, each legal where it runs.\<close>

fun st_program :: "st_op list \<Rightarrow> sheap \<Rightarrow> bool" where
  "st_program [] h = True"
| "st_program (opr # os) h = (st_legal opr h \<and> \<not> st_self opr \<and> (case st_do opr h of Inl _ \<Rightarrow> True | Inr h' \<Rightarrow> st_program os h'))"

fun st_run :: "st_op list \<Rightarrow> sheap \<Rightarrow> sheap res" where
  "st_run [] h = Inr h"
| "st_run (opr # os) h = rbind (st_do opr h) (st_run os)"

lemma st_run_owned: "owned h \<Longrightarrow> st_program os h \<Longrightarrow> \<exists>h'. st_run os h = Inr h' \<and> owned h'"
proof (induction os arbitrary: h)
  case (Cons opr os)
  then obtain h1 where "st_do opr h = Inr h1" "owned h1" using st_do_ok [of h opr] by auto
  then show ?case using Cons by auto
qed simp

text \<open>C28. Any sequence of constructions, copies, moves, assignments and destructions of \<open>Status\<close> objects that
  the language allows, without a copy assignment of an object to itself, reads no deleted block, deletes none
  twice and leaks none: when all objects are gone, so are all blocks.\<close>

theorem status_ownership:
  assumes "st_program os sheap_new"
  shows "\<exists>h. st_run os sheap_new = Inr h \<and> ((\<forall>v. objs h v = None) \<longrightarrow> (\<forall>a. blocks h a = None))"
  using st_run_owned [OF owned_new assms] by (fastforce simp: owned_def)

lemma fromFormat_block: "length t < 2 ^ 31 \<Longrightarrow> block_ok (status_fromFormat c t)"
proof -
  assume "length t < 2 ^ 31"
  then have "unat (of_nat (length t + 9) :: 32 word) = length t + 9" by (simp only: unsigned_of_nat) (simp add: take_bit_nat_eq_self)
  moreover have "8 + length t + 1 = length t + 9" by simp
  ultimately have "unat (of_nat (8 + length t + 1) :: 32 word) = length t + 9" by (simp only:)
  then show ?thesis by (simp add: block_ok_def status_fromFormat_def del: of_nat_add)
qed

theorem status_ownership_witness:
  "\<exists>h. st_run [NewStatus 0 (status_fromFormat 5 ''err''), CopyStatus 1 0, MoveStatus 2 0, AssignStatus 1 2, DestroyStatus 1, DestroyStatus 0]
     sheap_new = Inr h"
proof -
  obtain b where b: "status_fromFormat 5 ''err'' = Some b" by (simp add: status_fromFormat_def)
  have ok: "block_ok (Some b)" using fromFormat_block [of "''err''" 5] b by simp
  note c = copyState_block [OF ok]
  have "st_program [NewStatus 0 (Some b), CopyStatus 1 0, MoveStatus 2 0, AssignStatus 1 2, DestroyStatus 1, DestroyStatus 0] sheap_new"
    by (simp add: ok c sheap_new_def st_init_def alloc_def set_obj_def st_copy_def copy_ptr_def ptr_def read_block_def st_move_def st_assign_def
        free_def st_destroy_def)
  from status_ownership [OF this] show ?thesis unfolding b by blast
qed

text \<open>A copy assignment of an object to itself deletes the block and then copies it.\<close>

theorem self_assignment:
  assumes "owned h" "objs h v = Some (Some a)"
  shows "st_assign v v h = Inl UseAfterFree"
proof -
  have "blocks h a \<noteq> None" using owned_live [OF assms] by blast
  then show ?thesis using assms(2) by (simp add: st_assign_def free_def ptr_def copy_ptr_def read_block_def)
qed

end
