(* ===== verification/Idles.thy ===== *)
theory Idles
  imports Timers
begin

text \<open>
  Idle callbacks of connections: \<open>TcpConn::addIdleCB\<close> (\<open>event_base.cc\<close>) and the places where \<open>handleRead\<close> and \<open>cleanup\<close>
  (\<open>conn.cc\<close>) update and unregister the ids in \<open>idleIds_\<close>, over the idle lists of \<open>Timers\<close>. A connection is a number; of
  its state only \<open>idleIds_\<close> and whether it has a channel matter here. An id names a node of a list; using
  one whose node is gone is \<open>IterInvalid\<close>.
\<close>

section \<open>State and operations\<close>

record 't iworld = "'t events" +
  idleIds :: "nat \<Rightarrow> (int \<times> nat) list"
  attached :: "nat set"                 \<comment> \<open>connections with a channel\<close>

definition iworld_new :: "int \<Rightarrow> 't iworld" where
  "iworld_new now = events.extend (events_new now) \<lparr>idleIds = (\<lambda>_. []), attached = {}\<rparr>"

definition addIdleCB :: "'t \<Rightarrow> nat \<Rightarrow> int \<Rightarrow> 't \<Rightarrow> ('t, 'a) iworld_scheme \<Rightarrow> ('t, 'a) iworld_scheme" where
  "addIdleCB tick con idle cb w =
     (if con \<in> attached w
      then (let (i, w') = registerIdle tick idle cb w in w'\<lparr>idleIds := (idleIds w')(con := idleIds w' con @ [i])\<rparr>)
      else w)"

text \<open>\<open>handyUpdateIdle\<close> and \<open>handyUnregisterIdle\<close> go to the loop of the connection; both are called for each id in turn.\<close>

fun each_id :: "(int \<times> nat \<Rightarrow> ('t, 'a) iworld_scheme \<Rightarrow> ('t, 'a) iworld_scheme res) \<Rightarrow> (int \<times> nat) list \<Rightarrow> ('t, 'a) iworld_scheme \<Rightarrow> ('t, 'a) iworld_scheme res" where
  "each_id f [] w = Inr w"
| "each_id f (i # is) w = rbind (f i w) (each_id f is)"

definition handyUpdateIdle :: "int \<times> nat \<Rightarrow> ('t, 'a) iworld_scheme \<Rightarrow> ('t, 'a) iworld_scheme res" where
  "handyUpdateIdle = updateIdle"

definition handyUnregisterIdle :: "int \<times> nat \<Rightarrow> ('t, 'a) iworld_scheme \<Rightarrow> ('t, 'a) iworld_scheme res" where
  "handyUnregisterIdle = unregisterIdle"

definition idle_read :: "nat \<Rightarrow> ('t, 'a) iworld_scheme \<Rightarrow> ('t, 'a) iworld_scheme res" where
  "idle_read con w = each_id handyUpdateIdle (idleIds w con) w"

definition idle_cleanup :: "nat \<Rightarrow> ('t, 'a) iworld_scheme \<Rightarrow> ('t, 'a) iworld_scheme res" where
  "idle_cleanup con w =
     rbind (each_id handyUnregisterIdle (idleIds w con) w) (\<lambda>w'. Inr (w'\<lparr>attached := attached w' - {con}\<rparr>))"

text \<open>What \<open>loop\<close> clears after \<open>exit\<close>.\<close>

definition loop_clear :: "('t, 'a) iworld_scheme \<Rightarrow> ('t, 'a) iworld_scheme" where
  "loop_clear w = w\<lparr>timerReps := [], timers := [], idleConns := []\<rparr>"

section \<open>Ids and nodes\<close>

definition nodes :: "('t, 'a) iworld_scheme \<Rightarrow> (int \<times> nat) set" where
  "nodes w = {(k, n_ref n) | k l n. map_of (idleConns w) k = Some l \<and> n \<in> set l}"

definition lists_ok :: "('t, 'a) iworld_scheme \<Rightarrow> bool" where
  "lists_ok w \<longleftrightarrow> mok (idleConns w) \<and>
     (\<forall>k l. map_of (idleConns w) k = Some l \<longrightarrow> distinct (map n_ref l) \<and> (\<forall>n \<in> set l. n_ref n < node_refs w))"

definition ids_ok :: "('t, 'a) iworld_scheme \<Rightarrow> bool" where
  "ids_ok w \<longleftrightarrow> lists_ok w \<and> (\<forall>c \<in> attached w. distinct (idleIds w c)) \<and>
     (\<forall>c \<in> attached w. \<forall>c' \<in> attached w. c \<noteq> c' \<longrightarrow> set (idleIds w c) \<inter> set (idleIds w c') = {}) \<and>
     nodes w = (\<Union>c \<in> attached w. set (idleIds w c))"

lemma nodes_iff: "(k, r) \<in> nodes w \<longleftrightarrow> (\<exists>l. map_of (idleConns w) k = Some l \<and> r \<in> n_ref ` set l)"
  by (auto simp: nodes_def)

lemma nodes_upd:
  assumes "map_of (idleConns w') = (map_of (idleConns w))(k \<mapsto> l)"
  shows "(k', r) \<in> nodes w' \<longleftrightarrow> (if k' = k then r \<in> n_ref ` set l else (k', r) \<in> nodes w)"
  by (simp add: nodes_iff assms)

lemma node_found:
  assumes "lists_ok w" "i \<in> nodes w"
  shows "\<exists>n rest l. find_node i w = Inr (n, rest) \<and> map_of (idleConns w) (fst i) = Some l \<and> n \<in> set l \<and> n_ref n = snd i \<and>
    rest = filter (\<lambda>n. n_ref n \<noteq> snd i) l"
proof -
  obtain l n where l: "map_of (idleConns w) (fst i) = Some l" "n \<in> set l" "n_ref n = snd i" using assms(2) by (auto simp: nodes_def)
  then have "find (\<lambda>n. n_ref n = snd i) l \<noteq> None" by (auto simp: find_None_iff)
  then obtain m where m: "find (\<lambda>n. n_ref n = snd i) l = Some m" by auto
  then have "m \<in> set l" "n_ref m = snd i" by (auto simp: find_Some_iff)
  then show ?thesis using l m by (simp add: find_node_def)
qed

lemma unregister_ok:
  assumes "lists_ok w" "i \<in> nodes w"
  shows "\<exists>w'. unregisterIdle i w = Inr w' \<and> lists_ok w' \<and> nodes w' = nodes w - {i} \<and> idleIds w' = idleIds w \<and> attached w' = attached w"
proof -
  obtain n l where n: "find_node i w = Inr (n, filter (\<lambda>n. n_ref n \<noteq> snd i) l)" "map_of (idleConns w) (fst i) = Some l"
    using node_found [OF assms] by blast
  let ?w = "w\<lparr>idleConns := mput (fst i) (filter (\<lambda>n. n_ref n \<noteq> snd i) l) (idleConns w)\<rparr>"
  have ok: "mok (idleConns w)" "distinct (map n_ref l)" using assms(1) n(2) by (auto simp: lists_ok_def)
  have m: "map_of (idleConns ?w) = (map_of (idleConns w))(fst i \<mapsto> filter (\<lambda>n. n_ref n \<noteq> snd i) l)" using ok by simp
  have "lists_ok ?w" using assms(1) n(2) ok by (auto simp: lists_ok_def distinct_map_filter)
  moreover have "(k, r) \<in> nodes ?w \<longleftrightarrow> (k, r) \<in> nodes w - {i}" for k r
    unfolding nodes_upd [OF m] using n(2) by (cases i) (auto simp: nodes_iff)
  then have "nodes ?w = nodes w - {i}" by (auto simp del: Diff_iff)
  ultimately show ?thesis using n(1) by (simp add: unregisterIdle_def)
qed

lemma update_ok:
  assumes "lists_ok w" "i \<in> nodes w"
  shows "\<exists>w'. updateIdle i w = Inr w' \<and> lists_ok w' \<and> nodes w' = nodes w \<and> idleIds w' = idleIds w \<and> attached w' = attached w"
proof -
  obtain n l where n: "find_node i w = Inr (n, filter (\<lambda>n. n_ref n \<noteq> snd i) l)" "map_of (idleConns w) (fst i) = Some l" "n \<in> set l" "n_ref n = snd i"
    using node_found [OF assms] by blast
  let ?l = "filter (\<lambda>n. n_ref n \<noteq> snd i) l @ [n\<lparr>n_updated := clock w div 1000\<rparr>]"
  let ?w = "w\<lparr>idleConns := mput (fst i) ?l (idleConns w)\<rparr>"
  have ok: "mok (idleConns w)" "distinct (map n_ref l)" "n_ref n < node_refs w" using assms(1) n(2,3) by (auto simp: lists_ok_def)
  have m: "map_of (idleConns ?w) = (map_of (idleConns w))(fst i \<mapsto> ?l)" using ok by simp
  have "distinct (map n_ref ?l)" using ok(2) n(4) by (auto simp: distinct_map_filter)
  then have "lists_ok ?w" using assms(1) n(2) ok by (auto simp: lists_ok_def)
  moreover have refs: "n_ref ` set ?l = n_ref ` set l" using n(3) n(4) [symmetric] by auto
  have "(k, r) \<in> nodes ?w \<longleftrightarrow> (k, r) \<in> nodes w" for k r
    unfolding nodes_upd [OF m] refs using n(2) by (auto simp: nodes_iff)
  then have "nodes ?w = nodes w" by auto
  ultimately show ?thesis using n(1) by (simp add: updateIdle_def)
qed

lemma register_ok:
  assumes "lists_ok w" "registerIdle tick idle cb w = (i, w')"
  shows "lists_ok w' \<and> nodes w' = insert i (nodes w) \<and> i \<notin> nodes w \<and> idleIds w' = idleIds w \<and> attached w' = attached w"
proof -
  define e where "e = (if idleEnabled w then w else (snd (runAfter 1000 tick 1000 w))\<lparr>idleEnabled := True\<rparr>)"
  have e: "idleConns e = idleConns w" "node_refs e = node_refs w" "idleIds e = idleIds w" "attached e = attached w"
    by (simp_all add: e_def runAfter_def runAt_def refreshNearest_def Let_def)
  define l where "l = (case map_of (idleConns w) idle of None \<Rightarrow> [] | Some l \<Rightarrow> l)"
  define node where "node = \<lparr>n_ref = node_refs w, n_updated = clock e div 1000, n_cb = cb\<rparr>"
  have ok: "mok (idleConns w)" and l: "distinct (map n_ref l)" "\<forall>n \<in> set l. n_ref n < node_refs w"
    using assms(1) by (cases "map_of (idleConns w) idle"; fastforce simp: lists_ok_def l_def)+
  have mi: "mindex [] idle (idleConns w) = (l, snd (mindex [] idle (idleConns w)))" by (simp add: mindex_def l_def split: option.split)
  have w': "w' = e\<lparr>idleConns := mput idle (l @ [node]) (snd (mindex [] idle (idleConns w))), node_refs := node_refs w + 1\<rparr>" "i = (idle, node_refs w)"
    using assms(2) mi by (auto simp: registerIdle_def e node_def Let_def simp flip: e_def split: prod.splits)
  have mm: "mok (snd (mindex [] idle (idleConns w)))" using mok_mindex [OF ok] .
  have m: "map_of (idleConns w') = (map_of (idleConns w))(idle \<mapsto> l @ [node])"
    using mm ok by (auto simp: w' mindex_def fun_eq_iff split: option.splits)
  have fresh: "(k, node_refs w) \<notin> nodes w" for k using assms(1) by (force simp: nodes_iff lists_ok_def)
  have "lists_ok w'"
    unfolding lists_ok_def m using assms(1) l mm by (auto simp: lists_ok_def w' node_def less_Suc_eq split: if_splits)
  moreover have "(k, r) \<in> nodes w' \<longleftrightarrow> (k, r) \<in> insert i (nodes w)" for k r
    unfolding nodes_upd [OF m] by (cases "map_of (idleConns w) idle") (auto simp: w'(2) node_def nodes_iff l_def)
  then have "nodes w' = insert i (nodes w)" by (auto simp del: insert_iff)
  ultimately show ?thesis using fresh w' e by simp
qed

section \<open>The nodes themselves\<close>

definition is_node :: "('t, 'a) iworld_scheme \<Rightarrow> int \<Rightarrow> 't idle_node \<Rightarrow> bool" where
  "is_node w k n \<longleftrightarrow> (\<exists>l. map_of (idleConns w) k = Some l \<and> n \<in> set l)"

lemma is_node_upd:
  assumes "map_of (idleConns w') = (map_of (idleConns w))(k \<mapsto> l)"
  shows "is_node w' k' n \<longleftrightarrow> (if k' = k then n \<in> set l else is_node w k' n)"
  by (simp add: is_node_def assms)

lemma is_node_ref: "is_node w k n \<Longrightarrow> (k, n_ref n) \<in> nodes w"
  by (auto simp: is_node_def nodes_def)

lemma is_node_inj: "lists_ok w \<Longrightarrow> is_node w k m \<Longrightarrow> is_node w k n \<Longrightarrow> n_ref m = n_ref n \<Longrightarrow> m = n"
  by (auto simp: is_node_def lists_ok_def distinct_map inj_on_def)

text \<open>Using an id changes the idle lists only, and adds no list.\<close>

definition same_events :: "('t, 'a) iworld_scheme \<Rightarrow> ('t, 'a) iworld_scheme \<Rightarrow> bool" where
  "same_events w w' \<longleftrightarrow> w' = w\<lparr>idleConns := idleConns w'\<rparr> \<and> dom (map_of (idleConns w')) = dom (map_of (idleConns w))"

lemma same_eventsD:
  assumes "same_events w w'"
  shows "idleIds w' = idleIds w" "attached w' = attached w" "clock w' = clock w" "timers w' = timers w" "timerReps w' = timerReps w"
    "timerSeq w' = timerSeq w" "ev_exit w' = ev_exit w" "idleEnabled w' = idleEnabled w" "node_refs w' = node_refs w"
    "iworld.more w' = iworld.more w" "fired w' = fired w"
  by (subst assms [unfolded same_events_def, THEN conjunct1], simp)+

lemma same_events_trans: "same_events w w' \<Longrightarrow> same_events w' w'' \<Longrightarrow> same_events w w''"
  unfolding same_events_def by (cases w; cases w'; cases w'') simp

lemma unregister_node:
  assumes "lists_ok w" "i \<in> nodes w" "unregisterIdle i w = Inr w'"
  shows "is_node w' k n \<longleftrightarrow> is_node w k n \<and> (k, n_ref n) \<noteq> i" "same_events w w'"
proof -
  obtain m l where l: "find_node i w = Inr (m, filter (\<lambda>n. n_ref n \<noteq> snd i) l)" "map_of (idleConns w) (fst i) = Some l"
    using node_found [OF assms(1,2)] by blast
  then have w': "w' = w\<lparr>idleConns := mput (fst i) (filter (\<lambda>n. n_ref n \<noteq> snd i) l) (idleConns w)\<rparr>"
    using assms(3) by (simp add: unregisterIdle_def)
  have m: "map_of (idleConns w') = (map_of (idleConns w))(fst i \<mapsto> filter (\<lambda>n. n_ref n \<noteq> snd i) l)"
    using assms(1) by (simp add: w' lists_ok_def)
  show "is_node w' k n \<longleftrightarrow> is_node w k n \<and> (k, n_ref n) \<noteq> i"
    unfolding is_node_upd [OF m] using l(2) by (cases i) (auto simp: is_node_def)
  show "same_events w w'" using m l(2) by (auto simp: same_events_def w')
qed

lemma update_node:
  assumes "lists_ok w" "i \<in> nodes w" "updateIdle i w = Inr w'"
  shows "is_node w' k n \<longleftrightarrow> is_node w k n \<and> (k, n_ref n) \<noteq> i \<or>
      (\<exists>m. is_node w k m \<and> (k, n_ref m) = i \<and> n = m\<lparr>n_updated := clock w div 1000\<rparr>)" "same_events w w'"
proof -
  obtain m l where l: "find_node i w = Inr (m, filter (\<lambda>n. n_ref n \<noteq> snd i) l)" "map_of (idleConns w) (fst i) = Some l"
      "m \<in> set l" "n_ref m = snd i"
    using node_found [OF assms(1,2)] by blast
  let ?l = "filter (\<lambda>n. n_ref n \<noteq> snd i) l @ [m\<lparr>n_updated := clock w div 1000\<rparr>]"
  have w': "w' = w\<lparr>idleConns := mput (fst i) ?l (idleConns w)\<rparr>" using assms(3) l(1) by (simp add: updateIdle_def)
  have m: "map_of (idleConns w') = (map_of (idleConns w))(fst i \<mapsto> ?l)" using assms(1) by (simp add: w' lists_ok_def)
  have "is_node w (fst i) m" using l by (auto simp: is_node_def)
  then have one: "m' = m" if "is_node w (fst i) m'" "n_ref m' = snd i" for m'
    using is_node_inj [OF assms(1)] that l(4) by metis
  show "is_node w' k n \<longleftrightarrow> is_node w k n \<and> (k, n_ref n) \<noteq> i \<or>
      (\<exists>m. is_node w k m \<and> (k, n_ref m) = i \<and> n = m\<lparr>n_updated := clock w div 1000\<rparr>)"
  proof (cases "k = fst i")
    case True
    have "\<exists>m'. is_node w k m' \<and> (k, n_ref m') = i \<and> n = m'\<lparr>n_updated := clock w div 1000\<rparr>" if "n = m\<lparr>n_updated := clock w div 1000\<rparr>"
      using that l(4) True \<open>is_node w (fst i) m\<close> by (intro exI [of _ m]) (cases i; simp)
    moreover have "n = m\<lparr>n_updated := clock w div 1000\<rparr>" if "is_node w k m'" "(k, n_ref m') = i" "n = m'\<lparr>n_updated := clock w div 1000\<rparr>" for m'
      using one [of m'] that by auto
    moreover have "is_node w k n \<and> (k, n_ref n) \<noteq> i \<longleftrightarrow> n \<in> set l \<and> n_ref n \<noteq> snd i"
      using l(2) True by (cases i) (auto simp: is_node_def)
    ultimately show ?thesis unfolding is_node_upd [OF m] by (auto simp: True)
  next
    case False
    then show ?thesis unfolding is_node_upd [OF m] by (cases i) auto
  qed
  show "same_events w w'" using m l(2) by (auto simp: same_events_def w')
qed

lemma register_node:
  assumes "lists_ok w" "registerIdle tick idle cb w = (i, w')"
  shows "is_node w' k n \<longleftrightarrow> is_node w k n \<or> k = idle \<and> n = \<lparr>n_ref = snd i, n_updated = clock w div 1000, n_cb = cb\<rparr>"
    "dom (map_of (idleConns w')) = insert idle (dom (map_of (idleConns w)))"
proof -
  define e where "e = (if idleEnabled w then w else (snd (runAfter 1000 tick 1000 w))\<lparr>idleEnabled := True\<rparr>)"
  have e: "idleConns e = idleConns w" "node_refs e = node_refs w" "clock e = clock w" by (simp_all add: e_def runAfter_def)
  define l where "l = (case map_of (idleConns w) idle of None \<Rightarrow> [] | Some l \<Rightarrow> l)"
  define node where "node = \<lparr>n_ref = node_refs w, n_updated = clock w div 1000, n_cb = cb\<rparr>"
  have ok: "mok (idleConns w)" using assms(1) by (simp add: lists_ok_def)
  have mi: "mindex [] idle (idleConns w) = (l, snd (mindex [] idle (idleConns w)))" by (simp add: mindex_def l_def split: option.split)
  have w': "w' = e\<lparr>idleConns := mput idle (l @ [node]) (snd (mindex [] idle (idleConns w))), node_refs := node_refs w + 1\<rparr>" "i = (idle, node_refs w)"
    using assms(2) mi by (auto simp: registerIdle_def e node_def Let_def simp flip: e_def split: prod.splits)
  have m: "map_of (idleConns w') = (map_of (idleConns w))(idle \<mapsto> l @ [node])"
    using mok_mindex [OF ok, of "[]" idle] ok by (auto simp: w' mindex_def fun_eq_iff split: option.splits)
  show "is_node w' k n \<longleftrightarrow> is_node w k n \<or> k = idle \<and> n = \<lparr>n_ref = snd i, n_updated = clock w div 1000, n_cb = cb\<rparr>"
    unfolding is_node_upd [OF m] by (cases "map_of (idleConns w) idle") (auto simp: w'(2) node_def is_node_def l_def)
  show "dom (map_of (idleConns w')) = insert idle (dom (map_of (idleConns w)))" unfolding m by simp
qed

section \<open>Any sequence of events\<close>

lemma each_unregister:
  "lists_ok w \<Longrightarrow> distinct is \<Longrightarrow> set is \<subseteq> nodes w \<Longrightarrow>
   \<exists>w'. each_id handyUnregisterIdle is w = Inr w' \<and> lists_ok w' \<and> nodes w' = nodes w - set is \<and> idleIds w' = idleIds w \<and> attached w' = attached w"
proof (induction "is" arbitrary: w)
  case (Cons i "is")
  obtain w1 where w1: "unregisterIdle i w = Inr w1" "lists_ok w1" "nodes w1 = nodes w - {i}" "idleIds w1 = idleIds w" "attached w1 = attached w"
    using unregister_ok [OF Cons.prems(1), of i] Cons.prems(3) by auto
  moreover have "set is \<subseteq> nodes w1" "nodes w - {i} - set is = nodes w - set (i # is)" using Cons.prems(2,3) w1(3) by auto
  ultimately show ?case using Cons.IH [OF w1(2)] Cons.prems(2) by (auto simp: handyUnregisterIdle_def simp del: list.set)
qed simp

lemma each_update:
  "lists_ok w \<Longrightarrow> set is \<subseteq> nodes w \<Longrightarrow>
   \<exists>w'. each_id handyUpdateIdle is w = Inr w' \<and> lists_ok w' \<and> nodes w' = nodes w \<and> idleIds w' = idleIds w \<and> attached w' = attached w"
proof (induction "is" arbitrary: w)
  case (Cons i "is")
  obtain w1 where w1: "updateIdle i w = Inr w1" "lists_ok w1" "nodes w1 = nodes w" "idleIds w1 = idleIds w" "attached w1 = attached w"
    using update_ok [OF Cons.prems(1), of i] Cons.prems(2) by auto
  then show ?case using Cons.IH [OF w1(2)] Cons.prems by (auto simp: handyUpdateIdle_def)
qed simp

text \<open>A new connection, a callback added, bytes read, a connection closed, time passing. Events of a connection without channel do
  not occur.\<close>

datatype 't idle_event = Attach nat | AddCB nat int 't | ReadBytes nat | CloseConn nat | Advance int

fun idle_do :: "'t \<Rightarrow> 't idle_event \<Rightarrow> ('t, 'a) iworld_scheme \<Rightarrow> ('t, 'a) iworld_scheme res" where
  "idle_do tick (Attach c) w =
     Inr (if c \<in> attached w then w else w\<lparr>attached := insert c (attached w), idleIds := (idleIds w)(c := [])\<rparr>)"
| "idle_do tick (AddCB c idle cb) w = Inr (addIdleCB tick c idle cb w)"
| "idle_do tick (ReadBytes c) w = (if c \<in> attached w then idle_read c w else Inr w)"
| "idle_do tick (CloseConn c) w = (if c \<in> attached w then idle_cleanup c w else Inr w)"
| "idle_do tick (Advance t) w = Inr (w\<lparr>clock := clock w + t\<rparr>)"

fun idle_run :: "'t \<Rightarrow> 't idle_event list \<Rightarrow> ('t, 'a) iworld_scheme \<Rightarrow> ('t, 'a) iworld_scheme res" where
  "idle_run tick [] w = Inr w"
| "idle_run tick (ev # evs) w = rbind (idle_do tick ev w) (idle_run tick evs)"

lemma addIdleCB_ok: "ids_ok w \<Longrightarrow> ids_ok (addIdleCB tick c idle cb w)"
proof (cases "c \<in> attached w")
  case True
  assume ok: "ids_ok w"
  obtain i w' where r: "registerIdle tick idle cb w = (i, w')" by (rule prod.exhaust)
  have w': "lists_ok w'" "nodes w' = insert i (nodes w)" "i \<notin> nodes w" "idleIds w' = idleIds w" "attached w' = attached w"
    using register_ok [OF _ r] ok by (auto simp: ids_ok_def)
  have new: "i \<notin> set (idleIds w c')" if "c' \<in> attached w" for c' using ok w'(3) that by (auto simp: ids_ok_def)
  let ?w = "w'\<lparr>idleIds := (idleIds w)(c := idleIds w c @ [i])\<rparr>"
  have "nodes ?w = nodes w'" "lists_ok ?w = lists_ok w'" by (simp_all add: nodes_def lists_ok_def)
  moreover have "(\<Union>c' \<in> attached w. set (((idleIds w)(c := idleIds w c @ [i])) c')) = insert i (\<Union>c' \<in> attached w. set (idleIds w c'))"
    using True by (auto split: if_splits)
  ultimately have "ids_ok ?w" using ok w' new True by (simp add: ids_ok_def)
  then show ?thesis using True r w'(4) by (simp add: addIdleCB_def)
qed (simp add: addIdleCB_def)

lemma idle_cleanup_ok:
  assumes "ids_ok w" "c \<in> attached w"
  shows "\<exists>w'. idle_cleanup c w = Inr w' \<and> ids_ok w'"
proof -
  obtain w1 where w1: "each_id handyUnregisterIdle (idleIds w c) w = Inr w1" "lists_ok w1" "nodes w1 = nodes w - set (idleIds w c)"
      "idleIds w1 = idleIds w" "attached w1 = attached w"
    using each_unregister [of w "idleIds w c"] assms by (auto simp: ids_ok_def)
  let ?w = "w1\<lparr>attached := attached w - {c}\<rparr>"
  have "nodes ?w = nodes w1" "lists_ok ?w = lists_ok w1" by (simp_all add: nodes_def lists_ok_def)
  moreover have "(\<Union>c' \<in> attached w. set (idleIds w c')) - set (idleIds w c) = (\<Union>c' \<in> attached w - {c}. set (idleIds w c'))"
    using assms unfolding ids_ok_def by blast
  ultimately have "ids_ok ?w" using assms w1 by (simp add: ids_ok_def)
  then show ?thesis using w1 by (simp add: idle_cleanup_def)
qed

lemma idle_do_ok: "ids_ok w \<Longrightarrow> \<exists>w'. idle_do tick ev w = Inr w' \<and> ids_ok w'"
proof (cases ev)
  case (Attach c)
  assume "ids_ok w"
  moreover have "nodes (w\<lparr>attached := a, idleIds := f\<rparr>) = nodes w" "lists_ok (w\<lparr>attached := a, idleIds := f\<rparr>) = lists_ok w" for a f
    by (simp_all add: nodes_def lists_ok_def)
  ultimately show ?thesis using Attach by (auto simp: ids_ok_def split: if_splits)
next
  case (ReadBytes c)
  assume ok: "ids_ok w"
  show ?thesis
  proof (cases "c \<in> attached w")
    case True
    then have "set (idleIds w c) \<subseteq> nodes w" "lists_ok w" using ok by (auto simp: ids_ok_def)
    then obtain w' where "each_id handyUpdateIdle (idleIds w c) w = Inr w'" "lists_ok w'" "nodes w' = nodes w" "idleIds w' = idleIds w"
        "attached w' = attached w"
      using each_update by blast
    then show ?thesis using ok ReadBytes True by (simp add: ids_ok_def idle_read_def)
  qed (use ok ReadBytes in auto)
next
  case (CloseConn c)
  assume "ids_ok w"
  then show ?thesis using idle_cleanup_ok [of w c] CloseConn by auto
next
  case (Advance t)
  assume "ids_ok w"
  moreover have "nodes (w\<lparr>clock := x\<rparr>) = nodes w" "lists_ok (w\<lparr>clock := x\<rparr>) = lists_ok w" for x
    by (simp_all add: nodes_def lists_ok_def)
  ultimately show ?thesis using Advance by (auto simp: ids_ok_def)
qed (simp add: addIdleCB_ok)

lemma idle_run_ok: "ids_ok w \<Longrightarrow> \<exists>w'. idle_run tick evs w = Inr w' \<and> ids_ok w'"
proof (induction evs arbitrary: w)
  case (Cons ev evs)
  then show ?case using idle_do_ok [OF Cons.prems, of tick ev] by auto
qed simp

lemma iworld_new_ok: "ids_ok (iworld_new now)"
  by (simp add: ids_ok_def lists_ok_def nodes_def iworld_new_def events.defs events_new_def mok_def)


text \<open>C36. But \<open>loop\<close> clears the idle lists after \<open>exit\<close>, before the last turn and the destruction of the
  poller close the connections: reading from or closing a connection that has an idle callback then uses an
  iterator into a destroyed list.\<close>

theorem exit_leaves_ids:
  assumes "idleIds w c \<noteq> []"
  shows "idle_read c (loop_clear w) = Inl IterInvalid \<and> idle_cleanup c (loop_clear w) = Inl IterInvalid"
  using assms
  by (cases "idleIds w c")
    (simp_all add: idle_read_def idle_cleanup_def loop_clear_def handyUpdateIdle_def handyUnregisterIdle_def updateIdle_def unregisterIdle_def find_node_def)

theorem exit_leaves_ids_witness:
  "\<exists>w. idle_run (0 :: nat) [Attach 3, AddCB 3 30 7] (iworld_new 5000) = Inr w \<and> idle_cleanup 3 (loop_clear w) = Inl IterInvalid"
proof -
  let ?w0 = "(iworld_new 5000 :: nat iworld)\<lparr>attached := {3}, idleIds := (\<lambda>_. [])\<rparr>"
  let ?w = "addIdleCB 0 3 30 7 ?w0"
  have "idleIds (iworld_new 5000 :: nat iworld) = (\<lambda>_. [])" "attached (iworld_new 5000 :: nat iworld) = {}"
    by (simp_all add: iworld_new_def events.defs)
  then have "idle_run 0 [Attach 3, AddCB 3 30 7] (iworld_new 5000) = Inr ?w" by (simp add: fun_upd_def)
  moreover have "idleIds ?w 3 \<noteq> []" by (simp add: addIdleCB_def split: prod.split)
  then have "idle_cleanup 3 (loop_clear ?w) = Inl IterInvalid" using exit_leaves_ids by blast
  ultimately show ?thesis by blast
qed

end
