(* ===== verification/ConnLoop.thy ===== *)
theory ConnLoop
  imports Idles
begin

text \<open>
  A whole event loop with connections (\<open>event_base.cc\<close>, \<open>conn.cc\<close>): turns of \<open>loop_once\<close> in which connections are accepted,
  read and closed, tasks are run, user timers are set, and the timers are served, among them the one that calls
  \<open>callIdles\<close>. Every connection is given an idle callback that closes it, which posts a task; the posted
  task unregisters the connection's id. Idle lists, timers and task queue are those of \<open>Idles\<close>, \<open>Timers\<close> and \<open>Tasks\<close>.
\<close>

declare split_paired_All [simp del] split_paired_Ex [simp del]

section \<open>State and callbacks\<close>

datatype loop_cb = Tick | IdleClose nat | UserTimer nat

record lworld = "loop_cb iworld" +
  ltasks :: "nat safequeue"            \<comment> \<open>the closures posted by \<open>TcpConn::close\<close>, by connection\<close>
  born :: nat                          \<comment> \<open>connections created so far\<close>
  silent_since :: "nat \<Rightarrow> int"         \<comment> \<open>ghost: the second of the last bytes\<close>
  idle_limit :: "nat \<Rightarrow> int"           \<comment> \<open>ghost: the time given to \<open>addIdleCB\<close>\<close>
  user_runs :: "nat list"              \<comment> \<open>ghost: the user timers run\<close>

definition lworld_new :: "int \<Rightarrow> lworld" where
  "lworld_new now = iworld.extend (iworld_new now)
     \<lparr>ltasks = sq_new 0, born = 0, silent_since = (\<lambda>_. 0), idle_limit = (\<lambda>_. 0), user_runs = []\<rparr>"

text \<open>\<open>TcpConn::close\<close> posts; the posted task closes the channel if there still is one, which ends in \<open>cleanup\<close>. A connection
  that was accepted has no timeout timer and does not reconnect.\<close>

definition conn_close :: "nat \<Rightarrow> lworld \<Rightarrow> lworld" where
  "conn_close c w = (if c \<in> attached w then w\<lparr>ltasks := safeCall c (ltasks w)\<rparr> else w)"

definition close_task :: "nat \<Rightarrow> lworld \<Rightarrow> lworld res" where
  "close_task c w = (if c \<in> attached w then idle_cleanup c w else Inr w)"

text \<open>\<open>Tick\<close> is the closure of \<open>registerIdle\<close> and never an idle callback.\<close>

fun plain_act :: "loop_cb \<Rightarrow> lworld \<Rightarrow> lworld" where
  "plain_act Tick w = w"
| "plain_act (IdleClose c) w = conn_close c w"
| "plain_act (UserTimer n) w = w\<lparr>user_runs := user_runs w @ [n]\<rparr>"

fun loop_run :: "loop_cb \<Rightarrow> lworld \<Rightarrow> lworld res" where
  "loop_run Tick w = (case callIdles (\<lambda>c w. Inr (plain_act c w)) w of None \<Rightarrow> Inl NoReturn | Some r \<Rightarrow> r)"
| "loop_run c w = Inr (plain_act c w)"

section \<open>Turns\<close>

datatype loop_event = Accept int | Readable nat | PeerClosed nat | WakeUp | UserAfter int int nat | Elapse nat

fun loop_do :: "loop_event \<Rightarrow> lworld \<Rightarrow> lworld res" where
  "loop_do (Accept idle) w =
     (let c = born w;
          w1 = w\<lparr>attached := insert c (attached w), idleIds := (idleIds w)(c := []), born := c + 1,
                 silent_since := (silent_since w)(c := clock w div 1000), idle_limit := (idle_limit w)(c := idle)\<rparr>
      in Inr (addIdleCB Tick c idle (IdleClose c) w1))"
| "loop_do (Readable c) w =
     (if c \<in> attached w then idle_read c (w\<lparr>silent_since := (silent_since w)(c := clock w div 1000)\<rparr>) else Inr w)"
| "loop_do (PeerClosed c) w = close_task c w"
| "loop_do WakeUp w =
     (case drain (\<lambda>c w. rbind (close_task c w) (\<lambda>w'. Inr (w', []))) (ltasks w) w of
        None \<Rightarrow> Inl NoReturn
      | Some r \<Rightarrow> rbind r (\<lambda>(q, w'). Inr (w'\<lparr>ltasks := q\<rparr>)))"
| "loop_do (UserAfter d i n) w = Inr (snd (runAfter d (UserTimer n) i w))"
| "loop_do (Elapse ms) w = Inr (w\<lparr>clock := clock w + int ms\<rparr>)"

fun loop_poll :: "loop_event list \<Rightarrow> lworld \<Rightarrow> lworld res" where
  "loop_poll [] w = Inr w"
| "loop_poll (ev # evs) w = rbind (loop_do ev w) (loop_poll evs)"

definition loop_turn :: "loop_event list \<Rightarrow> lworld \<Rightarrow> lworld res option" where
  "loop_turn evs w = ev_loop_once (\<lambda>_. loop_poll evs) loop_run 10000 w"

text \<open>Idle times are positive and intervals not negative; \<open>fits\<close> bounds the sequence numbers of timers by the \<open>1L<<62\<close> of \<open>handleTimeouts\<close>.\<close>

fun ev_ok :: "loop_event \<Rightarrow> bool" where
  "ev_ok (Accept idle) \<longleftrightarrow> 0 < idle"
| "ev_ok (UserAfter d i n) \<longleftrightarrow> 0 \<le> i"
| "ev_ok _ \<longleftrightarrow> True"

definition fits :: "loop_event list \<Rightarrow> lworld \<Rightarrow> bool" where
  "fits evs w = (case loop_poll evs w of Inl _ \<Rightarrow> True | Inr w1 \<Rightarrow> timerSeq w1 + int (backlog (clock w1) w1) < 2 ^ 62)"

inductive loop_reach :: "lworld \<Rightarrow> bool" where
  start: "loop_reach (lworld_new t0)"
| turn: "loop_reach w \<Longrightarrow> list_all ev_ok evs \<Longrightarrow> fits evs w \<Longrightarrow> loop_turn evs w = Some (Inr w') \<Longrightarrow> loop_reach w'"

section \<open>The invariant\<close>

definition conn_node :: "lworld \<Rightarrow> nat \<Rightarrow> bool" where
  "conn_node w c \<longleftrightarrow> c < born w \<and> (\<exists>r. idleIds w c = [(idle_limit w c, r)] \<and>
     is_node w (idle_limit w c) \<lparr>n_ref = r, n_updated = silent_since w c, n_cb = IdleClose c\<rparr>)"

definition conns_ok :: "lworld \<Rightarrow> bool" where
  "conns_ok w \<longleftrightarrow> ids_ok w \<and> idle_ok w \<and> (\<forall>k \<in> dom (map_of (idleConns w)). 0 < k) \<and> (\<forall>c \<in> attached w. conn_node w c) \<and>
     sq_open (ltasks w) \<and> set (items (ltasks w)) \<subseteq> {..<born w} \<and> \<not> ev_exit w"

text \<open>Which callbacks the timers hold, and that \<open>callIdles\<close> is among them, due within a second.\<close>

definition ticks :: "lworld \<Rightarrow> timer_id \<Rightarrow> bool" where
  "ticks w k \<longleftrightarrow> (\<exists>r. map_of (timerReps w) k = Some r \<and> r_cb r = Tick \<and> r_interval r = 1000 \<and> r_at r \<le> clock w + 1000)"

definition timers_fine :: "lworld \<Rightarrow> bool" where
  "timers_fine w \<longleftrightarrow> timers_ok w \<and> steady w \<and> (\<forall>i c. map_of (timers w) i = Some (Once c) \<longrightarrow> (\<forall>x. c \<noteq> IdleClose x)) \<and>
     (\<forall>k r. map_of (timerReps w) k = Some r \<longrightarrow> (\<forall>x. r_cb r \<noteq> IdleClose x)) \<and>
     (attached w \<noteq> {} \<longrightarrow> idleEnabled w) \<and> (idleEnabled w \<longrightarrow> (\<exists>k. ticks w k))"

definition overdue :: "lworld \<Rightarrow> nat set" where
  "overdue w = {c \<in> attached w. silent_since w c + idle_limit w c \<le> clock w div 1000}"

lemma conns_ok_new: "conns_ok (lworld_new t0)" "timers_fine (lworld_new t0)"
  by (simp_all add: conns_ok_def timers_fine_def lworld_new_def iworld_new_def events_new_def iworld.defs events.defs ids_ok_def
      lists_ok_def nodes_def idle_ok_def sq_open_def sq_new_def timers_ok_def steady_def)

section \<open>What \<open>callIdles\<close> posts\<close>

lemma conns_ok_lists: "conns_ok w \<Longrightarrow> lists_ok w"
  by (simp add: conns_ok_def ids_ok_def)

lemma node_owner:
  assumes "conns_ok w" "is_node w k n"
  shows "\<exists>c \<in> attached w. k = idle_limit w c \<and> n_updated n = silent_since w c \<and> n_cb n = IdleClose c"
proof -
  obtain c where c: "c \<in> attached w" "(k, n_ref n) \<in> set (idleIds w c)"
    using is_node_ref [OF assms(2)] assms(1) by (auto simp: conns_ok_def ids_ok_def)
  then have "k = idle_limit w c" "is_node w k \<lparr>n_ref = n_ref n, n_updated = silent_since w c, n_cb = IdleClose c\<rparr>" (is "is_node _ _ ?n")
    using assms(1) by (auto simp: conns_ok_def conn_node_def)
  moreover from this have "n = ?n" using is_node_inj [OF conns_ok_lists [OF assms(1)] assms(2), of ?n] by simp
  then have "n_updated n = silent_since w c" "n_cb n = IdleClose c" by (cases n; simp)+
  ultimately show ?thesis using c(1) by blast
qed

lemma due_idles_set: "mok m \<Longrightarrow> set (due_idles now m) = {n_cb n | k l n. map_of m k = Some l \<and> n \<in> set l \<and> n_updated n + k \<le> now}"
  using mok_distinct [of m] by (force simp: due_idles_def map_of_eq_Some_iff)

lemma due_overdue:
  assumes "conns_ok w"
  shows "\<exists>cs. due_idles (clock w div 1000) (idleConns w) = map IdleClose cs \<and> set cs = overdue w"
proof -
  let ?ds = "due_idles (clock w div 1000) (idleConns w)"
  have "mok (idleConns w)" using assms by (simp add: conns_ok_def idle_ok_def)
  then have ds: "set ?ds = {n_cb n | k n. is_node w k n \<and> n_updated n + k \<le> clock w div 1000}"
    by (auto simp: due_idles_set is_node_def)
  also have "\<dots> = IdleClose ` overdue w"
  proof (intro equalityI subsetI)
    fix d assume "d \<in> {n_cb n | k n. is_node w k n \<and> n_updated n + k \<le> clock w div 1000}"
    then obtain k n where n: "d = n_cb n" "is_node w k n" "n_updated n + k \<le> clock w div 1000" by blast
    then show "d \<in> IdleClose ` overdue w" using node_owner [OF assms n(2)] by (auto simp: overdue_def)
  next
    fix d assume "d \<in> IdleClose ` overdue w"
    then obtain c where c: "d = IdleClose c" "c \<in> attached w" "silent_since w c + idle_limit w c \<le> clock w div 1000"
      by (auto simp: overdue_def)
    then obtain r where "is_node w (idle_limit w c) \<lparr>n_ref = r, n_updated = silent_since w c, n_cb = IdleClose c\<rparr>"
      using assms by (auto simp: conns_ok_def conn_node_def)
    then show "d \<in> {n_cb n | k n. is_node w k n \<and> n_updated n + k \<le> clock w div 1000}"
      using c by (intro CollectI exI [of _ "\<lparr>n_ref = r, n_updated = silent_since w c, n_cb = IdleClose c\<rparr>"] exI [of _ "idle_limit w c"]) simp
  qed
  finally have set: "set ?ds = IdleClose ` overdue w" .
  then have "\<forall>d \<in> set ?ds. \<exists>c. d = IdleClose c" by auto
  then obtain cs where cs: "?ds = map IdleClose cs" using ex_map_conv [of ?ds IdleClose] by blast
  then have "set cs = overdue w" using set by (auto simp: image_iff)
  then show ?thesis using cs by blast
qed

lemma plain_acts: "set cs \<subseteq> attached w \<Longrightarrow> fold plain_act (map IdleClose cs) w = w\<lparr>ltasks := fold safeCall cs (ltasks w)\<rparr>"
  by (induction cs arbitrary: w) (simp_all add: conn_close_def)

lemma conn_close_lists [simp]: "idleConns (plain_act c w) = idleConns w"
  by (cases c) (simp_all add: conn_close_def)

lemma tick_posts:
  assumes "conns_ok w"
  shows "\<exists>cs. loop_run Tick w = Inr (w\<lparr>ltasks := fold safeCall cs (ltasks w)\<rparr>) \<and> set cs = overdue w"
proof -
  obtain cs where cs: "due_idles (clock w div 1000) (idleConns w) = map IdleClose cs" "set cs = overdue w"
    using due_overdue [OF assms] by blast
  have "\<forall>p \<in> set (idleConns w). 0 < fst p"
  proof
    fix p assume "p \<in> set (idleConns w)"
    then have "fst p \<in> dom (map_of (idleConns w))" by (simp add: dom_map_of_conv_image_fst)
    then show "0 < fst p" using assms by (simp add: conns_ok_def)
  qed
  moreover have "idle_ok w" using assms by (simp add: conns_ok_def)
  ultimately have "callIdles (\<lambda>c w. Inr (plain_act c w)) w = Some (Inr (fold plain_act (map IdleClose cs) w))"
    using idle_callbacks [of w "\<lambda>c w. Inr (plain_act c w)" plain_act] cs(1) by simp
  moreover have "set cs \<subseteq> attached w" using cs(2) by (auto simp: overdue_def)
  ultimately show ?thesis using plain_acts [of cs w] cs(2) by auto
qed

section \<open>Events keep the invariant\<close>

lemma same_lworld:
  fixes w w' :: lworld
  assumes "same_events w w'"
  shows "ltasks w' = ltasks w" "born w' = born w" "silent_since w' = silent_since w" "idle_limit w' = idle_limit w"
  by (subst assms [unfolded same_events_def, THEN conjunct1], simp)+

lemma other_id:
  assumes "ids_ok w" "c \<in> attached w" "c' \<in> attached w" "c \<noteq> c'" "idleIds w c = [i]" "idleIds w c' = [j]"
  shows "i \<noteq> j"
  using assms unfolding ids_ok_def by fastforce

lemma conn_id:
  assumes "conns_ok w" "c \<in> attached w"
  obtains r where "idleIds w c = [(idle_limit w c, r)]" "(idle_limit w c, r) \<in> nodes w"
    "is_node w (idle_limit w c) \<lparr>n_ref = r, n_updated = silent_since w c, n_cb = IdleClose c\<rparr>"
proof -
  obtain r where "idleIds w c = [(idle_limit w c, r)]"
      "is_node w (idle_limit w c) \<lparr>n_ref = r, n_updated = silent_since w c, n_cb = IdleClose c\<rparr>"
    using assms by (auto simp: conns_ok_def conn_node_def)
  then show thesis using that is_node_ref [of w _ "\<lparr>n_ref = r, n_updated = silent_since w c, n_cb = IdleClose c\<rparr>"] by simp
qed

lemma ids_ok_cong:
  "idleConns w' = idleConns w \<Longrightarrow> node_refs w' = node_refs w \<Longrightarrow> idleIds w' = idleIds w \<Longrightarrow> attached w' = attached w \<Longrightarrow> ids_ok w' = ids_ok w"
  by (simp add: ids_ok_def lists_ok_def nodes_def)

lemma is_node_cong: "idleConns w' = idleConns w \<Longrightarrow> is_node w' = is_node w"
  by (simp add: is_node_def fun_eq_iff)

lemma nodes_cong: "idleConns w' = idleConns w \<Longrightarrow> nodes w' = nodes w"
  by (simp add: nodes_def)

text \<open>Bytes from a connection.\<close>

lemma readable_ok:
  assumes ok: "conns_ok w" and c: "c \<in> attached w"
  shows "\<exists>w'. loop_do (Readable c) w = Inr w' \<and> conns_ok w' \<and> same_events (w\<lparr>silent_since := (silent_since w)(c := clock w div 1000)\<rparr>) w'"
proof -
  let ?w = "w\<lparr>silent_since := (silent_since w)(c := clock w div 1000)\<rparr>"
  obtain r where r: "idleIds w c = [(idle_limit w c, r)]" "(idle_limit w c, r) \<in> nodes w"
      "is_node w (idle_limit w c) \<lparr>n_ref = r, n_updated = silent_since w c, n_cb = IdleClose c\<rparr>" (is "is_node _ _ ?n")
    using conn_id [OF ok c] .
  let ?i = "(idle_limit w c, r)"
  have i: "ids_ok ?w" "lists_ok ?w" "?i \<in> nodes ?w" "idle_ok ?w"
    using ok r(2) ids_ok_cong [of ?w w] nodes_cong [of ?w w] by (simp_all add: conns_ok_def ids_ok_def idle_ok_def)
  obtain w' where w': "updateIdle ?i ?w = Inr w'" "lists_ok w'" "nodes w' = nodes ?w" "idleIds w' = idleIds ?w" "attached w' = attached ?w"
    using update_ok [OF i(2,3)] by blast
  note n = update_node [OF i(2,3) w'(1)] and e = same_eventsD [OF update_node(2) [OF i(2,3) w'(1)]] and l = same_lworld [OF update_node(2) [OF i(2,3) w'(1)]]
  have "loop_do (Readable c) w = Inr w'"
    using c w'(1) r(1) by (simp add: idle_read_def handyUpdateIdle_def)
  moreover have "conn_node w' c'" if c': "c' \<in> attached w" for c'
  proof (cases "c' = c")
    case True
    have "is_node w' (idle_limit w c) (?n\<lparr>n_updated := clock w div 1000\<rparr>)"
      using n(1) [of "idle_limit w c" "?n\<lparr>n_updated := clock w div 1000\<rparr>"] r(3) is_node_cong [of ?w w] by (auto intro!: exI [of _ ?n])
    then show ?thesis using r(1) ok c True e(1) l by (auto simp: conns_ok_def conn_node_def)
  next
    case False
    obtain r' where r': "idleIds w c' = [(idle_limit w c', r')]"
        "is_node w (idle_limit w c') \<lparr>n_ref = r', n_updated = silent_since w c', n_cb = IdleClose c'\<rparr>" (is "is_node _ _ ?m")
      using conn_id [OF ok c'] by metis
    have "(idle_limit w c', r') \<noteq> ?i" using other_id [OF _ c' c False r'(1) r(1)] ok by (simp add: conns_ok_def)
    then have "is_node w' (idle_limit w c') ?m" using n(1) [of "idle_limit w c'" ?m] r'(2) is_node_cong [of ?w w] by auto
    then show ?thesis using r'(1) ok c' False e(1) l by (auto simp: conns_ok_def conn_node_def)
  qed
  moreover have "ids_ok w'" using i(1) w'(2-5) by (simp add: ids_ok_def)
  moreover have "idle_ok w'" using updateIdle_ok [OF i(4) w'(1)] .
  moreover have "dom (map_of (idleConns w')) = dom (map_of (idleConns w))" using n(2) by (simp add: same_events_def)
  ultimately show ?thesis using ok n(2) e l by (auto simp: conns_ok_def)
qed

text \<open>A connection goes.\<close>

lemma close_ok:
  assumes ok: "conns_ok w" and c: "c \<in> attached w"
  shows "\<exists>w' w1. close_task c w = Inr w' \<and> conns_ok w' \<and> w' = w1\<lparr>attached := attached w - {c}\<rparr> \<and> same_events w w1"
proof -
  obtain r where r: "idleIds w c = [(idle_limit w c, r)]" "(idle_limit w c, r) \<in> nodes w" using conn_id [OF ok c] .
  let ?i = "(idle_limit w c, r)"
  have lo: "lists_ok w" using conns_ok_lists [OF ok] .
  obtain w1 where w1: "unregisterIdle ?i w = Inr w1" using unregister_ok [OF lo r(2)] by blast
  note n = unregister_node [OF lo r(2) w1]
  note e = same_eventsD [OF n(2)] and l = same_lworld [OF n(2)]
  let ?w = "w1\<lparr>attached := attached w - {c}\<rparr>"
  have t: "close_task c w = Inr ?w"
    using c w1 r(1) e by (simp add: close_task_def idle_cleanup_def handyUnregisterIdle_def)
  moreover have "ids_ok ?w"
    using idle_cleanup_ok [of w c] ok c t by (auto simp: conns_ok_def close_task_def)
  moreover have "conn_node ?w c'" if c': "c' \<in> attached w - {c}" for c'
  proof -
    obtain r' where r': "idleIds w c' = [(idle_limit w c', r')]"
        "is_node w (idle_limit w c') \<lparr>n_ref = r', n_updated = silent_since w c', n_cb = IdleClose c'\<rparr>" (is "is_node _ _ ?m")
      using conn_id [OF ok, of c'] c' by (metis DiffD1)
    have "(idle_limit w c', r') \<noteq> ?i" using other_id [OF _ _ c _ r'(1) r(1)] ok c' by (auto simp: conns_ok_def)
    then have "is_node w1 (idle_limit w c') ?m" using n(1) [of "idle_limit w c'" ?m] r'(2) by simp
    then show ?thesis using r'(1) ok c' e(1) l is_node_cong [of ?w w1] by (auto simp: conns_ok_def conn_node_def)
  qed
  moreover have "idle_ok ?w" using unregisterIdle_ok [OF _ w1] ok by (simp add: conns_ok_def idle_ok_def)
  moreover have "dom (map_of (idleConns w1)) = dom (map_of (idleConns w))" using n(2) by (simp add: same_events_def)
  ultimately show ?thesis using ok n(2) e l by (auto simp: conns_ok_def)
qed

text \<open>Setting a timer.\<close>

lemma runAfter_fine:
  fixes w :: lworld
  assumes "timers_fine w" "\<not> ev_exit w" "0 \<le> i" "\<And>x. cb \<noteq> IdleClose x"
  shows "timers_fine (snd (runAfter d cb i w))" "ticks w k \<Longrightarrow> ticks (snd (runAfter d cb i w)) k"
    "cb = Tick \<Longrightarrow> i = 1000 \<Longrightarrow> d = 1000 \<Longrightarrow> \<exists>k. ticks (snd (runAfter d cb i w)) k"
proof -
  have ok: "timers_ok w" "mok (timers w)" "mok (timerReps w)" using assms(1) ok_mok by (auto simp: timers_fine_def)
  let ?w = "snd (runAfter d cb i w)"
  have tw: "timers_ok ?w" using runAt_ok [OF ok(1)] by (simp add: runAfter_def)
  have other: "attached ?w = attached w" "idleEnabled ?w = idleEnabled w" "clock ?w = clock w"
    by (simp_all add: runAfter_def runAt_def refreshNearest_def Let_def)
  consider "i = 0" | "0 < i" using assms(3) by linarith
  then have "steady ?w \<and> (\<forall>j c. map_of (timers ?w) j = Some (Once c) \<longrightarrow> (\<forall>x. c \<noteq> IdleClose x)) \<and>
      (\<forall>k r. map_of (timerReps ?w) k = Some r \<longrightarrow> (\<forall>x. r_cb r \<noteq> IdleClose x)) \<and> (\<forall>k. ticks w k \<longrightarrow> ticks ?w k) \<and>
      (cb = Tick \<and> i = 1000 \<and> d = 1000 \<longrightarrow> (\<exists>k. ticks ?w k))"
  proof cases
    case 1
    then have "timerReps ?w = timerReps w" "timers ?w = mput (clock w + d, timerSeq w + 1) (Once cb) (timers w)"
      using runAt_once [OF ok(1) assms(2), of "clock w + d" cb] by (simp_all add: runAfter_def refreshNearest_def)
    then show ?thesis using 1 assms(1,4) ok(2) other by (auto simp: timers_fine_def steady_def ticks_def split: if_splits)
  next
    case 2
    define K where "K = (- (clock w + d), timerSeq w + 1)"
    define R where "R = \<lparr>r_at = clock w + d, r_interval = i, r_timerid = (clock w + d, timerSeq w + 2), r_cb = cb\<rparr>"
    have new: "map_of (timerReps w) K = None" using fresh_rep [OF ok(1)] by (simp add: K_def)
    have R: "r_at R = clock w + d" "r_interval R = i" "r_cb R = cb" by (simp_all add: R_def)
    have reps: "map_of (timerReps ?w) = (map_of (timerReps w))(K \<mapsto> R)"
      using runAt_repeat [OF assms(2), of i "clock w + d" cb] 2 ok(3) by (simp add: runAfter_def K_def R_def)
    have "timers ?w = mput (clock w + d, timerSeq w + 2) (Repeat K) (timers w)"
      using runAt_repeat [OF assms(2), of i "clock w + d" cb] 2 by (simp add: runAfter_def K_def)
    then have ts: "map_of (timers ?w) = (map_of (timers w))((clock w + d, timerSeq w + 2) \<mapsto> Repeat K)" using ok(2) by simp
    note f = assms(1) [unfolded timers_fine_def]
    have "steady ?w" using f 2 R by (simp add: steady_def reps)
    moreover have "\<forall>j c. map_of (timers ?w) j = Some (Once c) \<longrightarrow> (\<forall>x. c \<noteq> IdleClose x)" using f by (simp add: ts)
    moreover have "\<forall>k r. map_of (timerReps ?w) k = Some r \<longrightarrow> (\<forall>x. r_cb r \<noteq> IdleClose x)" using f R assms(4) by (simp add: reps)
    moreover have "ticks ?w k" if "ticks w k" for k
    proof -
      have "k \<noteq> K" using that new by (auto simp: ticks_def)
      then show ?thesis using that other by (simp add: ticks_def reps)
    qed
    moreover have "cb = Tick \<and> i = 1000 \<and> d = 1000 \<longrightarrow> ticks ?w K" unfolding ticks_def reps other using R by auto
    ultimately show ?thesis by blast
  qed
  then show "timers_fine ?w" "ticks w k \<Longrightarrow> ticks ?w k" "cb = Tick \<Longrightarrow> i = 1000 \<Longrightarrow> d = 1000 \<Longrightarrow> \<exists>k. ticks ?w k"
    using assms(1) tw other by (auto simp: timers_fine_def)
qed

lemma runAfter_reps:
  assumes "timers_ok w" "\<not> ev_exit w" "map_of (timerReps w) k = Some r"
  shows "map_of (timerReps (snd (runAfter d cb i w))) k = Some r"
proof (cases "i = 0")
  case True
  then show ?thesis using assms runAt_once [OF assms(1,2)] by (simp add: runAfter_def)
next
  case False
  have "map_of (timerReps w) (- (clock w + d), timerSeq w + 1) = None" using fresh_rep [OF assms(1)] by simp
  then have "k \<noteq> (- (clock w + d), timerSeq w + 1)" using assms(3) by auto
  then show ?thesis using assms(3) ok_mok [OF assms(1)] runAt_repeat [OF assms(2) False, of "clock w + d" cb] by (simp add: runAfter_def)
qed

lemma runAfter_others:
  fixes w :: lworld
  shows "idleConns (snd (runAfter d cb i w)) = idleConns w" "node_refs (snd (runAfter d cb i w)) = node_refs w"
    "clock (snd (runAfter d cb i w)) = clock w" "ev_exit (snd (runAfter d cb i w)) = ev_exit w"
    "idleEnabled (snd (runAfter d cb i w)) = idleEnabled w" "idleIds (snd (runAfter d cb i w)) = idleIds w"
    "attached (snd (runAfter d cb i w)) = attached w" "ltasks (snd (runAfter d cb i w)) = ltasks w"
    "born (snd (runAfter d cb i w)) = born w" "silent_since (snd (runAfter d cb i w)) = silent_since w"
    "idle_limit (snd (runAfter d cb i w)) = idle_limit w"
  by (simp_all add: runAfter_def runAt_def refreshNearest_def Let_def)

text \<open>What a list of events may have changed.\<close>

definition moved :: "loop_event list \<Rightarrow> lworld \<Rightarrow> lworld \<Rightarrow> bool" where
  "moved evs w w' \<longleftrightarrow> clock w \<le> clock w' \<and> born w \<le> born w' \<and> attached w' \<subseteq> attached w \<union> {born w..<born w'} \<and>
     (\<forall>c \<in> attached w - attached w'. PeerClosed c \<in> set evs \<or> WakeUp \<in> set evs \<and> c \<in> set (items (ltasks w))) \<and>
     items (ltasks w') = (if WakeUp \<in> set evs then [] else items (ltasks w)) \<and>
     (WakeUp \<in> set evs \<longrightarrow> set (items (ltasks w)) \<inter> attached w' = {}) \<and> (idleEnabled w \<longrightarrow> idleEnabled w') \<and>
     (\<forall>k r. map_of (timerReps w) k = Some r \<longrightarrow> map_of (timerReps w') k = Some r)"

lemma moved_trans:
  assumes "moved [ev] w w1" "moved evs w1 w'" "set (items (ltasks w)) \<subseteq> {..<born w}"
  shows "moved (ev # evs) w w'"
proof -
  note m = assms(1) [unfolded moved_def] and m' = assms(2) [unfolded moved_def]
  have old: "c \<notin> {born w..<n}" if "c \<in> set (items (ltasks w))" for c n using that assms(3) by auto
  have "attached w' \<subseteq> attached w \<union> {born w..<born w'}" using m m' by fastforce
  moreover have "PeerClosed c \<in> set (ev # evs) \<or> WakeUp \<in> set (ev # evs) \<and> c \<in> set (items (ltasks w))" if "c \<in> attached w - attached w'" for c
    using that m m' by (cases "c \<in> attached w1") (auto split: if_splits)
  moreover have "items (ltasks w') = (if WakeUp \<in> set (ev # evs) then [] else items (ltasks w))" using m m' by (auto split: if_splits)
  moreover have "set (items (ltasks w)) \<inter> attached w' = {}" if wk: "WakeUp \<in> set (ev # evs)"
  proof (cases "ev = WakeUp")
    case True
    then have "set (items (ltasks w)) \<inter> attached w1 = {}" using m by simp
    moreover have "attached w' \<subseteq> attached w1 \<union> {born w1..<born w'}" "born w \<le> born w1" using m m' by simp_all
    ultimately show ?thesis using old [of _ "born w'"] by fastforce
  next
    case False
    then have "items (ltasks w1) = items (ltasks w)" using m by simp
    then show ?thesis using m' wk False by auto
  qed
  ultimately show ?thesis using m m' by (auto simp: moved_def)
qed

lemma moved_refl: "moved [] w w"
  by (simp add: moved_def)

text \<open>Events that leave the timers alone.\<close>

definition timers_kept :: "lworld \<Rightarrow> lworld \<Rightarrow> bool" where
  "timers_kept w w' \<longleftrightarrow> timers w' = timers w \<and> timerReps w' = timerReps w \<and> timerSeq w' = timerSeq w \<and> idleEnabled w' = idleEnabled w"

lemma timers_kept_fine:
  assumes "timers_fine w" "timers_kept w w'" "clock w \<le> clock w'" "attached w' \<subseteq> attached w"
  shows "timers_fine w'"
proof -
  note k = assms(2) [unfolded timers_kept_def]
  have "ticks w' k" if "ticks w k" for k using that k assms(3) by (auto simp: ticks_def)
  moreover have "timers_ok w'" "steady w'" using assms(1) k by (simp_all add: timers_fine_def timers_ok_def steady_def)
  ultimately show ?thesis using assms(1,4) k by (auto simp: timers_fine_def)
qed

definition loop_ok :: "lworld \<Rightarrow> bool" where
  "loop_ok w \<longleftrightarrow> conns_ok w \<and> timers_fine w"

lemma close_step:
  assumes "conns_ok w"
  shows "\<exists>w'. close_task c w = Inr w' \<and> conns_ok w' \<and> timers_kept w w' \<and> clock w' = clock w \<and> born w' = born w \<and> ltasks w' = ltasks w \<and>
    attached w' = attached w - {c}"
proof (cases "c \<in> attached w")
  case True
  obtain w' w1 where w': "close_task c w = Inr w'" "conns_ok w'" "w' = w1\<lparr>attached := attached w - {c}\<rparr>" "same_events w w1"
    using close_ok [OF assms True] by blast
  then show ?thesis using same_eventsD [OF w'(4)] same_lworld [OF w'(4)] by (auto simp: timers_kept_def)
next
  case False
  then show ?thesis using assms by (intro exI [of _ w]) (auto simp: close_task_def timers_kept_def)
qed

lemma close_all:
  "conns_ok w \<Longrightarrow> \<exists>w'. run_list close_task cs w = Inr w' \<and> conns_ok w' \<and> timers_kept w w' \<and> clock w' = clock w \<and> born w' = born w \<and>
     ltasks w' = ltasks w \<and> attached w' = attached w - set cs"
proof (induction cs arbitrary: w)
  case Nil
  then show ?case by (auto simp: timers_kept_def)
next
  case (Cons c cs)
  obtain w1 where w1: "close_task c w = Inr w1" "conns_ok w1" "timers_kept w w1" "clock w1 = clock w" "born w1 = born w" "ltasks w1 = ltasks w"
      "attached w1 = attached w - {c}"
    using close_step [OF Cons.prems, of c] by blast
  obtain w' where "run_list close_task cs w1 = Inr w'" "conns_ok w'" "timers_kept w1 w'" "clock w' = clock w1" "born w' = born w1"
      "ltasks w' = ltasks w1" "attached w' = attached w1 - set cs"
    using Cons.IH [OF w1(2)] by blast
  then show ?case using w1 by (auto simp: timers_kept_def)
qed

lemma wakeup_step:
  assumes "loop_ok w"
  shows "\<exists>w'. loop_do WakeUp w = Inr w' \<and> loop_ok w' \<and> moved [WakeUp] w w'"
proof -
  have ok: "conns_ok w" "timers_fine w" using assms by (simp_all add: loop_ok_def)
  obtain w1 where w1: "run_list close_task (items (ltasks w)) w = Inr w1" "conns_ok w1" "timers_kept w w1" "clock w1 = clock w" "born w1 = born w"
      "ltasks w1 = ltasks w" "attached w1 = attached w - set (items (ltasks w))"
    using close_all [OF ok(1)] by blast
  let ?w = "w1\<lparr>ltasks := (ltasks w)\<lparr>items := []\<rparr>\<rparr>"
  have "loop_do WakeUp w = Inr ?w" using w1(1) by (simp add: drain_run_list)
  moreover have "conns_ok ?w"
    using w1(2,6) ids_ok_cong [of ?w w1] is_node_cong [of ?w w1] by (simp add: conns_ok_def conn_node_def idle_ok_def sq_open_def)
  moreover have "timers_kept w ?w" using w1(3) by (simp add: timers_kept_def)
  then have "timers_fine ?w" using timers_kept_fine [OF ok(2), of ?w] w1(4,7) by simp
  ultimately show ?thesis using w1 by (auto simp: loop_ok_def moved_def timers_kept_def)
qed

lemma accept_step:
  assumes "loop_ok w" "0 < idle"
  shows "\<exists>w'. loop_do (Accept idle) w = Inr w' \<and> loop_ok w' \<and> moved [Accept idle] w w'"
proof -
  have ok: "conns_ok w" "timers_fine w" "\<not> ev_exit w" "timers_ok w" using assms(1) by (simp_all add: loop_ok_def conns_ok_def timers_fine_def)
  let ?c = "born w"
  have new: "?c \<notin> attached w" using ok(1) by (auto simp: conns_ok_def conn_node_def)
  let ?w1 = "w\<lparr>attached := insert ?c (attached w), idleIds := (idleIds w)(?c := []), born := ?c + 1,
    silent_since := (silent_since w)(?c := clock w div 1000), idle_limit := (idle_limit w)(?c := idle)\<rparr>"
  have "ids_ok (w\<lparr>attached := insert ?c (attached w), idleIds := (idleIds w)(?c := [])\<rparr>)"
    using idle_do_ok [of w Tick "Attach ?c"] new ok(1) by (auto simp: conns_ok_def)
  then have ids1: "ids_ok ?w1"
    using ids_ok_cong [of ?w1 "w\<lparr>attached := insert ?c (attached w), idleIds := (idleIds w)(?c := [])\<rparr>"] by simp
  have lo: "lists_ok ?w1" "idle_ok ?w1" using ids1 ok(1) by (simp_all add: ids_ok_def conns_ok_def idle_ok_def)
  obtain i w2 where r: "registerIdle Tick idle (IdleClose ?c) ?w1 = (i, w2)" by (rule prod.exhaust)
  have w2: "idleIds w2 = idleIds ?w1" "attached w2 = attached ?w1" using register_ok [OF lo(1) r] by simp_all
  let ?e = "if idleEnabled w then ?w1 else (snd (runAfter 1000 Tick 1000 ?w1))\<lparr>idleEnabled := True\<rparr>"
  have w2e: "w2 = ?e\<lparr>idleConns := idleConns w2, node_refs := node_refs w2\<rparr>" "i = (idle, snd i)"
    using r by (auto simp: registerIdle_def Let_def split: prod.splits)
  have f: "clock w2 = clock w" "born w2 = ?c + 1" "ltasks w2 = ltasks w" "silent_since w2 = silent_since ?w1" "idle_limit w2 = idle_limit ?w1"
    "ev_exit w2 = ev_exit w" "idleEnabled w2" "timers w2 = timers ?e" "timerReps w2 = timerReps ?e" "timerSeq w2 = timerSeq ?e"
    by (subst w2e(1); simp add: runAfter_others)+
  let ?w = "w2\<lparr>idleIds := (idleIds w2)(?c := [i])\<rparr>"
  have do: "loop_do (Accept idle) w = Inr ?w" using r w2 by (simp add: addIdleCB_def Let_def)
  have isn: "is_node (w2\<lparr>idleIds := ids\<rparr>) = is_node w2" for ids by (rule is_node_cong) simp
  have node: "is_node w2 k n \<longleftrightarrow> is_node w k n \<or> k = idle \<and> n = \<lparr>n_ref = snd i, n_updated = clock w div 1000, n_cb = IdleClose ?c\<rparr>" for k n
    using register_node(1) [OF lo(1) r, of k n] is_node_cong [of ?w1 w] by simp
  have dom: "dom (map_of (idleConns ?w)) = insert idle (dom (map_of (idleConns w)))" using register_node(2) [OF lo(1) r] by simp
  have "ids_ok ?w" using addIdleCB_ok [OF ids1, of Tick ?c idle "IdleClose ?c"] r w2 by (simp add: addIdleCB_def)
  moreover have "idle_ok ?w" using registerIdle_ok [OF lo(2), of Tick idle "IdleClose ?c"] r by (simp add: idle_ok_def)
  moreover have "conn_node ?w ?c" using w2e(2) f(2,4,5) by (simp add: conn_node_def isn node) (metis prod.inject)
  moreover have "conn_node ?w c" if "c \<in> attached w" for c
  proof -
    have "c \<noteq> ?c" "conn_node w c" using that new ok(1) by (auto simp: conns_ok_def)
    then show ?thesis using w2(1) f(2,4,5) by (auto simp: conn_node_def isn node)
  qed
  ultimately have c: "conns_ok ?w" using ok(1) assms(2) dom w2 f by (auto simp: conns_ok_def)
  have reps: "map_of (timerReps ?w) k = Some x" if "map_of (timerReps w) k = Some x" for k x
    using that runAfter_reps [of ?w1 k x 1000 Tick 1000] ok(3,4) f(9) by (auto simp: timers_ok_def)
  have "timers_fine ?w"
  proof (cases "idleEnabled w")
    case True
    then show ?thesis using ok(2) f w2 by (auto simp: timers_fine_def timers_ok_def steady_def ticks_def)
  next
    case False
    have e: "\<And>w'. timers_fine w' \<Longrightarrow> ticks w' k \<Longrightarrow> timers w2 = timers w' \<Longrightarrow> timerReps w2 = timerReps w' \<Longrightarrow> timerSeq w2 = timerSeq w' \<Longrightarrow>
        clock w2 = clock w' \<Longrightarrow> timers_fine ?w" for k
      using f(7) by (auto simp: timers_fine_def timers_ok_def steady_def ticks_def)
    have "timers_fine (?w1\<lparr>attached := {}\<rparr>)" using ok(2) False by (simp add: timers_fine_def timers_ok_def steady_def)
    from runAfter_fine(1,3) [OF this, where d = 1000 and cb = Tick and i = 1000]
    have "timers_fine (snd (runAfter 1000 Tick 1000 (?w1\<lparr>attached := {}\<rparr>)))" "\<exists>k. ticks (snd (runAfter 1000 Tick 1000 (?w1\<lparr>attached := {}\<rparr>))) k"
      using ok(3) by simp_all
    moreover have "timers w2 = timers (snd (runAfter 1000 Tick 1000 (?w1\<lparr>attached := {}\<rparr>)))"
        "timerReps w2 = timerReps (snd (runAfter 1000 Tick 1000 (?w1\<lparr>attached := {}\<rparr>)))"
        "timerSeq w2 = timerSeq (snd (runAfter 1000 Tick 1000 (?w1\<lparr>attached := {}\<rparr>)))"
      unfolding f(8-10) using False by (simp_all add: runAfter_def runAt_def Let_def)
    ultimately show ?thesis using e [of "snd (runAfter 1000 Tick 1000 (?w1\<lparr>attached := {}\<rparr>))"] f(1) by (auto simp: runAfter_others)
  qed
  then show ?thesis using do c new reps w2 f by (auto simp: loop_ok_def moved_def)
qed

lemma loop_do_ok:
  assumes "loop_ok w" "ev_ok ev"
  shows "\<exists>w'. loop_do ev w = Inr w' \<and> loop_ok w' \<and> moved [ev] w w'"
proof (cases ev)
  case (Readable c)
  show ?thesis
  proof (cases "c \<in> attached w")
    case True
    let ?w = "w\<lparr>silent_since := (silent_since w)(c := clock w div 1000)\<rparr>"
    obtain w' where w': "loop_do (Readable c) w = Inr w'" "conns_ok w'" "same_events ?w w'"
      using readable_ok [OF _ True] assms(1) by (auto simp: loop_ok_def)
    note e = same_eventsD [OF w'(3)] same_lworld [OF w'(3)]
    have "timers_kept w w'" using e by (simp add: timers_kept_def)
    then have "timers_fine w'" using timers_kept_fine [of w w'] assms(1) e by (simp add: loop_ok_def)
    then show ?thesis using w' e Readable by (auto simp: loop_ok_def moved_def)
  qed (use assms Readable in \<open>auto simp: moved_def\<close>)
next
  case (PeerClosed c)
  have ok: "conns_ok w" "timers_fine w" using assms(1) by (simp_all add: loop_ok_def)
  obtain w' where w': "close_task c w = Inr w'" "conns_ok w'" "timers_kept w w'" "clock w' = clock w" "born w' = born w" "ltasks w' = ltasks w"
      "attached w' = attached w - {c}"
    using close_step [OF ok(1), of c] by blast
  moreover have "timers_fine w'" using timers_kept_fine [OF ok(2) w'(3)] w'(4,7) by auto
  ultimately show ?thesis using PeerClosed by (auto simp: loop_ok_def moved_def timers_kept_def)
next
  case (UserAfter d i n)
  let ?w = "snd (runAfter d (UserTimer n) i w)"
  have ok: "conns_ok w" "timers_fine w" "\<not> ev_exit w" "timers_ok w" using assms(1) by (auto simp: loop_ok_def conns_ok_def timers_fine_def)
  have "timers_fine ?w" using runAfter_fine(1) [OF ok(2,3), of i "UserTimer n" d] assms(2) UserAfter by simp
  moreover have "conns_ok ?w"
    using ok(1) ids_ok_cong [of ?w w] is_node_cong [of ?w w] by (simp add: conns_ok_def conn_node_def idle_ok_def runAfter_others)
  ultimately show ?thesis using UserAfter runAfter_reps [OF ok(4,3)] by (auto simp: loop_ok_def moved_def runAfter_others)
next
  case (Elapse ms)
  let ?w = "w\<lparr>clock := clock w + int ms\<rparr>"
  have ok: "conns_ok w" "timers_fine w" using assms(1) by (simp_all add: loop_ok_def)
  have mono: "clock w div 1000 \<le> clock ?w div 1000" by (simp add: zdiv_mono1)
  have "idle_ok ?w" using ok(1) mono by (fastforce simp: conns_ok_def idle_ok_def)
  then have "conns_ok ?w" using ok(1) ids_ok_cong [of ?w w] is_node_cong [of ?w w] by (simp add: conns_ok_def conn_node_def)
  moreover have "timers_fine ?w" by (rule timers_kept_fine [OF ok(2)]) (simp_all add: timers_kept_def)
  ultimately show ?thesis using Elapse by (auto simp: loop_ok_def moved_def)
qed (use assms accept_step wakeup_step in auto)

lemma loop_poll_ok:
  "loop_ok w \<Longrightarrow> list_all ev_ok evs \<Longrightarrow> \<exists>w'. loop_poll evs w = Inr w' \<and> loop_ok w' \<and> moved evs w w'"
proof (induction evs arbitrary: w)
  case Nil
  then show ?case using moved_refl by simp
next
  case (Cons ev evs)
  obtain w1 where w1: "loop_do ev w = Inr w1" "loop_ok w1" "moved [ev] w w1" using loop_do_ok [OF Cons.prems(1), of ev] Cons.prems(2) by auto
  obtain w' where "loop_poll evs w1 = Inr w'" "loop_ok w'" "moved evs w1 w'" using Cons.IH [OF w1(2)] Cons.prems(2) by auto
  moreover have "set (items (ltasks w)) \<subseteq> {..<born w}" using Cons.prems(1) by (simp add: loop_ok_def conns_ok_def)
  ultimately show ?case using w1 moved_trans by auto
qed

section \<open>The timers of a turn\<close>

text \<open>What callbacks leave alone, and what they have posted.\<close>

definition same_conns :: "lworld \<Rightarrow> lworld \<Rightarrow> bool" where
  "same_conns w e \<longleftrightarrow> clock e = clock w \<and> ev_exit e = ev_exit w \<and> idleConns e = idleConns w \<and> idleEnabled e = idleEnabled w \<and>
     node_refs e = node_refs w \<and> idleIds e = idleIds w \<and> attached e = attached w \<and> born e = born w \<and>
     silent_since e = silent_since w \<and> idle_limit e = idle_limit w"

definition posted :: "lworld \<Rightarrow> loop_cb list \<Rightarrow> lworld \<Rightarrow> bool" where
  "posted w cs e \<longleftrightarrow> same_conns w e \<and> sq_open (ltasks e) \<and> set (items (ltasks e)) \<subseteq> {..<born w} \<and>
     ((\<forall>c. IdleClose c \<notin> set cs) \<longrightarrow> (\<exists>ps. items (ltasks e) = items (ltasks w) @ ps \<and> set ps \<subseteq> overdue w \<and>
        (Tick \<in> set cs \<longrightarrow> overdue w \<subseteq> set ps)))"

lemma same_conns_ok: "same_conns w e \<Longrightarrow> sq_open (ltasks e) \<Longrightarrow> set (items (ltasks e)) \<subseteq> {..<born w} \<Longrightarrow> conns_ok w \<Longrightarrow> conns_ok e"
  using ids_ok_cong [of e w] is_node_cong [of e w] by (simp add: same_conns_def conns_ok_def conn_node_def idle_ok_def)

lemma posted_step:
  assumes w: "conns_ok w" and p: "posted w cs (client e)"
  shows "\<exists>e'. loop_run c e = Inr e' \<and> posted w (cs @ [c]) (client e') \<and> timers e' = timers e \<and> timerReps e' = timerReps e \<and>
    timerSeq e' = timerSeq e \<and> fired e' = fired e \<and> clock e \<le> clock e'"
proof -
  have tq: "ltasks (client e) = ltasks e" "attached (client e) = attached e" "born (client e) = born e" by (simp_all add: client_def)
  have same: "same_conns w (client e)" "sq_open (ltasks e)" "set (items (ltasks e)) \<subseteq> {..<born w}" using p tq by (simp_all add: posted_def)
  have "same_conns w e = same_conns w (client e)" by (simp add: same_conns_def client_def)
  then have e: "same_conns w e" "conns_ok e" using same same_conns_ok [of w e] w by simp_all
  have over: "overdue e = overdue w" using e(1) by (simp add: overdue_def same_conns_def)
  have post: "posted w (cs @ [c]) (client (e\<lparr>ltasks := fold safeCall ps (ltasks e)\<rparr>))"
    if "set ps \<subseteq> attached w" "(\<forall>x. c \<noteq> IdleClose x) \<longrightarrow> set ps \<subseteq> overdue w" "c = Tick \<longrightarrow> overdue w \<subseteq> set ps" for ps
  proof -
    have "attached w \<subseteq> {..<born w}" using w by (auto simp: conns_ok_def conn_node_def)
    then have "set (items (ltasks e) @ ps) \<subseteq> {..<born w}" using same(3) that(1) by auto
    moreover have "sq_open (fold safeCall ps (ltasks e))" "items (fold safeCall ps (ltasks e)) = items (ltasks e) @ ps"
      using sq.post_all [OF same(2), of ps] unfolding safeCall_def [abs_def] by blast+
    moreover have "\<exists>qs. items (ltasks e) @ ps = items (ltasks w) @ qs \<and> set qs \<subseteq> overdue w \<and> (Tick \<in> set (cs @ [c]) \<longrightarrow> overdue w \<subseteq> set qs)"
      if no: "\<forall>x. IdleClose x \<notin> set (cs @ [c])"
    proof -
      obtain qs where "items (ltasks e) = items (ltasks w) @ qs" "set qs \<subseteq> overdue w" "Tick \<in> set cs \<longrightarrow> overdue w \<subseteq> set qs"
        using p no tq by (auto simp: posted_def)
      then show ?thesis using \<open>(\<forall>x. c \<noteq> IdleClose x) \<longrightarrow> _\<close> \<open>c = Tick \<longrightarrow> _\<close> no by (intro exI [of _ "qs @ ps"]) auto
    qed
    moreover have "same_conns w (client (e\<lparr>ltasks := q\<rparr>))" for q using e(1) by (simp add: same_conns_def client_def)
    ultimately show ?thesis by (simp add: posted_def client_def)
  qed
  show ?thesis
  proof (cases c)
    case Tick
    obtain ps where ps: "loop_run Tick e = Inr (e\<lparr>ltasks := fold safeCall ps (ltasks e)\<rparr>)" "set ps = overdue w"
      using tick_posts [OF e(2)] over by auto
    then have "posted w (cs @ [c]) (client (e\<lparr>ltasks := fold safeCall ps (ltasks e)\<rparr>))" by (intro post) (auto simp: overdue_def)
    then show ?thesis using ps(1) Tick by auto
  next
    case (IdleClose x)
    let ?ps = "if x \<in> attached e then [x] else []"
    have "loop_run c e = Inr (e\<lparr>ltasks := fold safeCall ?ps (ltasks e)\<rparr>)" using IdleClose by (simp add: conn_close_def)
    moreover have "posted w (cs @ [c]) (client (e\<lparr>ltasks := fold safeCall ?ps (ltasks e)\<rparr>))"
      using e(1) IdleClose by (intro post) (auto simp: same_conns_def)
    ultimately show ?thesis by auto
  next
    case (UserTimer n)
    have "posted w (cs @ [c]) (client (e\<lparr>ltasks := fold safeCall [] (ltasks e)\<rparr>))" using UserTimer by (intro post) auto
    then have "posted w (cs @ [c]) (client (e\<lparr>user_runs := user_runs e @ [n]\<rparr>))"
      by (simp add: posted_def same_conns_def client_def)
    then show ?thesis using UserTimer by auto
  qed
qed

lemma loop_quiet: "conns_ok w \<Longrightarrow> quiet (\<lambda>n. posted w) loop_run"
  using posted_step [of w] by (simp add: quiet_def)

section \<open>A whole turn\<close>

lemma runs_of_pos: "0 < runs_of k fs \<longleftrightarrow> (\<exists>f \<in> set fs. snd f = Repeat k)"
  by (auto simp: runs_of_def filter_empty_conv)

lemma served_cbs:
  assumes "timers_fine w" "served now w fs e'" "f \<in> set fs"
  shows "\<forall>x. task_cb w (snd f) \<noteq> IdleClose x"
proof (cases "snd f")
  case (Once c)
  then have "map_of (timers w) (fst f) = Some (Once c)" using served_onceD [OF assms(2), of "fst f" c] assms(3) by (metis prod.collapse)
  then show ?thesis using assms(1) Once by (simp add: timers_fine_def)
next
  case (Repeat k)
  then have "0 < runs_of k fs" using runs_of_pos assms(3) by blast
  then obtain r where "map_of (timerReps w) k = Some r"
    using served_no_repD [OF assms(2), of k] by (cases "map_of (timerReps w) k") simp_all
  then show ?thesis using assms(1) Repeat by (simp add: timers_fine_def)
qed

lemma next_tick:
  assumes "r_at r \<le> now + 1000" "r_interval r = 1000"
  shows "r_at r + periods now r * r_interval r \<le> now + 1000"
proof (cases "r_at r \<le> now")
  case True
  have "(now - r_at r) div 1000 * 1000 \<le> now - r_at r" 
    using div_mult_mod_eq [of "now - r_at r" 1000] pos_mod_sign [of 1000 "now - r_at r"] by linarith
  then show ?thesis using True assms(2) by (simp add: periods_def algebra_simps)
qed (use assms in \<open>simp add: periods_def\<close>)

lemma served_fine:
  assumes "timers_fine w" "served (clock w) w fs w'" "timers_ok w'" "same_conns w w'"
  shows "timers_fine w'"
proof -
  have c: "clock w' = clock w" "attached w' = attached w" "idleEnabled w' = idleEnabled w" using assms(4) by (simp_all add: same_conns_def)
  have rep: "\<exists>r. map_of (timerReps w) k = Some r \<and> r_interval r' = r_interval r \<and> r_cb r' = r_cb r" if "map_of (timerReps w') k = Some r'" for k r'
    using that served_no_repD [OF assms(2), of k] served_repD [OF assms(2), of k] by (cases "map_of (timerReps w) k") auto
  have "steady w'" unfolding steady_def using rep assms(1) by (metis timers_fine_def steady_def)
  moreover have "\<forall>k r. map_of (timerReps w') k = Some r \<longrightarrow> (\<forall>x. r_cb r \<noteq> IdleClose x)"
    using rep assms(1) by (metis timers_fine_def)
  moreover have "\<forall>i c. map_of (timers w') i = Some (Once c) \<longrightarrow> (\<forall>x. c \<noteq> IdleClose x)"
    using served_leftD [OF assms(2)] assms(1) unfolding timers_fine_def by blast
  moreover have "ticks w' k" if "ticks w k" for k
  proof -
    obtain r where r: "map_of (timerReps w) k = Some r" "r_cb r = Tick" "r_interval r = 1000" "r_at r \<le> clock w + 1000"
      using \<open>ticks w k\<close> by (auto simp: ticks_def)
    then show ?thesis using served_repD [OF assms(2) r(1)] next_tick [OF r(4,3)] c(1) by (auto simp: ticks_def)
  qed
  ultimately show ?thesis using assms(1,3) unfolding timers_fine_def c by blast
qed

lemma loop_turn_ok:
  assumes "loop_ok w" "list_all ev_ok evs" "fits evs w"
  shows "\<exists>w' w1 ps. loop_turn evs w = Some (Inr w') \<and> loop_poll evs w = Inr w1 \<and> loop_ok w' \<and> moved evs w w1 \<and> same_conns w1 w' \<and>
    items (ltasks w') = items (ltasks w1) @ ps \<and> set ps \<subseteq> overdue w1 \<and> ((\<exists>k. ticks w k) \<and> clock w + 1000 \<le> clock w1 \<longrightarrow> overdue w1 \<subseteq> set ps)"
proof -
  obtain w1 where w1: "loop_poll evs w = Inr w1" "loop_ok w1" "moved evs w w1" using loop_poll_ok [OF assms(1,2)] by blast
  have ok: "conns_ok w1" "timers_fine w1" "timers_ok w1" "steady w1" using w1(2) by (simp_all add: loop_ok_def timers_fine_def)
  have b: "timerSeq w1 + int (backlog (clock w1) w1) < 2 ^ 62" using assms(3) w1(1) by (simp add: fits_def)
  have "ltasks (client w1) = ltasks w1" "same_conns w1 (client w1)" by (simp_all add: same_conns_def client_def)
  then have "posted w1 [] (client w1)" using ok(1) by (simp add: posted_def conns_ok_def)
  from handleTimeouts_serves [OF loop_quiet [OF ok(1)] ok(3,4) b this]
  obtain w' fs where w': "handleTimeouts loop_run w1 = Some (Inr w')" "timers_ok w'" "posted w1 (map (task_cb w1 \<circ> snd) fs) (client w')"
      "served (clock w1) w1 fs w'"
    by blast
  have same: "same_conns w1 w'" "ltasks (client w') = ltasks w'" using w'(3) by (simp_all add: posted_def same_conns_def client_def)
  have "\<forall>c. IdleClose c \<notin> set (map (task_cb w1 \<circ> snd) fs)" using served_cbs [OF ok(2) w'(4)] by (auto simp: image_iff) metis
  then obtain ps where ps: "items (ltasks w') = items (ltasks w1) @ ps" "set ps \<subseteq> overdue w1"
      "Tick \<in> set (map (task_cb w1 \<circ> snd) fs) \<longrightarrow> overdue w1 \<subseteq> set ps"
    using w'(3) same(2) by (auto simp: posted_def)
  have "Tick \<in> set (map (task_cb w1 \<circ> snd) fs)" if k: "ticks w k" "clock w + 1000 \<le> clock w1" for k
  proof -
    obtain r where r: "map_of (timerReps w) k = Some r" "r_cb r = Tick" "r_interval r = 1000" "r_at r \<le> clock w + 1000"
      using k(1) by (auto simp: ticks_def)
    then have r1: "map_of (timerReps w1) k = Some r" using w1(3) by (simp add: moved_def)
    have "0 \<le> (clock w1 - r_at r) div 1000" using r(4) k(2) by (simp add: pos_imp_zdiv_nonneg_iff)
    then have "0 < runs_of k fs" using served_repD [OF w'(4) r1] r(3,4) k(2) by (auto simp: periods_def)
    then obtain f where "f \<in> set fs" "snd f = Repeat k" using runs_of_pos by blast
    then show ?thesis using r1 r(2) by (force simp: image_iff)
  qed
  moreover have "loop_ok w'"
    using same_conns_ok [OF same(1) _ _ ok(1)] served_fine [OF ok(2) w'(4,2) same(1)] w'(3) same(2) by (simp add: loop_ok_def posted_def)
  moreover have "loop_turn evs w = Some (Inr w')" using w1(1) w'(1) by (simp add: loop_turn_def ev_loop_once_def)
  ultimately show ?thesis using w1(1,3) same(1) ps by blast
qed

lemma loop_reach_ok: "loop_reach w \<Longrightarrow> loop_ok w"
proof (induction rule: loop_reach.induct)
  case (start t0)
  then show ?case using conns_ok_new by (simp add: loop_ok_def)
next
  case (turn w evs w')
  then show ?case using loop_turn_ok [OF turn.IH turn.hyps(2,3)] by auto
qed

section \<open>Properties\<close>

text \<open>C15. In every turn of the loop, whatever arrives, is accepted, closed, posted or set as a timer:
  the turn returns without an error. Its timers are served in the state its events have led to; when a second or more has passed
  and a connection was there, every connection that has then sent nothing for its idle
  time has its closing posted; nothing else is posted; a connection goes only when its peer closed it or its closing was posted
  before; and a wake-up closes every connection posted before.\<close>

theorem silent_connections_closed:
  assumes "loop_reach w" "list_all ev_ok evs" "fits evs w"
  shows "\<exists>w1 w'. loop_poll evs w = Inr w1 \<and> loop_turn evs w = Some (Inr w') \<and> attached w' = attached w1 \<and> clock w' = clock w1 \<and>
    (attached w \<noteq> {} \<and> clock w + 1000 \<le> clock w1 \<longrightarrow>
       (\<forall>c \<in> attached w1. silent_since w1 c + idle_limit w1 c \<le> clock w1 div 1000 \<longrightarrow> c \<in> set (items (ltasks w')))) \<and>
    (\<forall>c \<in> set (items (ltasks w')). c \<in> set (items (ltasks w)) \<or> silent_since w1 c + idle_limit w1 c \<le> clock w1 div 1000) \<and>
    (\<forall>c \<in> attached w - attached w'. PeerClosed c \<in> set evs \<or> WakeUp \<in> set evs \<and> c \<in> set (items (ltasks w))) \<and>
    (WakeUp \<in> set evs \<longrightarrow> set (items (ltasks w)) \<inter> attached w' = {})"
proof -
  have ok: "loop_ok w" using loop_reach_ok [OF assms(1)] .
  obtain w' w1 ps where t: "loop_turn evs w = Some (Inr w')" "moved evs w w1" "same_conns w1 w'" "items (ltasks w') = items (ltasks w1) @ ps"
      "set ps \<subseteq> overdue w1" "(\<exists>k. ticks w k) \<and> clock w + 1000 \<le> clock w1 \<longrightarrow> overdue w1 \<subseteq> set ps" "loop_poll evs w = Inr w1"
    using loop_turn_ok [OF ok assms(2,3)] by blast
  have s: "attached w' = attached w1" "clock w' = clock w1" using t(3) by (simp_all add: same_conns_def)
  have "\<exists>k. ticks w k" if "attached w \<noteq> {}" using that ok by (simp add: loop_ok_def timers_fine_def)
  then have "attached w \<noteq> {} \<and> clock w + 1000 \<le> clock w1 \<longrightarrow>
      (\<forall>c \<in> attached w1. silent_since w1 c + idle_limit w1 c \<le> clock w1 div 1000 \<longrightarrow> c \<in> set (items (ltasks w')))"
    using t(4,6) by (auto simp: overdue_def)
  moreover have "\<forall>c \<in> set (items (ltasks w')). c \<in> set (items (ltasks w)) \<or> silent_since w1 c + idle_limit w1 c \<le> clock w1 div 1000"
    using t(2,4,5) by (auto simp: moved_def overdue_def split: if_splits)
  ultimately show ?thesis using t(1,2,7) s by (intro exI [of _ w1] exI [of _ w']) (simp add: moved_def)
qed

text \<open>A connection with an idle time of two seconds, accepted at time 0.\<close>

definition demo_polled :: lworld where
  "demo_polled = (case loop_do (Accept 2) (lworld_new 0) of Inl _ \<Rightarrow> lworld_new 0 | Inr w \<Rightarrow> w)"

lemma demo_polled_fields:
  "loop_poll [Accept 2] (lworld_new 0) = Inr demo_polled" "clock demo_polled = 0" "timerSeq demo_polled = 2"
  "timers demo_polled = [((1000, 2), Repeat (- 1000, 1))]" "attached demo_polled = {0}" "backlog 0 demo_polled = 0"
  "backlog 3000 demo_polled = 2001" "silent_since demo_polled 0 = 0" "idle_limit demo_polled 0 = 2"
  by (simp_all add: demo_polled_def lworld_new_def iworld_new_def iworld.defs events.defs events_new_def addIdleCB_def registerIdle_def
      mindex_def runAfter_def runAt_def refreshNearest_def mput_def Let_def backlog_def)

lemma demo_turn: "loop_turn [Accept 2] (lworld_new 0) = Some (Inr (refreshNearest demo_polled))"
proof -
  have "timeouts_loop loop_run (0, 2 ^ 62) demo_polled = Some (Inr demo_polled)"
    by (subst timeouts_loop.simps) (simp add: demo_polled_fields)
  then show ?thesis by (simp add: loop_turn_def ev_loop_once_def handleTimeouts_def demo_polled_fields del: loop_poll.simps)
qed

theorem silent_connections_closed_witness:
  "\<exists>w'. loop_turn [Elapse 3000] (refreshNearest demo_polled) = Some (Inr w') \<and> 0 \<in> attached w' \<and> 0 \<in> set (items (ltasks w'))"
proof -
  have "fits [Accept 2] (lworld_new 0)" by (simp add: fits_def demo_polled_fields del: loop_poll.simps)
  then have r: "loop_reach (refreshNearest demo_polled)"
    using loop_reach.turn [OF loop_reach.start _ _ demo_turn] by simp
  have f: "fits [Elapse 3000] (refreshNearest demo_polled)"
    using demo_polled_fields by (simp add: fits_def backlog_def)
  have p: "loop_poll [Elapse 3000] (refreshNearest demo_polled) = Inr ((refreshNearest demo_polled)\<lparr>clock := 3000\<rparr>)"
      "attached (refreshNearest demo_polled) = {0}" "clock (refreshNearest demo_polled) = 0"
      "silent_since (refreshNearest demo_polled) 0 = 0" "idle_limit (refreshNearest demo_polled) 0 = 2"
    using demo_polled_fields by (simp_all add: refreshNearest_def)
  show ?thesis using silent_connections_closed [OF r _ f] p by (auto simp del: loop_poll.simps)
qed

declare split_paired_All [simp] split_paired_Ex [simp]

end
