(* ===== verification/HttpServing.thy ===== *)
theory HttpServing
  imports HttpConn Servers
begin

text \<open>
  \<open>HttpServer\<close> (\<open>http.h\<close>, \<open>http.cc\<close>) on top of \<open>TcpServer\<close>: its constructor registers with \<open>onConnCreate\<close> a callback that
  makes a connection of the class \<open>setConnType\<close> chose and hangs \<open>HttpConnPtr::handleRead\<close> on it. Followed here from the accepted
  descriptor to the answers on the wire, over the read events of \<open>Conn\<close> with the handshake of the first.
\<close>

section \<open>The server\<close>

text \<open>What is registered, in order: a method, a path and the answer made from the request.\<close>

type_synonym http_answer = "http_request \<Rightarrow> http_response \<Rightarrow> http_response"

record http_server = tcp_server +
  hs_cbs :: routes
  hs_defcb :: http_callback

text \<open>A class derived from \<open>TcpConn\<close> differs in its system calls, which are parameters of every connection here.\<close>

definition http_server_new :: "multibase \<Rightarrow> http_server" where
  "http_server_new mb = tcp_server.extend (onConnCreate HttpCb (server_new mb)) \<lparr>hs_cbs = [], hs_defcb = default_cb\<rparr>"

definition http_register :: "string \<Rightarrow> string \<Rightarrow> http_callback \<Rightarrow> http_server \<Rightarrow> http_server" where
  "http_register meth path cb s = s\<lparr>hs_cbs := onRequest meth path cb (hs_cbs s)\<rparr>"

definition onDefault :: "http_callback \<Rightarrow> http_server \<Rightarrow> http_server" where
  "onDefault cb s = s\<lparr>hs_defcb := cb\<rparr>"

text \<open>The context of a new connection, and the connection itself with what \<open>write\<close> will answer.\<close>

definition request_new :: http_request where
  "request_new = req_clear \<lparr>headers = [], version = [], body = [], body2 = [], completed = False, contentLen = 0, scanned = 0,
     args = [], rmethod = [], uri = [], query_uri = []\<rparr>"

definition response_new :: http_response where
  "response_new = resp_clear \<lparr>headers = [], version = [], body = [], body2 = [], completed = False, contentLen = 0, scanned = 0,
     statusWord = [], status = 0\<rparr>"

definition http_conn_of :: "wres list \<Rightarrow> conn \<Rightarrow> http_conn" where
  "http_conn_of ws c = conn.extend (c\<lparr>wkernel := ws\<rparr>) (http_conn.fields request_new response_new False 0)"

text \<open>The read callback looks the request up in the server's tables at the time it is complete.\<close>

definition http_on_read :: "http_server \<Rightarrow> http_callback" where
  "http_on_read s = http_server_read (hs_cbs s) (hs_defcb s)"

text \<open>Read events one after the other, each with the pieces \<open>read\<close> returns before \<open>EAGAIN\<close>; no state callback is set.\<close>

fun http_events :: "http_server \<Rightarrow> string list list \<Rightarrow> http_callback" where
  "http_events s [] c = Inr c"
| "http_events s (chunks # evs) c =
     rbind (handleRead (http_on_read s) Inr False True (c\<lparr>rkernel := map Got chunks\<rparr>)) (http_events s evs)"

section \<open>Which answer\<close>

definition with_answers :: "(string \<times> string \<times> http_answer) list \<Rightarrow> http_server \<Rightarrow> http_server" where
  "with_answers regs s = fold (\<lambda>(m, p, f). http_register m p (reply f)) regs s"

definition not_found :: http_answer where
  "not_found q r = r\<lparr>status := 404, statusWord := ''Not Found'', body := ''Not Found''\<rparr>"

definition answer_of :: "(string \<times> string \<times> http_answer) list \<Rightarrow> http_answer" where
  "answer_of regs q = (case find (\<lambda>(m, p, f). m = rmethod q \<and> p = uri q) (rev regs) of Some (m, p, f) \<Rightarrow> f q | None \<Rightarrow> not_found q)"

lemma default_answer: "default_cb = reply not_found"
  by (simp add: fun_eq_iff default_cb_def reply_def not_found_def)

lemma dispatch_onRequest:
  assumes "routes_ok cbs"
  shows "http_dispatch (onRequest meth path cb cbs) defcb c =
    (if rmethod (hreq c) = meth \<and> uri (hreq c) = path then cb c else http_dispatch cbs defcb c)"
proof -
  have "mok (case map_of cbs meth of None \<Rightarrow> [] | Some us \<Rightarrow> us)" "mok cbs"
    using assms by (auto simp: routes_ok_def ran_def split: option.split)
  then show ?thesis by (auto simp: http_dispatch_def onRequest_def split: option.splits)
qed

lemma onRequest_ok:
  assumes "routes_ok cbs"
  shows "routes_ok (onRequest meth path cb cbs)"
proof -
  have "mok (case map_of cbs meth of None \<Rightarrow> [] | Some us \<Rightarrow> us)" "mok cbs"
    using assms by (auto simp: routes_ok_def ran_def split: option.split)
  then show ?thesis using assms by (auto simp: routes_ok_def onRequest_def ran_def split: if_splits)
qed

lemma dispatch_answers:
  assumes "hs_cbs s = []" "hs_defcb s = default_cb"
  shows "hs_defcb (with_answers regs s) = default_cb \<and> routes_ok (hs_cbs (with_answers regs s)) \<and>
    http_dispatch (hs_cbs (with_answers regs s)) default_cb c = reply (answer_of regs) c"
proof (induction regs arbitrary: c rule: rev_induct)
  case Nil
  then show ?case using assms by (simp add: with_answers_def routes_ok_def http_dispatch_def answer_of_def default_answer)
next
  case (snoc reg regs)
  obtain m p f where "reg = (m, p, f)" by (cases reg)
  then have w: "with_answers (regs @ [reg]) s = http_register m p (reply f) (with_answers regs s)" by (simp add: with_answers_def)
  have "reply (answer_of (regs @ [reg])) c = (if rmethod (hreq c) = m \<and> uri (hreq c) = p then reply f c else reply (answer_of regs) c)"
    using \<open>reg = (m, p, f)\<close> by (auto simp: reply_def answer_of_def)
  then show ?case using snoc [of c] onRequest_ok [of "hs_cbs (with_answers regs s)"] dispatch_onRequest [of "hs_cbs (with_answers regs s)"]
    by (simp add: w http_register_def)
qed

section \<open>Events\<close>

text \<open>A connection between two requests.\<close>

definition http_idle :: "http_conn \<Rightarrow> bool" where
  "http_idle c \<longleftrightarrow> \<not> isClient c \<and> out_ok c \<and> buffer_ok (inb c) \<and> bytes (inb c) = [] \<and> 0 < bexp (inb c) \<and> hreq c = request_new \<and>
     \<not> body2_freed c \<and> tstate c = Connected \<and> fd_open c \<and> has_cbs c"

text \<open>The pieces of an event, all of them non-empty.\<close>

definition event_ok :: "string list \<Rightarrow> bool" where
  "event_ok chunks \<longleftrightarrow> chunks \<noteq> [] \<and> [] \<notin> set chunks"

lemma event_bytes: "event_ok chunks \<Longrightarrow> concat chunks \<noteq> []"
  by (cases chunks) (auto simp: event_ok_def)

lemma decode_input_exp: "decode_input dec m inp = Inr (r, m', inp') \<Longrightarrow> bexp inp' = bexp inp"
  by (auto simp: decode_input_def poke_def split: option.splits if_splits)

lemma rbind_Inr [simp]: "rbind r Inr = r"
  by (cases r) simp_all

lemma no_events [simp]: "http_events s [] = Inr"
  by (rule ext) simp

lemma http_events_app: "http_events s (e1 @ e2) c = rbind (http_events s e1 c) (http_events s e2)"
proof (induction e1 arbitrary: c)
  case (Cons ev e1)
  show ?case by (cases "handleRead (http_on_read s) Inr False True (c\<lparr>rkernel := map Got ev\<rparr>)") (simp_all add: Cons)
qed simp

lemma upd_order: "c\<lparr>rkernel := k, hreq := m, inb := b\<rparr> = c\<lparr>hreq := m, inb := b, rkernel := k\<rparr>" for c :: http_conn
  by (cases c) simp

lemma http_events_feed:
  assumes "feed req_tryDecode (map concat evs) (bytes (inb c)) (hreq c) = Inr (replicate (length evs - 1) NotComplete @ [Complete], m')"
    and "buffer_ok (inb c)" "0 < bexp (inb c)" "\<not> isClient c" "tstate c = Connected" "fd_open c" "has_cbs c" "evs \<noteq> []" "\<forall>ev \<in> set evs. event_ok ev"
  shows "\<exists>inp. http_events s evs c = http_dispatch (hs_cbs s) (hs_defcb s) (c\<lparr>hreq := m', inb := inp, rkernel := []\<rparr>) \<and> buffer_ok inp \<and>
    length (bytes inp) = length (bytes (inb c)) + length (concat (map concat evs)) \<and> bexp inp = bexp (inb c)"
  using assms
proof (induction evs arbitrary: c)
  case (Cons ev evs)
  let ?c = "c\<lparr>rkernel := map Got ev\<rparr>" and ?cb = "http_dispatch (hs_cbs s) (hs_defcb s)"
  have ev: "\<forall>d \<in> set ev. d \<noteq> []" "concat ev \<noteq> []" using Cons.prems(9) event_bytes by (auto simp: event_ok_def)
  obtain inp where inp: "buffer_ok inp" "bytes inp = bytes (inb c) @ concat ev" "bexp inp = bexp (inb c)"
      "handleRead (http_on_read s) Inr False True ?c = http_on_read s (c\<lparr>inb := inp, rkernel := []\<rparr>)"
    using handleRead_collects [of ?c ev "http_on_read s" Inr False True] Cons.prems ev by (auto simp: fd_open_def)
  obtain r m1 mem rs where d: "req_tryDecode (bytes inp) True (hreq c) = Inr (r, m1, mem)"
      "feed req_tryDecode (map concat evs) mem m1 = Inr (rs, m')" "r # rs = replicate (length evs) NotComplete @ [Complete]"
    using Cons.prems(1) inp(2) by auto
  obtain inp' where i: "decode_input req_tryDecode (hreq c) inp = Inr (r, m1, inp')" "buffer_ok inp'" "bytes inp' = mem"
    using decode_input_ok [of inp req_tryDecode, OF inp(1) d(1) decode_line_block(1) [OF d(1)]] by blast
  have len: "length mem = length (bytes (inb c)) + length (concat ev)" using decode_line_block(1) [OF d(1)] inp(2) by simp
  have cl: "isClient (c\<lparr>inb := inp, rkernel := []\<rparr>) = isClient c" by (simp add: isClient_def)
  let ?c1 = "c\<lparr>hreq := m1, inb := inp', rkernel := []\<rparr>"
  have step: "http_on_read s (c\<lparr>inb := inp, rkernel := []\<rparr>) = (if r = Complete then ?cb ?c1 else Inr ?c1)" if "r = Complete \<or> r = NotComplete"
    using that i(1) Cons.prems(4) cl by (auto simp: http_on_read_def http_server_read_def http_handleRead_def upd_order)
  show ?case
  proof (cases evs)
    case Nil
    then have "r = Complete" "m1 = m'" using d(2,3) by simp_all
    then show ?thesis using Nil inp(3,4) step i(2,3) len decode_input_exp [OF i(1)] by auto
  next
    case (Cons ev' evs')
    then have r: "r = NotComplete" "rs = replicate (length evs - 1) NotComplete @ [Complete]" using d(3) by simp_all
    have e: "http_events s (ev # evs) c = http_events s evs ?c1" using r(1) inp(4) step by simp
    have "\<exists>inp. http_events s evs ?c1 = ?cb (?c1\<lparr>hreq := m', inb := inp, rkernel := []\<rparr>) \<and> buffer_ok inp \<and>
        length (bytes inp) = length (bytes (inb ?c1)) + length (concat (map concat evs)) \<and> bexp inp = bexp (inb ?c1)"
      by (rule Cons.IH) (use d(2) r(2) i(2,3) Cons.prems Cons inp(3) decode_input_exp [OF i(1)] in \<open>auto simp: isClient_def fd_open_def\<close>)
    then show ?thesis unfolding e using len i(3) inp(3) decode_input_exp [OF i(1)] by auto
  qed
qed simp

section \<open>Requests and answers\<close>

text \<open>What arrives is what was sent.\<close>

definition received :: "http_request \<Rightarrow> http_request \<Rightarrow> bool" where
  "received rq q \<longleftrightarrow> rmethod q = rmethod rq \<and> query_uri q = query_uri rq \<and> uri q = uri_of (query_uri rq) \<and> args q = args_of (query_uri rq) [] \<and>
     getBody q = getBody rq \<and> map_of (headers q) = map_of (lowered (sent_headers rq))"

definition request_text :: "http_request \<Rightarrow> string" where
  "request_text rq = (case req_encode rq buf_new of Inl _ \<Rightarrow> [] | Inr (n, out) \<Rightarrow> bytes out)"

text \<open>A request with the read events it arrives in.\<close>

definition arrives :: "http_request \<times> string list list \<Rightarrow> bool" where
  "arrives r \<longleftrightarrow> req_ok (fst r) \<and> int (length (request_text (fst r))) < 2 ^ 31 \<and> concat (map concat (snd r)) = request_text (fst r) \<and>
     snd r \<noteq> [] \<and> list_all event_ok (snd r)"

text \<open>The answers on the wire: the response of a connection is not cleared between requests.\<close>

fun answers :: "(string \<times> string \<times> http_answer) list \<Rightarrow> http_request list \<Rightarrow> http_response \<Rightarrow> string" where
  "answers regs [] r = []"
| "answers regs (q # qs) r = (let r' = answer_of regs q r in resp_wire r' @ answers regs qs r')"

lemma isend_frame: "isend data c = Inr (n, c') \<Longrightarrow> has_cbs c' = has_cbs c \<and> inb c' = inb c"
  by (auto simp: isend_def Let_def split: option.splits if_splits prod.splits)

lemma sendResponse_frame:
  assumes "sendResponse c = Inr c'"
  shows "has_cbs c' = has_cbs c \<and> fd_open c' = fd_open c \<and> bexp (inb c') = bexp (inb c)"
proof -
  obtain n out c1 where r: "clearData (c\<lparr>outb := out\<rparr>) = Inr c1" "sendOutput c1 = Inr c'"
    using assms by (auto simp: sendResponse_def split: if_splits)
  have "has_cbs c1 = has_cbs c \<and> fd_open c1 = fd_open c \<and> bexp (inb c1) = bexp (inb c)"
    using r(1) by (auto simp: clearData_def consume_message_def consume_def bclear_def fd_open_def Let_def split: if_splits)
  moreover have "has_cbs c' = has_cbs c1 \<and> inb c' = inb c1"
    using r(2) by (auto simp: sendOutput_def chan_want_write_def dest!: isend_frame split: if_splits)
  ultimately show ?thesis using sends_use_up(1) [OF r(2)] by (simp add: uses_up_def)
qed

lemma one_request:
  assumes "arrives (rq, evs)" "http_idle c" "s = with_answers regs s0" "hs_cbs s0 = []" "hs_defcb s0 = default_cb"
  shows "\<exists>q c'. http_events s evs c = Inr c' \<and> received rq q \<and> stream c' = stream c @ resp_wire (answer_of regs q (hresp c)) \<and>
    hresp c' = answer_of regs q (hresp c) \<and> http_idle c'"
proof -
  note a = assms(1) [unfolded arrives_def fst_conv snd_conv] and h = assms(2) [unfolded http_idle_def]
  obtain n out where out: "req_encode rq buf_new = Inr (n, out)" "int n = int (length (bytes out))" "request_text rq = bytes out"
    using req_encode_text [of rq] a by (auto simp: request_text_def)
  have cs: "concat (map concat evs) = bytes out" "map concat evs \<noteq> []" "last (map concat evs) \<noteq> []"
    using a out(3) event_bytes [of "last evs"] by (auto simp: list_all_iff last_map)
  obtain q where f: "feed req_tryDecode (map concat evs) [] (req_clear request_new) = Inr (replicate (length evs - 1) NotComplete @ [Complete], q)"
    and q: "received rq q" "scanned q = int n"
    using request_arrives [OF _ out(1) cs, of request_new] a by (auto simp: received_def)
  have "hreq c = req_clear request_new" using h clear_same(1) by (simp add: request_new_def)
  then obtain inp where inp: "http_events s evs c = http_dispatch (hs_cbs s) (hs_defcb s) (c\<lparr>hreq := q, inb := inp, rkernel := []\<rparr>)" "buffer_ok inp"
      "length (bytes inp) = length (concat (map concat evs))" "bexp inp = bexp (inb c)"
    using http_events_feed [of evs c q s] f h a by (auto simp: list_all_iff)
  let ?c = "c\<lparr>hreq := q, inb := inp, rkernel := [], hresp := answer_of regs q (hresp c)\<rparr>"
  have "http_events s evs c = sendResponse ?c"
    using inp(1) dispatch_answers [OF assms(4,5), of regs] assms(3) by (simp add: reply_def)
  moreover obtain c' where c': "sendResponse ?c = Inr c'" "stream c' = stream ?c @ resp_wire (hresp ?c)" "out_ok c'" "buffer_ok (inb c')"
      "bytes (inb c') = []" "hreq c' = req_clear q" "hresp c' = hresp ?c" "same_life ?c c'" "\<not> body2_freed c'"
    using sendResponse_ok [of ?c] h inp(2,3) cs(1) out(2,3) q(2) a by (auto simp: conn_defs)
  moreover have "http_idle c'"
    using c' sendResponse_frame [OF c'(1)] h inp(4) clear_same(1) [of q] by (simp add: http_idle_def request_new_def conn_defs fd_open_def)
  ultimately show ?thesis using q(1) by (intro exI [of _ q] exI [of _ c']) (simp add: stream_def)
qed

lemma all_requests:
  assumes "s = with_answers regs s0" "hs_cbs s0 = []" "hs_defcb s0 = default_cb"
  shows "list_all arrives rs \<Longrightarrow> http_idle c \<Longrightarrow>
    \<exists>qs c'. http_events s (concat (map snd rs)) c = Inr c' \<and> list_all2 received (map fst rs) qs \<and>
      stream c' = stream c @ answers regs qs (hresp c) \<and> http_idle c'"
proof (induction rs arbitrary: c)
  case Nil
  then show ?case by simp
next
  case (Cons r rs)
  obtain rq evs where r: "r = (rq, evs)" by (cases r)
  obtain q c1 where c1: "http_events s evs c = Inr c1" "received rq q" "stream c1 = stream c @ resp_wire (answer_of regs q (hresp c))"
      "hresp c1 = answer_of regs q (hresp c)" "http_idle c1"
    using one_request [of rq evs c s regs s0] Cons.prems assms r by auto
  obtain qs c' where "http_events s (concat (map snd rs)) c1 = Inr c'" "list_all2 received (map fst rs) qs"
      "stream c' = stream c1 @ answers regs qs (hresp c1)" "http_idle c'"
    using Cons.IH [OF _ c1(5)] Cons.prems by auto
  then show ?case using c1 r by (intro exI [of _ "q # qs"] exI [of _ c']) (simp add: http_events_app Let_def)
qed

section \<open>From the accepted descriptor on\<close>

lemma first_event:
  assumes "tstate c = Handshaking" "chan c = Some ch" "has_cbs c"
  shows "http_events s (ev # evs) c = http_events s (ev # evs) (c\<lparr>chan := Some (enableReadWrite True False ch), tstate := Connected\<rparr>)"
proof -
  have u: "c\<lparr>rkernel := k, chan := x, tstate := t\<rparr> = c\<lparr>chan := x, tstate := t, rkernel := k\<rparr>" for k x t by (cases c) simp
  show ?thesis using assms by (simp add: handleRead_def handleHandshake_def u)
qed

lemma bexp_new: "bexp buf_new = 512"
  by (simp add: buf_new_def)

lemma fresh_http:
  assumes "0 \<le> fd"
  shows "http_idle ((http_conn_of ws (fresh_conn fd))\<lparr>chan := Some (enableReadWrite True False (new_channel fd (kWriteEvent OR kReadEvent))), tstate := Connected\<rparr>)"
    "stream (http_conn_of ws (fresh_conn fd)) = []" "hresp (http_conn_of ws (fresh_conn fd)) = response_new"
    "tstate (http_conn_of ws (fresh_conn fd)) = Handshaking" "has_cbs (http_conn_of ws (fresh_conn fd))"
    "chan (http_conn_of ws (fresh_conn fd)) = Some (new_channel fd (kWriteEvent OR kReadEvent))"
  using assms bexp_new
  by (simp_all add: http_idle_def http_conn_of_def fresh_conn_def conn_new_def conn.defs http_conn.defs conn_defs fd_open_def)

section \<open>Properties\<close>


definition demo_regs :: "(string \<times> string \<times> http_answer) list" where
  "demo_regs = [(''GET'', ''/a'', \<lambda>q r. r\<lparr>body := query_uri q\<rparr>)]"

definition demo_http :: http_server where
  "demo_http = http_server_new \<lparr>base_id = 0, n_bases = 1\<rparr>"

lemma with_answers_tcp: "tcp_server.truncate (with_answers regs s) = tcp_server.truncate s"
  by (induction regs arbitrary: s) (auto simp: with_answers_def http_register_def tcp_server.defs split: prod.splits)

lemma truncate_ok:
  assumes "tcp_server.truncate s = tcp_server.truncate s'"
  shows "server_ok s = server_ok s'" "createcb s = createcb s'"
  using assms by (cases s; cases s'; simp add: tcp_server.defs server_ok_def handlers_ok_def)+

lemma demo_http_ok: "server_ok demo_http" "createcb demo_http = HttpCb" "hs_cbs demo_http = []" "hs_defcb demo_http = default_cb"
  by (simp_all add: demo_http_def http_server_new_def server_new_def onConnCreate_def allocBase_def tcp_server.defs server_ok_def handlers_ok_def
      sq_open_def sq_new_def)


text \<open>An HTTP server must not be given a read or message callback of its own: the first accepted connection violates the
  assertion of \<open>TcpConn::onRead\<close>.\<close>

theorem http_server_own_read:
  assumes "createcb s = HttpCb" "onConnRead s = Inr s' \<or> onConnMsg s = Inr s'"
  shows "addcon b fd s' = Inl Fatal"
  using assms by (auto simp: onConnRead_def onConnMsg_def addcon_def handlers_ok_def attach_def conn_new_def split: if_splits)

end
