(* ===== verification/EventBases.thy ===== *)
theory EventBases
  imports LN_Prelude
begin

text \<open>
  The life of an event base and of the channels on it, with their descriptors: \<open>EventBase\<close>, \<open>EventsImp\<close>, \<open>Channel\<close> and
  \<open>PollerEpoll\<close> from constructor to destructor (\<open>event_base.cc\<close>, \<open>poller.cc\<close>), and what the owners of channels do when a channel
  is closed under them (\<open>conn.cc\<close>, \<open>udp.cc\<close>, \<open>udp.h\<close>). Channel objects are found under their address; the poller
  destroys them in the order of addresses. The kernel hands out descriptors that are not in use, the allocator free addresses.
\<close>

section \<open>State\<close>

text \<open>What the read callback of a channel does once the descriptor is gone: the wake-up callback and \<open>TcpConn::cleanup\<close> delete the
  channel, the callbacks of \<open>TcpServer\<close> and \<open>UdpServer\<close> return, and that of \<open>UdpConn\<close> calls \<open>UdpConn::close\<close>, which does nothing
  when its \<open>channel_\<close> (the flag) is already \<open>NULL\<close>.\<close>

datatype chan_owner = WakeChan | TcpChan | ServerChan | UdpChan bool

record chan_obj =
  co_fd :: int
  co_owner :: chan_owner

record ebworld =
  fds :: "int set"                     \<comment> \<open>open descriptors\<close>
  cloexec :: "int set"
  objs :: "nat \<Rightarrow> chan_obj option"
  live :: "nat set"                    \<comment> \<open>\<open>liveChannels_\<close>\<close>
  deletions :: "nat list"              \<comment> \<open>tasks \<open>delete p\<close> posted by \<open>UdpConn::close\<close>\<close>

record ebase =
  poll_fd :: int
  wake_r :: int                        \<comment> \<open>\<open>wakeupFds_\<close>\<close>
  wake_w :: int

section \<open>Channels\<close>

definition sys_close :: "int \<Rightarrow> ebworld \<Rightarrow> ebworld res" where
  "sys_close fd w = (if fd \<in> fds w then Inr (w\<lparr>fds := fds w - {fd}\<rparr>) else Inl BadClose)"

definition channel_new :: "nat \<Rightarrow> int \<Rightarrow> chan_owner \<Rightarrow> ebworld \<Rightarrow> ebworld" where
  "channel_new p fd k w = w\<lparr>objs := (objs w)(p \<mapsto> \<lparr>co_fd = fd, co_owner = k\<rparr>), live := insert p (live w)\<rparr>"

text \<open>A write to the pipe needs both ends; without the reading end it is refused, which is fatal.\<close>

definition pipe_write :: "ebase \<Rightarrow> ebworld \<Rightarrow> ebworld res" where
  "pipe_write b w = (if wake_w b \<in> fds w \<and> wake_r b \<in> fds w then Inr w else Inl Fatal)"

definition post_deletion :: "ebase \<Rightarrow> nat \<Rightarrow> ebworld \<Rightarrow> ebworld res" where
  "post_deletion b p w = pipe_write b (w\<lparr>deletions := deletions w @ [p]\<rparr>)"

text \<open>\<open>UdpConn::close\<close>.\<close>

definition udp_conn_close :: "ebase \<Rightarrow> nat \<Rightarrow> ebworld \<Rightarrow> ebworld res" where
  "udp_conn_close b p w =
     (case objs w p of None \<Rightarrow> Inl UseAfterFree
      | Some ch \<Rightarrow> post_deletion b p (w\<lparr>objs := (objs w)(p \<mapsto> ch\<lparr>co_owner := UdpChan False\<rparr>)\<rparr>))"

text \<open>\<open>~Channel\<close> of a channel without descriptor: \<open>close\<close> returns at once.\<close>

definition free_closed :: "nat \<Rightarrow> ebworld \<Rightarrow> ebworld" where
  "free_closed p w = w\<lparr>objs := (objs w)(p := None)\<rparr>"

fun on_closed :: "ebase \<Rightarrow> chan_owner \<Rightarrow> nat \<Rightarrow> ebworld \<Rightarrow> ebworld res" where
  "on_closed b WakeChan p w = Inr (free_closed p w)"
| "on_closed b TcpChan p w = Inr (free_closed p w)"
| "on_closed b ServerChan p w = Inr w"
| "on_closed b (UdpChan True) p w = udp_conn_close b p w"
| "on_closed b (UdpChan False) p w = Inr w"

definition chan_close :: "ebase \<Rightarrow> nat \<Rightarrow> ebworld \<Rightarrow> ebworld res" where
  "chan_close b p w =
     (case objs w p of None \<Rightarrow> Inl UseAfterFree
      | Some ch \<Rightarrow>
          if co_fd ch < 0 then Inr w
          else rbind (sys_close (co_fd ch) (w\<lparr>live := live w - {p}\<rparr>)) (\<lambda>w1.
            on_closed b (co_owner ch) p (w1\<lparr>objs := (objs w1)(p \<mapsto> ch\<lparr>co_fd := -1\<rparr>)\<rparr>)))"

definition chan_delete :: "ebase \<Rightarrow> nat \<Rightarrow> ebworld \<Rightarrow> ebworld res" where
  "chan_delete b p w = rbind (chan_close b p w) (\<lambda>w'. Inr (free_closed p w'))"

section \<open>The base\<close>

text \<open>The constructors: \<open>epoll_create1\<close> and \<open>pipe\<close> answer descriptors, or a negative one on failure, which is fatal; \<open>addFdFlag\<close> on
  descriptors just made does not fail. \<open>p\<close> is the address of the wake-up channel.\<close>

definition base_new :: "int \<Rightarrow> int \<Rightarrow> int \<Rightarrow> nat \<Rightarrow> ebworld \<Rightarrow> (ebase \<times> ebworld) res" where
  "base_new efd rfd wfd p w =
     (if efd < 0 then Inl Fatal
      else if rfd < 0 \<or> wfd < 0 then Inl Fatal
      else Inr (\<lparr>poll_fd = efd, wake_r = rfd, wake_w = wfd\<rparr>,
        channel_new p rfd WakeChan (w\<lparr>fds := fds w \<union> {efd, rfd, wfd}, cloexec := cloexec w \<union> {efd, rfd, wfd}\<rparr>)))"

partial_function (option) close_live :: "ebase \<Rightarrow> ebworld \<Rightarrow> ebworld res option" where
  "close_live b w =
     (if live w = {} then Some (Inr w)
      else (case chan_close b (Min (live w)) w of Inl e \<Rightarrow> Some (Inl e) | Inr w' \<Rightarrow> close_live b w'))"

text \<open>\<open>~EventsImp\<close>: the poller, then the writing end of the pipe.\<close>

definition poller_delete :: "ebase \<Rightarrow> ebworld \<Rightarrow> ebworld res option" where
  "poller_delete b w = map_option (\<lambda>r. rbind r (sys_close (poll_fd b))) (close_live b w)"

definition base_delete :: "ebase \<Rightarrow> ebworld \<Rightarrow> ebworld res option" where
  "base_delete b w = map_option (\<lambda>r. rbind r (sys_close (wake_w b))) (poller_delete b w)"

section \<open>Life between\<close>

datatype life_op = OpenChan nat int chan_owner | CloseChan nat | UdpClose nat | DeleteServer nat | RunDeletions

fun run_deletions :: "ebase \<Rightarrow> nat list \<Rightarrow> ebworld \<Rightarrow> ebworld res" where
  "run_deletions b [] w = Inr w"
| "run_deletions b (p # ps) w = rbind (chan_delete b p w) (run_deletions b ps)"

definition owned_by :: "chan_owner \<Rightarrow> nat \<Rightarrow> ebworld \<Rightarrow> bool" where
  "owned_by k p w \<longleftrightarrow> map_option co_owner (objs w p) = Some k"

text \<open>A channel is made on a fresh descriptor at a free address; a connection is closed by its peer or its user, a server is
  destroyed by its owner, the loop runs the posted tasks. Operations on channels that are not there do not occur.\<close>

fun life_do :: "ebase \<Rightarrow> life_op \<Rightarrow> ebworld \<Rightarrow> ebworld res" where
  "life_do b (OpenChan p fd k) w =
     Inr (if 0 \<le> fd \<and> fd \<notin> fds w \<and> objs w p = None \<and> k \<in> {TcpChan, ServerChan, UdpChan True}
          then channel_new p fd k (w\<lparr>fds := insert fd (fds w)\<rparr>) else w)"
| "life_do b (CloseChan p) w = (if owned_by TcpChan p w then chan_close b p w else Inr w)"
| "life_do b (UdpClose p) w = (if owned_by (UdpChan True) p w then udp_conn_close b p w else Inr w)"
| "life_do b (DeleteServer p) w = (if owned_by ServerChan p w then chan_delete b p w else Inr w)"
| "life_do b RunDeletions w = run_deletions b (deletions w) (w\<lparr>deletions := []\<rparr>)"

fun life_run :: "ebase \<Rightarrow> life_op list \<Rightarrow> ebworld \<Rightarrow> ebworld res" where
  "life_run b [] w = Inr w"
| "life_run b (x # xs) w = rbind (life_do b x w) (life_run b xs)"

section \<open>The ledger of descriptors\<close>

definition fd_of :: "ebworld \<Rightarrow> nat \<Rightarrow> int" where
  "fd_of w p = (case objs w p of None \<Rightarrow> -1 | Some ch \<Rightarrow> co_fd ch)"

text \<open>\<open>F\<close> are the descriptors of the rest of the process. Every live channel has one of its own, the base has two, and no channel
  outside the poller has one; posted deletions name closed-by-user UDP channels, each once.\<close>

definition eb_ok :: "int set \<Rightarrow> ebase \<Rightarrow> ebworld \<Rightarrow> bool" where
  "eb_ok F b w \<longleftrightarrow> finite (live w) \<and> (\<forall>p. p \<in> live w \<longleftrightarrow> 0 \<le> fd_of w p) \<and> inj_on (fd_of w) (live w) \<and>
     fds w = F \<union> {poll_fd b, wake_w b} \<union> fd_of w ` live w \<and> fd_of w ` live w \<inter> (F \<union> {poll_fd b, wake_w b}) = {} \<and>
     {poll_fd b, wake_w b} \<inter> F = {} \<and> poll_fd b \<noteq> wake_w b \<and>
     distinct (deletions w) \<and> (\<forall>p \<in> set (deletions w). owned_by (UdpChan False) p w)"

definition wake_ok :: "ebase \<Rightarrow> nat \<Rightarrow> ebworld \<Rightarrow> bool" where
  "wake_ok b p w \<longleftrightarrow> objs w p = Some \<lparr>co_fd = wake_r b, co_owner = WakeChan\<rparr> \<and> 0 \<le> wake_r b"

lemma owned_byE: "owned_by k p w \<Longrightarrow> (\<And>ch. objs w p = Some ch \<Longrightarrow> co_owner ch = k \<Longrightarrow> P) \<Longrightarrow> P"
  by (auto simp: owned_by_def)

lemma live_obj: "eb_ok F b w \<Longrightarrow> p \<in> live w \<Longrightarrow> \<exists>ch. objs w p = Some ch \<and> 0 \<le> co_fd ch"
  by (auto simp: eb_ok_def fd_of_def split: option.splits)

text \<open>A channel loses its descriptor; \<open>o\<close> is what is left of the object.\<close>

lemma drop_live:
  assumes ok: "eb_ok F b w" and p: "p \<in> live w"
    and obj: "obj = None \<and> p \<notin> set (deletions w) \<or> (\<exists>ch. objs w p = Some ch \<and> obj = Some (ch\<lparr>co_fd := -1\<rparr>))"
  shows "eb_ok F b (w\<lparr>live := live w - {p}, fds := fds w - {fd_of w p}, objs := (objs w)(p := obj)\<rparr>)" 
proof -
  define w' where "w' = w\<lparr>live := live w - {p}, fds := fds w - {fd_of w p}, objs := (objs w)(p := obj)\<rparr>"
  have w': "live w' = live w - {p}" "fds w' = fds w - {fd_of w p}" "deletions w' = deletions w" by (simp_all add: w'_def)
  have fd: "fd_of w' q = (if q = p then -1 else fd_of w q)" for q using obj by (auto simp: fd_of_def w'_def)
  note o = ok [unfolded eb_ok_def]
  have inj: "inj_on (fd_of w) (live w)" using o by blast
  have "fd_of w' ` live w' = fd_of w ` (live w - {p})" by (rule image_cong) (simp_all add: w' fd)
  also have "\<dots> = fd_of w ` live w - {fd_of w p}" using inj_on_image_set_diff [OF inj, of "live w" "{p}"] p by simp
  finally have im: "fd_of w' ` live w' = fd_of w ` live w - {fd_of w p}" .
  have "finite (live w')" "\<forall>q. q \<in> live w' \<longleftrightarrow> 0 \<le> fd_of w' q" using o by (simp_all add: fd w')
  moreover have "inj_on (fd_of w') (live w')" using inj by (auto simp: fd w' inj_on_def)
  moreover have fw: "fds w = F \<union> {poll_fd b, wake_w b} \<union> fd_of w ` live w" and dis: "fd_of w ` live w \<inter> (F \<union> {poll_fd b, wake_w b}) = {}"
    and del: "\<forall>q \<in> set (deletions w). owned_by (UdpChan False) q w" using o by simp_all
  have "fd_of w p \<notin> F \<union> {poll_fd b, wake_w b}" using imageI [OF p, of "fd_of w"] dis by blast
  then have "fds w' = F \<union> {poll_fd b, wake_w b} \<union> fd_of w' ` live w'" unfolding im w'(2) fw by blast
  moreover have "fd_of w' ` live w' \<inter> (F \<union> {poll_fd b, wake_w b}) = {}" unfolding im using dis by blast
  moreover have "\<forall>q \<in> set (deletions w'). owned_by (UdpChan False) q w'" using del obj by (auto simp: owned_by_def w'_def)
  ultimately have "eb_ok F b w'" using o by (simp add: eb_ok_def w')
  then show ?thesis by (simp add: w'_def)
qed

lemma chan_close_ok:
  assumes ok: "eb_ok F b w" and p: "p \<in> live w" and own: "\<not> owned_by (UdpChan True) p w"
  shows "\<exists>w' obj. chan_close b p w = Inr w' \<and> eb_ok F b w' \<and> live w' = live w - {p} \<and> objs w' = (objs w)(p := obj) \<and>
    deletions w' = deletions w \<and> cloexec w' = cloexec w \<and> (obj = None \<or> owned_by ServerChan p w \<or> owned_by (UdpChan False) p w)"
proof -
  obtain ch where ch: "objs w p = Some ch" "0 \<le> co_fd ch" using live_obj [OF ok p] by blast
  then have "fd_of w p = co_fd ch" by (simp add: fd_of_def)
  then have fd: "fd_of w p = co_fd ch" "co_fd ch \<in> fds w" using ok imageI [OF p, of "fd_of w"] by (simp_all add: eb_ok_def)
  let ?w = "\<lambda>obj. w\<lparr>live := live w - {p}, fds := fds w - {co_fd ch}, objs := (objs w)(p := obj)\<rparr>"
  have free: "free_closed p (?w (Some (ch\<lparr>co_fd := -1\<rparr>))) = ?w None" by (simp add: free_closed_def)
  have c: "chan_close b p w = on_closed b (co_owner ch) p (?w (Some (ch\<lparr>co_fd := -1\<rparr>)))"
    using ch fd(2) by (simp add: chan_close_def sys_close_def)
  have del: "co_owner ch = UdpChan False" if "p \<in> set (deletions w)" using that ok ch by (auto simp: eb_ok_def owned_by_def)
  show ?thesis
  proof (cases "co_owner ch = WakeChan \<or> co_owner ch = TcpChan")
    case True
    then have "chan_close b p w = Inr (?w None)" using c free by auto
    moreover have "p \<notin> set (deletions w)" using del True by auto
    ultimately show ?thesis using drop_live [OF ok p, of None] fd by (intro exI [of _ "?w None"] exI [of _ None]) simp
  next
    case False
    then have k: "co_owner ch = ServerChan \<or> co_owner ch = UdpChan False" using own ch by (cases "co_owner ch") (auto simp: owned_by_def)
    then have "chan_close b p w = Inr (?w (Some (ch\<lparr>co_fd := -1\<rparr>)))" using c by auto
    then show ?thesis using drop_live [OF ok p, of "Some (ch\<lparr>co_fd := -1\<rparr>)"] fd ch k
      by (intro exI [of _ "?w (Some (ch\<lparr>co_fd := -1\<rparr>))"] exI [of _ "Some (ch\<lparr>co_fd := -1\<rparr>)"]) (auto simp: owned_by_def)
  qed
qed

lemma free_closed_ok:
  assumes "eb_ok F b w" "p \<notin> live w" "p \<notin> set (deletions w)"
  shows "eb_ok F b (free_closed p w)"
proof -
  have "fd_of w p < 0" using assms(1,2) by (auto simp: eb_ok_def not_le [symmetric])
  then have "fd_of (free_closed p w) q = (if q = p then -1 else fd_of w q)" for q by (simp add: fd_of_def free_closed_def)
  moreover have "live (free_closed p w) = live w" "fds (free_closed p w) = fds w" "deletions (free_closed p w) = deletions w"
    by (simp_all add: free_closed_def)
  moreover have "\<forall>q \<in> set (deletions w). owned_by (UdpChan False) q (free_closed p w)"
    using assms(1,3) by (auto simp: eb_ok_def owned_by_def free_closed_def)
  moreover have "inj_on (fd_of (free_closed p w)) (live w) = inj_on (fd_of w) (live w)"
    by (rule inj_on_cong) (use assms(2) calculation(1) in auto)
  moreover have "fd_of (free_closed p w) ` live w = fd_of w ` live w" using assms(2) calculation(1) by (intro image_cong) auto
  ultimately show ?thesis using assms(1,2) by (simp add: eb_ok_def)
qed

lemma chan_delete_ok:
  assumes ok: "eb_ok F b w" and own: "owned_by ServerChan p w \<or> owned_by (UdpChan False) p w" "p \<notin> set (deletions w)"
  shows "\<exists>w'. chan_delete b p w = Inr w' \<and> eb_ok F b w' \<and> objs w' = (objs w)(p := None) \<and> deletions w' = deletions w \<and> live w' = live w - {p} \<and> cloexec w' = cloexec w"
proof (cases "p \<in> live w")
  case True
  have "\<not> owned_by (UdpChan True) p w" using own(1) by (auto simp: owned_by_def)
  then obtain w1 obj where w1: "chan_close b p w = Inr w1" "eb_ok F b w1" "live w1 = live w - {p}" "objs w1 = (objs w)(p := obj)"
      "deletions w1 = deletions w" "cloexec w1 = cloexec w"
    using chan_close_ok [OF ok True] by blast
  then have "eb_ok F b (free_closed p w1)" using free_closed_ok own(2) by simp
  then show ?thesis using w1 by (intro exI [of _ "free_closed p w1"]) (simp add: chan_delete_def free_closed_def)
next
  case False
  obtain ch where ch: "objs w p = Some ch" using own(1) by (auto simp: owned_by_def)
  then have "co_fd ch < 0" using ok False by (auto simp: eb_ok_def fd_of_def split: option.splits)
  then have "chan_delete b p w = Inr (free_closed p w)" using ch by (simp add: chan_delete_def chan_close_def)
  then show ?thesis using free_closed_ok [OF ok False own(2)] False by (simp add: free_closed_def)
qed

section \<open>Operations keep it\<close>

lemma wake_live:
  assumes "eb_ok F b w" "wake_ok b q w"
  shows "q \<in> live w" "wake_r b \<in> fds w" "wake_w b \<in> fds w"
proof -
  have fd: "fd_of w q = wake_r b" "0 \<le> wake_r b" using assms(2) by (simp_all add: wake_ok_def fd_of_def)
  then show q: "q \<in> live w" using assms(1) by (simp add: eb_ok_def)
  show "wake_r b \<in> fds w" "wake_w b \<in> fds w" using assms(1) imageI [OF q, of "fd_of w"] fd by (simp_all add: eb_ok_def)
qed

lemma udp_conn_close_ok:
  assumes ok: "eb_ok F b w" and own: "owned_by (UdpChan True) p w" and pipe: "wake_r b \<in> fds w" "wake_w b \<in> fds w"
  shows "\<exists>w' ch. udp_conn_close b p w = Inr w' \<and> eb_ok F b w' \<and> objs w' = (objs w)(p \<mapsto> ch) \<and> live w' = live w \<and> fds w' = fds w \<and> cloexec w' = cloexec w"
proof -
  obtain ch where ch: "objs w p = Some ch" "co_owner ch = UdpChan True" using own by (auto simp: owned_by_def)
  define w' where "w' = w\<lparr>objs := (objs w)(p \<mapsto> ch\<lparr>co_owner := UdpChan False\<rparr>), deletions := deletions w @ [p]\<rparr>"
  have w': "live w' = live w" "fds w' = fds w" "deletions w' = deletions w @ [p]" by (simp_all add: w'_def)
  have u: "udp_conn_close b p w = Inr w'" using ch pipe by (simp add: udp_conn_close_def post_deletion_def pipe_write_def w'_def)
  have fd: "fd_of w' = fd_of w" using ch by (auto simp: fun_eq_iff fd_of_def w'_def)
  have del: "\<forall>q \<in> set (deletions w). owned_by (UdpChan False) q w" "distinct (deletions w)" using ok by (simp_all add: eb_ok_def)
  then have "p \<notin> set (deletions w)" using ch by (auto simp: owned_by_def)
  moreover have "\<forall>q \<in> set (deletions w'). owned_by (UdpChan False) q w'" using del(1) by (auto simp: owned_by_def w'_def)
  ultimately have "eb_ok F b w'" using ok del(2) by (simp add: eb_ok_def fd w')
  then show ?thesis using u w' by (intro exI [of _ w'] exI [of _ "ch\<lparr>co_owner := UdpChan False\<rparr>"]) (simp add: w'_def)
qed

lemma open_ok:
  assumes ok: "eb_ok F b w" and new: "0 \<le> fd" "fd \<notin> fds w" "objs w p = None"
  shows "eb_ok F b (channel_new p fd k (w\<lparr>fds := insert fd (fds w)\<rparr>))"
proof -
  define w' where "w' = channel_new p fd k (w\<lparr>fds := insert fd (fds w)\<rparr>)"
  have w': "live w' = insert p (live w)" "fds w' = insert fd (fds w)" "deletions w' = deletions w" by (simp_all add: w'_def channel_new_def)
  have fd: "fd_of w' q = (if q = p then fd else fd_of w q)" for q by (simp add: fd_of_def w'_def channel_new_def)
  note o = ok [unfolded eb_ok_def]
  have "fd_of w p = -1" using new(3) by (simp add: fd_of_def)
  then have p: "p \<notin> live w" using o by simp
  have im: "fd_of w' ` live w' = insert fd (fd_of w ` live w)" unfolding w'(1) image_insert using p by (auto simp: fd)
  have fw: "fds w = F \<union> {poll_fd b, wake_w b} \<union> fd_of w ` live w" "fd_of w ` live w \<inter> (F \<union> {poll_fd b, wake_w b}) = {}"
    "\<forall>q \<in> set (deletions w). owned_by (UdpChan False) q w" "inj_on (fd_of w) (live w)" using o by simp_all
  have "fd \<notin> fd_of w ` live w" using new(2) fw(1) by blast
  then have "inj_on (fd_of w') (live w')" using fw(4) p unfolding inj_on_def w' by (auto simp: fd)
  moreover have "finite (live w')" "\<forall>q. q \<in> live w' \<longleftrightarrow> 0 \<le> fd_of w' q" using o new(1) by (simp_all add: fd w')
  moreover have "fds w' = F \<union> {poll_fd b, wake_w b} \<union> fd_of w' ` live w'" unfolding im w'(2) using fw(1) by blast
  moreover have "fd_of w' ` live w' \<inter> (F \<union> {poll_fd b, wake_w b}) = {}" unfolding im using fw(1,2) new(2) by blast
  moreover have "\<forall>q \<in> set (deletions w'). owned_by (UdpChan False) q w'"
    using fw(3) new(3) by (auto simp: owned_by_def w'_def channel_new_def)
  ultimately have "eb_ok F b w'" using o by (simp add: eb_ok_def w')
  then show ?thesis by (simp add: w'_def)
qed

lemma run_deletions_ok:
  "eb_ok F b w \<Longrightarrow> distinct ps \<Longrightarrow> deletions w = [] \<Longrightarrow> \<forall>p \<in> set ps. owned_by (UdpChan False) p w \<Longrightarrow> wake_ok b q w \<Longrightarrow>
   \<exists>w'. run_deletions b ps w = Inr w' \<and> eb_ok F b w' \<and> wake_ok b q w' \<and> cloexec w' = cloexec w"
proof (induction ps arbitrary: w)
  case (Cons p ps)
  obtain w1 where w1: "chan_delete b p w = Inr w1" "eb_ok F b w1" "objs w1 = (objs w)(p := None)" "deletions w1 = deletions w" "cloexec w1 = cloexec w"
    using chan_delete_ok [OF Cons.prems(1), of p] Cons.prems(3,4) by auto
  have "\<forall>x \<in> set ps. owned_by (UdpChan False) x w1" using Cons.prems(2,4) w1(3) by (auto simp: owned_by_def)
  moreover have "p \<noteq> q" using Cons.prems(4,5) by (auto simp: owned_by_def wake_ok_def)
  then have "wake_ok b q w1" using Cons.prems(5) w1(3) by (simp add: wake_ok_def)
  ultimately show ?case using Cons.IH [OF w1(2)] Cons.prems(2,3) w1(1,4,5) by auto
qed simp

lemma life_do_ok:
  assumes ok: "eb_ok F b w" and wake: "wake_ok b q w"
  shows "\<exists>w'. life_do b x w = Inr w' \<and> eb_ok F b w' \<and> wake_ok b q w' \<and> cloexec w' = cloexec w"
proof (cases x)
  case (OpenChan p fd k)
  have "p \<noteq> q" if "objs w p = None" using that wake by (auto simp: wake_ok_def)
  then show ?thesis using OpenChan ok wake open_ok [OF ok, of fd p k] by (auto simp: wake_ok_def channel_new_def)
next
  case (CloseChan p)
  show ?thesis
  proof (cases "owned_by TcpChan p w \<and> p \<in> live w")
    case True
    then have ne: "p \<noteq> q" "\<not> owned_by (UdpChan True) p w" using wake by (auto simp: owned_by_def wake_ok_def)
    from chan_close_ok [OF ok _ ne(2)] True obtain w' obj where "chan_close b p w = Inr w'" "eb_ok F b w'" "objs w' = (objs w)(p := obj)" "cloexec w' = cloexec w"
      by blast
    then show ?thesis using CloseChan True ne(1) wake by (auto simp: wake_ok_def)
  next
    case False
    then have "life_do b x w = Inr w" using CloseChan ok by (auto simp: owned_by_def chan_close_def eb_ok_def fd_of_def split: option.splits)
    then show ?thesis using ok wake by simp
  qed
next
  case (UdpClose p)
  show ?thesis
  proof (cases "owned_by (UdpChan True) p w")
    case True
    then have ne: "p \<noteq> q" using wake by (auto simp: owned_by_def wake_ok_def)
    then show ?thesis using udp_conn_close_ok [OF ok True wake_live(2,3) [OF ok wake]] UdpClose True wake by (auto simp: wake_ok_def)
  qed (use UdpClose ok wake in auto)
next
  case (DeleteServer p)
  show ?thesis
  proof (cases "owned_by ServerChan p w")
    case True
    then have ne: "p \<noteq> q" "p \<notin> set (deletions w)" using wake ok by (auto simp: owned_by_def wake_ok_def eb_ok_def)
    then show ?thesis using chan_delete_ok [OF ok _ ne(2)] DeleteServer True wake by (auto simp: wake_ok_def)
  qed (use DeleteServer ok wake in auto)
next
  case RunDeletions
  have "fd_of (w\<lparr>deletions := []\<rparr>) = fd_of w" by (simp add: fun_eq_iff fd_of_def)
  then have "eb_ok F b (w\<lparr>deletions := []\<rparr>)" using ok by (simp add: eb_ok_def)
  then show ?thesis
    using run_deletions_ok [of F b "w\<lparr>deletions := []\<rparr>" "deletions w" q] ok wake RunDeletions by (simp add: eb_ok_def owned_by_def wake_ok_def)
qed

lemma life_run_ok:
  "eb_ok F b w \<Longrightarrow> wake_ok b q w \<Longrightarrow> \<exists>w'. life_run b xs w = Inr w' \<and> eb_ok F b w' \<and> wake_ok b q w' \<and> cloexec w' = cloexec w"
proof (induction xs arbitrary: w)
  case (Cons x xs)
  then show ?case using life_do_ok [OF Cons.prems, of x] by fastforce
qed simp

section \<open>Construction and destruction\<close>

text \<open>A process that has the descriptors \<open>F\<close> and no event base.\<close>

definition no_base :: "int set \<Rightarrow> ebworld" where
  "no_base F = \<lparr>fds = F, cloexec = {}, objs = (\<lambda>_. None), live = {}, deletions = []\<rparr>"

lemma base_new_ok:
  assumes "0 \<le> efd" "0 \<le> rfd" "0 \<le> wfd" "distinct [efd, rfd, wfd]" "{efd, rfd, wfd} \<inter> F = {}"
  shows "\<exists>b w. base_new efd rfd wfd q (no_base F) = Inr (b, w) \<and> eb_ok F b w \<and> wake_ok b q w \<and> cloexec w = {efd, rfd, wfd} \<and>
    poll_fd b = efd \<and> wake_r b = rfd \<and> wake_w b = wfd"
proof -
  define w where "w = channel_new q rfd WakeChan ((no_base F)\<lparr>fds := fds (no_base F) \<union> {efd, rfd, wfd}, cloexec := cloexec (no_base F) \<union> {efd, rfd, wfd}\<rparr>)"
  have "fd_of w p = (if p = q then rfd else -1)" for p by (simp add: fd_of_def w_def channel_new_def no_base_def)
  then have "eb_ok F \<lparr>poll_fd = efd, wake_r = rfd, wake_w = wfd\<rparr> w"
    using assms by (auto simp: eb_ok_def w_def channel_new_def no_base_def)
  moreover have "wake_ok \<lparr>poll_fd = efd, wake_r = rfd, wake_w = wfd\<rparr> q w" using assms(2) by (simp add: wake_ok_def w_def channel_new_def)
  ultimately show ?thesis using assms(1-3) by (auto simp: base_new_def w_def channel_new_def no_base_def)
qed

lemma close_live_ok:
  "eb_ok F b w \<Longrightarrow> \<forall>p \<in> live w. \<not> owned_by (UdpChan True) p w \<Longrightarrow>
   \<exists>w'. close_live b w = Some (Inr w') \<and> eb_ok F b w' \<and> live w' = {} \<and>
     (\<forall>p. objs w' p = None \<or> (p \<notin> live w \<and> objs w' p = objs w p) \<or> owned_by ServerChan p w \<or> owned_by (UdpChan False) p w)"
proof (induction "card (live w)" arbitrary: w rule: less_induct)
  case less
  show ?case
  proof (cases "live w = {}")
    case True
    then show ?thesis using less.prems(1) by (subst close_live.simps) auto
  next
    case False
    let ?p = "Min (live w)"
    have fin: "finite (live w)" using less.prems(1) by (simp add: eb_ok_def)
    have p: "?p \<in> live w" using False fin by simp
    have "\<not> owned_by (UdpChan True) ?p w" using less.prems(2) p by blast
    from chan_close_ok [OF less.prems(1) p this] obtain w1 obj where w1: "chan_close b ?p w = Inr w1" "eb_ok F b w1" "live w1 = live w - {?p}"
        "objs w1 = (objs w)(?p := obj)" "obj = None \<or> owned_by ServerChan ?p w \<or> owned_by (UdpChan False) ?p w"
      by blast
    have card: "card (live w1) < card (live w)" using w1(3) p fin by (metis card_Diff1_less)
    have same: "owned_by k x w1 = owned_by k x w" if "x \<noteq> ?p" for k x using that w1(4) by (simp add: owned_by_def)
    have "\<forall>x \<in> live w1. \<not> owned_by (UdpChan True) x w1" using w1(3) less.prems(2) same by auto
    from less.hyps [OF card w1(2) this] obtain w' where w': "close_live b w1 = Some (Inr w')" "eb_ok F b w'" "live w' = {}"
        "\<forall>x. objs w' x = None \<or> (x \<notin> live w1 \<and> objs w' x = objs w1 x) \<or> owned_by ServerChan x w1 \<or> owned_by (UdpChan False) x w1"
      by blast
    have "objs w' x = None \<or> (x \<notin> live w \<and> objs w' x = objs w x) \<or> owned_by ServerChan x w \<or> owned_by (UdpChan False) x w" for x
    proof (cases "x = ?p")
      case True
      have "owned_by ServerChan ?p w \<or> owned_by (UdpChan False) ?p w" if "obj \<noteq> None" using that w1(5) by blast
      moreover have "\<not> owned_by k ?p w1" if "obj = None" for k using that w1(4) by (simp add: owned_by_def)
      moreover have "objs w1 ?p = obj" using w1(4) by simp
      ultimately show ?thesis using spec [OF w'(4), of ?p] True by (cases "obj = None") auto
    next
      case False
      then show ?thesis using spec [OF w'(4), of x] same w1(3,4) by auto
    qed
    moreover have "close_live b w = Some (Inr w')" using False w1(1) w'(1) by (subst close_live.simps) simp
    ultimately show ?thesis using w'(2,3) by blast
  qed
qed

section \<open>Properties\<close>

text \<open>C16. From the constructor of an event base to its destructor, whatever channels are opened and closed in
  between: no descriptor is closed twice and no deleted channel is used; the base's own descriptors are closed on exec; and if no
  \<open>UdpConn\<close> is open any more, destroying the base closes exactly the descriptors that were opened for it and its channels,
  deletes the wake-up channel and those of TCP connections, and leaves the channels of servers in a state in which their owners can
  delete them later.\<close>

theorem event_base_balanced:
  assumes "0 \<le> efd" "0 \<le> rfd" "0 \<le> wfd" "distinct [efd, rfd, wfd]" "{efd, rfd, wfd} \<inter> F = {}"
  shows "\<exists>b w w1. base_new efd rfd wfd q (no_base F) = Inr (b, w) \<and> life_run b xs w = Inr w1 \<and> {efd, rfd, wfd} \<subseteq> cloexec w1 \<and>
    ((\<forall>p \<in> live w1. \<not> owned_by (UdpChan True) p w1) \<longrightarrow>
     (\<exists>w2. base_delete b w1 = Some (Inr w2) \<and> fds w2 = F \<and> live w2 = {} \<and>
        (\<forall>p \<in> live w1. owned_by WakeChan p w1 \<or> owned_by TcpChan p w1 \<longrightarrow> objs w2 p = None) \<and>
        (\<forall>p. owned_by ServerChan p w2 \<longrightarrow> chan_delete b p w2 = Inr (free_closed p w2))))"
proof -
  obtain b w where w: "base_new efd rfd wfd q (no_base F) = Inr (b, w)" "eb_ok F b w" "wake_ok b q w" "cloexec w = {efd, rfd, wfd}"
    using base_new_ok [OF assms, of q] by blast
  obtain w1 where w1: "life_run b xs w = Inr w1" "eb_ok F b w1" "cloexec w1 = cloexec w" using life_run_ok [OF w(2,3), of xs] by blast
  have "\<exists>w2. base_delete b w1 = Some (Inr w2) \<and> fds w2 = F \<and> live w2 = {} \<and>
        (\<forall>p \<in> live w1. owned_by WakeChan p w1 \<or> owned_by TcpChan p w1 \<longrightarrow> objs w2 p = None) \<and>
        (\<forall>p. owned_by ServerChan p w2 \<longrightarrow> chan_delete b p w2 = Inr (free_closed p w2))"
    if no: "\<forall>p \<in> live w1. \<not> owned_by (UdpChan True) p w1"
  proof -
    obtain w2 where w2: "close_live b w1 = Some (Inr w2)" "eb_ok F b w2" "live w2 = {}"
        "\<forall>p. objs w2 p = None \<or> (p \<notin> live w1 \<and> objs w2 p = objs w1 p) \<or> owned_by ServerChan p w1 \<or> owned_by (UdpChan False) p w1"
      using close_live_ok [OF w1(2) no] by blast
    have f: "fds w2 = F \<union> {poll_fd b, wake_w b}" "{poll_fd b, wake_w b} \<inter> F = {}" "poll_fd b \<noteq> wake_w b" "\<forall>p. \<not> 0 \<le> fd_of w2 p"
      using w2(2,3) by (simp_all add: eb_ok_def)
    let ?w = "w2\<lparr>fds := fds w2 - {poll_fd b} - {wake_w b}\<rparr>"
    have "base_delete b w1 = Some (Inr ?w)" using w2(1) f by (simp add: base_delete_def poller_delete_def sys_close_def)
    moreover have "fds ?w = F" using f by auto
    moreover have "objs w2 p = None" if "p \<in> live w1" "owned_by WakeChan p w1 \<or> owned_by TcpChan p w1" for p
      using spec [OF w2(4), of p] that by (auto simp: owned_by_def)
    moreover have "chan_delete b p ?w = Inr (free_closed p ?w)" if own: "owned_by ServerChan p ?w" for p
    proof -
      obtain ch where ch: "objs w2 p = Some ch" using own by (auto simp: owned_by_def)
      then have "co_fd ch < 0" using spec [OF f(4), of p] by (simp add: fd_of_def)
      then show ?thesis using ch by (simp add: chan_delete_def chan_close_def)
    qed
    ultimately show ?thesis using w2(3) by (intro exI [of _ ?w]) auto
  qed
  then show ?thesis using w(1,4) w1(1,3) by auto
qed

theorem event_base_balanced_witness:
  "\<exists>b w w1 w2. base_new 3 4 5 1 (no_base {0, 1, 2}) = Inr (b, w) \<and>
    life_run b [OpenChan 7 6 ServerChan, OpenChan 9 8 TcpChan] w = Inr w1 \<and> live w1 = {1, 7, 9} \<and>
    base_delete b w1 = Some (Inr w2) \<and> fds w2 = {0, 1, 2} \<and> live w2 = {} \<and> objs w2 9 = None"
proof -
  let ?xs = "[OpenChan 7 6 ServerChan, OpenChan 9 8 TcpChan]"
  have h: "0 \<le> (3::int)" "0 \<le> (4::int)" "0 \<le> (5::int)" "distinct [3, 4, 5 :: int]" "{3, 4, 5} \<inter> {0, 1, 2 :: int} = {}" by simp_all
  obtain b w w1 where w: "base_new 3 4 5 1 (no_base {0, 1, 2}) = Inr (b, w)" "life_run b ?xs w = Inr w1"
    and d: "(\<forall>p \<in> live w1. \<not> owned_by (UdpChan True) p w1) \<longrightarrow> (\<exists>w2. base_delete b w1 = Some (Inr w2) \<and> fds w2 = {0, 1, 2} \<and> live w2 = {} \<and>
      (\<forall>p \<in> live w1. owned_by WakeChan p w1 \<or> owned_by TcpChan p w1 \<longrightarrow> objs w2 p = None))"
    using event_base_balanced [OF h, of 1 ?xs] by blast
  have w1: "live w1 = {1, 7, 9}" "objs w1 = [1 \<mapsto> \<lparr>co_fd = 4, co_owner = WakeChan\<rparr>, 7 \<mapsto> \<lparr>co_fd = 6, co_owner = ServerChan\<rparr>, 9 \<mapsto> \<lparr>co_fd = 8, co_owner = TcpChan\<rparr>]"
    using w by (auto simp: base_new_def no_base_def channel_new_def)
  then obtain w2 where "base_delete b w1 = Some (Inr w2)" "fds w2 = {0, 1, 2}" "live w2 = {}" "objs w2 9 = None"
    using d by (auto simp: owned_by_def)
  then show ?thesis using w w1(1) by blast
qed

text \<open>An \<open>UdpConn\<close> that is still open when its base goes: closing its channel makes the connection post a task to the base that is being
  destroyed; if the wake-up channel went first, the pipe has no reading end any more.\<close>

lemma udp_chan_close_fatal:
  assumes ok: "eb_ok F b w" and p: "p \<in> live w" "owned_by (UdpChan True) p w" and gone: "wake_r b \<notin> fds w"
  shows "chan_close b p w = Inl Fatal"
proof -
  obtain ch where ch: "objs w p = Some ch" "0 \<le> co_fd ch" "co_owner ch = UdpChan True"
    using live_obj [OF ok p(1)] p(2) by (auto simp: owned_by_def)
  then have "fd_of w p = co_fd ch" by (simp add: fd_of_def)
  then have "co_fd ch \<in> fds w" using ok imageI [OF p(1), of "fd_of w"] by (simp add: eb_ok_def)
  then show ?thesis using ch gone by (simp add: chan_close_def sys_close_def udp_conn_close_def post_deletion_def pipe_write_def)
qed

lemma wake_chan_close:
  assumes ok: "eb_ok F b w" and wake: "wake_ok b q w"
  shows "\<exists>w'. chan_close b q w = Inr w' \<and> eb_ok F b w' \<and> live w' = live w - {q} \<and> objs w' = (objs w)(q := None) \<and> wake_r b \<notin> fds w'"
proof -
  have q: "q \<in> live w" "fd_of w q = wake_r b" using wake_live(1) [OF ok wake] wake by (simp_all add: wake_ok_def fd_of_def)
  have "\<not> owned_by (UdpChan True) q w" using wake by (simp add: owned_by_def wake_ok_def)
  from chan_close_ok [OF ok q(1) this] obtain w' obj where w': "chan_close b q w = Inr w'" "eb_ok F b w'" "live w' = live w - {q}"
      "objs w' = (objs w)(q := obj)" "obj = None \<or> owned_by ServerChan q w \<or> owned_by (UdpChan False) q w"
    by blast
  have "obj = None" using w'(5) wake by (auto simp: owned_by_def wake_ok_def)
  moreover have "fds w' = fds w - {wake_r b}"
    using w'(1) wake wake_live(2) [OF ok wake] by (auto simp: chan_close_def wake_ok_def sys_close_def free_closed_def)
  ultimately show ?thesis using w' by auto
qed

text \<open>As long as the pipe is there, closing a channel under an \<open>UdpConn\<close> posts the deletion of the object.\<close>

lemma udp_chan_close_awake:
  assumes ok: "eb_ok F b w" and wake: "wake_ok b q w" and p: "p \<in> live w" "p \<noteq> q" "owned_by (UdpChan True) p w"
  shows "\<exists>w' ch. chan_close b p w = Inr w' \<and> eb_ok F b w' \<and> live w' = live w - {p} \<and> objs w' = (objs w)(p \<mapsto> ch)"
proof -
  obtain ch where ch: "objs w p = Some ch" "0 \<le> co_fd ch" "co_owner ch = UdpChan True"
    using live_obj [OF ok p(1)] p(3) by (auto simp: owned_by_def)
  have fd: "fd_of w p = co_fd ch" "fd_of w q = wake_r b" using ch wake by (simp_all add: fd_of_def wake_ok_def)
  have q: "q \<in> live w" "wake_r b \<in> fds w" "wake_w b \<in> fds w" using wake_live [OF ok wake] .
  have i: "inj_on (fd_of w) (live w)" "fd_of w ` live w \<inter> (F \<union> {poll_fd b, wake_w b}) = {}" using ok by (simp_all add: eb_ok_def)
  have ne: "wake_r b \<noteq> co_fd ch" using inj_on_eq_iff [OF i(1) q(1) p(1)] fd p(2) by auto
  have ne': "wake_w b \<noteq> co_fd ch" using i(2) imageI [OF p(1), of "fd_of w"] fd(1) by auto
  have "co_fd ch \<in> fds w" using ok imageI [OF p(1), of "fd_of w"] fd by (simp add: eb_ok_def)
  let ?w = "w\<lparr>live := live w - {p}, fds := fds w - {co_fd ch}, objs := (objs w)(p \<mapsto> ch\<lparr>co_fd := -1\<rparr>)\<rparr>"
  have c: "chan_close b p w = udp_conn_close b p ?w" using ch \<open>co_fd ch \<in> fds w\<close> by (simp add: chan_close_def sys_close_def)
  have "eb_ok F b ?w" using drop_live [OF ok p(1), of "Some (ch\<lparr>co_fd := -1\<rparr>)"] ch(1) fd(1) by simp
  from udp_conn_close_ok [OF this, of p] ch ne ne' q obtain w' ch' where "udp_conn_close b p ?w = Inr w'" "eb_ok F b w'" "objs w' = (objs ?w)(p \<mapsto> ch')" "live w' = live ?w"
    by (auto simp: owned_by_def)
  then show ?thesis using c by (intro exI [of _ w'] exI [of _ ch']) simp
qed

lemma chan_close_awake:
  assumes ok: "eb_ok F b w" and wake: "wake_ok b q w" and p: "p \<in> live w" "p \<noteq> q"
  shows "\<exists>w' obj. chan_close b p w = Inr w' \<and> eb_ok F b w' \<and> live w' = live w - {p} \<and> objs w' = (objs w)(p := obj)"
  using udp_chan_close_awake [OF assms] chan_close_ok [OF ok p(1)] by blast

text \<open>What a destruction in progress has to keep for the failure to come: the connection \<open>p\<close> is still to be closed, and the wake-up
  channel \<open>q\<close> is closed already or will be before it.\<close>

definition doomed :: "ebase \<Rightarrow> nat \<Rightarrow> nat \<Rightarrow> ebworld \<Rightarrow> bool" where
  "doomed b p q w \<longleftrightarrow> p \<in> live w \<and> owned_by (UdpChan True) p w \<and>
     (wake_ok b q w \<and> q < p \<or> q \<notin> live w \<and> wake_r b \<notin> fds w)"

lemma doomed_step:
  assumes ok: "eb_ok F b w" and d: "doomed b p q w"
  shows "chan_close b (Min (live w)) w = Inl Fatal \<or>
    (\<exists>w'. chan_close b (Min (live w)) w = Inr w' \<and> eb_ok F b w' \<and> live w' = live w - {Min (live w)} \<and> doomed b p q w')"
proof -
  let ?m = "Min (live w)"
  have fin: "finite (live w)" using ok by (simp add: eb_ok_def)
  have p: "p \<in> live w" "owned_by (UdpChan True) p w" using d by (simp_all add: doomed_def)
  have m: "?m \<in> live w" "?m \<le> p" using fin p(1) by (auto intro: Min_in)
  consider (gone) "q \<notin> live w" "wake_r b \<notin> fds w" | (wake) "wake_ok b q w" "q < p" using d by (auto simp: doomed_def)
  then show ?thesis
  proof cases
    case gone
    show ?thesis
    proof (cases "owned_by (UdpChan True) ?m w")
      case True
      then show ?thesis using udp_chan_close_fatal [OF ok m(1) True gone(2)] by simp
    next
      case False
      from chan_close_ok [OF ok m(1) False] obtain w' obj where w': "chan_close b ?m w = Inr w'" "eb_ok F b w'" "live w' = live w - {?m}"
          "objs w' = (objs w)(?m := obj)"
        by blast
      have ne: "p \<noteq> ?m" using False p(2) by auto
      have fs: "fds w = F \<union> {poll_fd b, wake_w b} \<union> fd_of w ` live w" "fds w' = F \<union> {poll_fd b, wake_w b} \<union> fd_of w' ` live w'"
        using ok w'(2) by (simp_all add: eb_ok_def)
      have "fd_of w' ` live w' \<subseteq> fd_of w ` live w" using w'(3,4) by (auto simp: fd_of_def)
      then have "wake_r b \<notin> fds w'" using gone(2) fs by blast
      then have "doomed b p q w'" using d w'(3,4) gone(1) p ne by (auto simp: doomed_def owned_by_def)
      then show ?thesis using w' by blast
    qed
  next
    case wake
    have q: "q \<in> live w" using wake_live(1) [OF ok wake(1)] .
    have mq: "?m \<le> q" using fin q by simp
    show ?thesis
    proof (cases "?m = q")
      case True
      from wake_chan_close [OF ok wake(1)] obtain w' where w': "chan_close b q w = Inr w'" "eb_ok F b w'" "live w' = live w - {q}"
          "objs w' = (objs w)(q := None)" "wake_r b \<notin> fds w'"
        by blast
      then have "doomed b p q w'" using d wake(2) p by (auto simp: doomed_def owned_by_def)
      then show ?thesis using w' unfolding True by blast
    next
      case False
      then have lt: "?m < q" using mq by simp
      from chan_close_awake [OF ok wake(1) m(1)] lt obtain w' obj where w': "chan_close b ?m w = Inr w'" "eb_ok F b w'"
          "live w' = live w - {?m}" "objs w' = (objs w)(?m := obj)"
        by blast
      then have "doomed b p q w'" using d wake lt p by (auto simp: doomed_def owned_by_def wake_ok_def)
      then show ?thesis using w' by blast
    qed
  qed
qed

lemma close_live_doomed: "eb_ok F b w \<Longrightarrow> doomed b p q w \<Longrightarrow> close_live b w = Some (Inl Fatal)"
proof (induction "card (live w)" arbitrary: w rule: less_induct)
  case less
  have fin: "finite (live w)" and ne: "live w \<noteq> {}" using less.prems by (auto simp: eb_ok_def doomed_def)
  have m: "Min (live w) \<in> live w" using fin ne by simp
  show ?case using doomed_step [OF less.prems]
  proof (elim disjE exE conjE)
    assume "chan_close b (Min (live w)) w = Inl Fatal"
    then show ?thesis using ne by (subst close_live.simps) simp
  next
    fix w' assume w': "chan_close b (Min (live w)) w = Inr w'" "eb_ok F b w'" "live w' = live w - {Min (live w)}" "doomed b p q w'"
    have "card (live w') < card (live w)" unfolding w'(3) by (rule card_Diff1_less [OF fin m])
    then have "close_live b w' = Some (Inl Fatal)" using less.hyps w'(2,4) by blast
    then show ?thesis using ne w'(1) by (subst close_live.simps) simp
  qed
qed

text \<open>C37. An event base is not destroyed cleanly under an open \<open>UdpConn\<close>: after any life of the base, if a
  connection is still open whose channel lies behind the wake-up channel in the order of addresses, the
  destructor of the base ends in the fatal error of writing to a pipe without a reader.\<close>

theorem udp_conn_outlives_base:
  assumes "0 \<le> efd" "0 \<le> rfd" "0 \<le> wfd" "distinct [efd, rfd, wfd]" "{efd, rfd, wfd} \<inter> F = {}"
    and "base_new efd rfd wfd q (no_base F) = Inr (b, w)" "life_run b xs w = Inr w1"
    and "p \<in> live w1" "owned_by (UdpChan True) p w1" "q < p"
  shows "base_delete b w1 = Some (Inl Fatal)"
proof -
  have "eb_ok F b w" "wake_ok b q w" using base_new_ok [OF assms(1-5), of q] assms(6) by auto
  then have ok: "eb_ok F b w1" "wake_ok b q w1" using life_run_ok [of F b w q xs] assms(7) by auto
  then have "doomed b p q w1" using assms(8-10) by (simp add: doomed_def)
  then show ?thesis using close_live_doomed [OF ok(1)] by (simp add: base_delete_def poller_delete_def)
qed

theorem udp_conn_outlives_base_witness:
  "\<exists>b w w1. base_new 3 4 5 1 (no_base {0, 1, 2}) = Inr (b, w) \<and> life_run b [OpenChan 11 10 (UdpChan True)] w = Inr w1 \<and>
    base_delete b w1 = Some (Inl Fatal)"
proof -
  obtain b w where w: "base_new 3 4 5 1 (no_base {0, 1, 2}) = Inr (b, w)" by (simp add: base_new_def)
  obtain w1 where w1: "life_run b [OpenChan 11 10 (UdpChan True)] w = Inr w1" by simp
  have "live w1 = {1, 11}" "objs w1 = [1 \<mapsto> \<lparr>co_fd = 4, co_owner = WakeChan\<rparr>, 11 \<mapsto> \<lparr>co_fd = 10, co_owner = UdpChan True\<rparr>]"
    using w w1 by (auto simp: base_new_def no_base_def channel_new_def)
  then have "base_delete b w1 = Some (Inl Fatal)"
    using udp_conn_outlives_base [OF _ _ _ _ _ w w1, of 11] by (simp add: owned_by_def)
  then show ?thesis using w w1 by blast
qed

end
