(* ===== verification/Holders.thy ===== *)
theory Holders
  imports Streams
begin

text \<open>
  Objects made on first use, and store tasks: \<open>AutoContext\<close>, the context of a connection (\<open>handy-imp.h\<close>); \<open>Singleton\<close>
  (\<open>Singleton.hpp\<close>); the constructor of \<open>StoreTask\<close> (\<open>StoreTask.h\<close>). The first two satisfy one contract: whatever is asked of
  the holder first makes the object, and every later request finds that one.
\<close>

section \<open>Objects made on first use\<close>

locale once =
  fixes get :: "'k \<Rightarrow> 's \<Rightarrow> ('p \<times> 's) res"
    and holds :: "'s \<Rightarrow> 'p \<Rightarrow> bool"
  assumes get_holds: "get k s = Inr (p, s') \<Longrightarrow> holds s' p"
    and holds_get: "holds s p \<Longrightarrow> get k s = Inr (p', s') \<Longrightarrow> p' = p \<and> s' = s"
begin

fun gets :: "'k list \<Rightarrow> 's \<Rightarrow> ('p list \<times> 's) res" where
  "gets [] s = Inr ([], s)"
| "gets (k # ks) s = rbind (get k s) (\<lambda>(p, s1). rbind (gets ks s1) (\<lambda>(ps, s2). Inr (p # ps, s2)))"

lemma gets_held: "holds s p \<Longrightarrow> gets ks s = Inr (ps, s') \<Longrightarrow> ps = replicate (length ks) p \<and> s' = s"
  by (induction ks arbitrary: s ps s') (auto dest: holds_get)

lemma gets_same: "gets (k # ks) s = Inr (ps, s') \<Longrightarrow> \<exists>p. get k s = Inr (p, s') \<and> ps = replicate (length (k # ks)) p"
  by (auto dest: get_holds gets_held)

end

section \<open>\<open>AutoContext\<close>\<close>

text \<open>The heap has the type of every live object (\<open>None\<close>: freed or never made); \<open>fresh\<close> is the address the allocator gives next.\<close>

record 't obj_heap =
  alive :: "nat \<Rightarrow> 't option"
  fresh :: nat

record 't auto_ctx =
  ctx :: "nat option"
  ctxDel :: "'t option"               \<comment> \<open>the type the closure deletes the object as\<close>

definition AutoContext :: "'t auto_ctx" where
  "AutoContext = \<lparr>ctx = None, ctxDel = None\<rparr>"

definition obj_as :: "'t \<Rightarrow> nat \<Rightarrow> 't obj_heap \<Rightarrow> nat res" where
  "obj_as t p h = (case alive h p of None \<Rightarrow> Inl UseAfterFree | Some t' \<Rightarrow> if t' = t then Inr p else Inl BadCast)"

definition context_of :: "'t \<Rightarrow> 't auto_ctx \<times> 't obj_heap \<Rightarrow> (nat \<times> ('t auto_ctx \<times> 't obj_heap)) res" where
  "context_of t = (\<lambda>(c, h).
     let (c', h') = (case ctx c of
           None \<Rightarrow> (\<lparr>ctx = Some (fresh h), ctxDel = Some t\<rparr>, \<lparr>alive = (alive h)(fresh h \<mapsto> t), fresh = Suc (fresh h)\<rparr>)
         | Some _ \<Rightarrow> (c, h))
     in rbind (obj_as t (the (ctx c')) h') (\<lambda>p. Inr (p, (c', h'))))"

text \<open>\<open>~AutoContext\<close>: calling an empty \<open>ctxDel\<close> does not occur, since it is set together with \<open>ctx\<close>.\<close>

definition auto_ctx_delete :: "'t auto_ctx \<times> 't obj_heap \<Rightarrow> 't obj_heap res" where
  "auto_ctx_delete = (\<lambda>(c, h).
     case ctx c of None \<Rightarrow> Inr h
     | Some p \<Rightarrow> (case ctxDel c of None \<Rightarrow> Inl NullDeref
         | Some t \<Rightarrow> rbind (obj_as t p h) (\<lambda>p. Inr (h\<lparr>alive := (alive h)(p := None)\<rparr>))))"

lemma context_of_holds: "context_of t s = Inr (p, s') \<Longrightarrow> ctx (fst s') = Some p"
  by (auto simp: context_of_def obj_as_def Let_def split: prod.splits option.splits if_splits)

interpretation ac: once context_of "\<lambda>s p. ctx (fst s) = Some p"
  by unfold_locales
    (auto simp: context_of_holds context_of_def obj_as_def Let_def split: prod.splits option.splits if_splits)

lemma context_of_first:
  "alive h (fresh h) = None \<Longrightarrow> context_of t (AutoContext, h) =
     Inr (fresh h, \<lparr>ctx = Some (fresh h), ctxDel = Some t\<rparr>, \<lparr>alive = (alive h)(fresh h \<mapsto> t), fresh = Suc (fresh h)\<rparr>)"
  by (simp add: context_of_def AutoContext_def obj_as_def)

lemma context_of_again:
  "ctx c = Some p \<Longrightarrow> alive h p = Some t \<Longrightarrow> context_of t (c, h) = Inr (p, (c, h))"
  by (simp add: context_of_def obj_as_def)

lemma gets_again:
  "ctx c = Some p \<Longrightarrow> alive h p = Some t \<Longrightarrow> ac.gets (replicate n t) (c, h) = Inr (replicate n p, (c, h))"
  by (induction n) (simp_all add: context_of_again)

text \<open>A context used as one type is made once, found by every later use, and freed once with its connection.\<close>

theorem context_balanced:
  assumes "alive h (fresh h) = None"
  shows "\<exists>s. ac.gets (replicate (Suc n) t) (AutoContext, h) = Inr (replicate (Suc n) (fresh h), s) \<and>
    rbind (auto_ctx_delete s) (\<lambda>h'. Inr (alive h')) = Inr (alive h)"
  using assms by (simp add: context_of_first gets_again auto_ctx_delete_def obj_as_def fun_upd_idem)

theorem context_other_type:
  assumes "alive h (fresh h) = None" "t \<noteq> u"
  shows "ac.gets [t, u] (AutoContext, h) = Inl BadCast"
  using assms by (simp add: context_of_first) (simp add: context_of_def obj_as_def)

section \<open>\<open>Singleton\<close>\<close>

text \<open>\<open>pInstance_\<close> with the arguments the object was made from; \<open>getInstance\<close> throws before that.\<close>

definition Instance :: "'a \<Rightarrow> 'a option \<Rightarrow> ('a \<times> 'a option) res" where
  "Instance args pInstance = (case pInstance of None \<Rightarrow> Inr (args, Some args) | Some x \<Rightarrow> Inr (x, Some x))"

datatype logic_error = NotInit

definition getInstance :: "'a option \<Rightarrow> logic_error + 'a" where
  "getInstance pInstance = (case pInstance of None \<Rightarrow> Inl NotInit | Some x \<Rightarrow> Inr x)"

interpretation sg: once Instance "\<lambda>s p. s = Some p"
  by unfold_locales (auto simp: Instance_def split: option.splits)

lemma sg_gets_total: "\<exists>r. sg.gets ks s = Inr r"
proof (induction ks arbitrary: s)
  case (Cons k ks)
  obtain p s' where "Instance k s = Inr (p, s')" by (cases s) (auto simp: Instance_def)
  then show ?case using Cons.IH [of s'] by auto
qed simp

theorem singleton_first_wins:
  "getInstance None = Inl NotInit \<and>
   (\<exists>s. sg.gets (a # as) None = Inr (replicate (length (a # as)) a, s) \<and> getInstance s = Inr a)"
proof -
  obtain ps s where r: "sg.gets (a # as) None = Inr (ps, s)" using sg_gets_total [of "a # as" None] by auto
  then obtain p where "Instance a None = Inr (p, s)" "ps = replicate (length (a # as)) p" using sg.gets_same [OF r] by auto
  then show ?thesis using r by (auto simp: Instance_def getInstance_def)
qed

section \<open>\<open>StoreTask\<close>\<close>

text \<open>The counter is an \<open>int64_t\<close>, the number of a task an \<open>uint64_t\<close>; \<open>sfd\<close> and \<open>streamSrc\<close> are not initialised. The
  constructor is private and has no friend: the code below is that of the constructor, which nothing can call.\<close>

record storetask =
  taskId :: "64 word"
  streamId_ :: string
  cameraIp_ :: string
  cameraPort_ :: string
  extraInfo_ :: string
  expiryDays_ :: "32 word"
  codeRate_ :: "32 word"
  frameRate_ :: "32 word"
  sfd :: "64 word option"
  streamSrc :: "32 word option"
  streamDestVec :: "32 word list"

definition StoreTask :: "plan \<Rightarrow> 64 word \<Rightarrow> storetask \<times> 64 word" where
  "StoreTask p next_id =
     (\<lparr>taskId = next_id, streamId_ = streamId p, cameraIp_ = cameraIp p, cameraPort_ = cameraPort p, extraInfo_ = extraInfo p,
       expiryDays_ = expiryDays p, codeRate_ = codeRate p, frameRate_ = frameRate p, sfd = None, streamSrc = None,
       streamDestVec = []\<rparr>, next_id + 1)"

fun store_tasks :: "plan list \<Rightarrow> 64 word \<Rightarrow> storetask list" where
  "store_tasks [] n = []"
| "store_tasks (p # ps) n = (let (t, n') = StoreTask p n in t # store_tasks ps n')"

lemma store_tasks_ids: "map taskId (store_tasks ps n) = map (\<lambda>i. n + of_nat i) [0..<length ps]"
proof (induction ps arbitrary: n)
  case (Cons p ps)
  have "map (\<lambda>i. n + of_nat i) [0..<length (p # ps)] = n # map (\<lambda>i. (n + 1) + of_nat i) [0..<length ps]"
    by (simp only: length_Cons upt_conv_Cons [OF zero_less_Suc] map_Suc_upt [symmetric] list.map map_map)
      (simp add: comp_def ac_simps)
  then show ?case using Cons.IH by (simp add: StoreTask_def)
qed simp

theorem store_task_ids_distinct:
  assumes "length ps \<le> 2 ^ 64"
  shows "distinct (map taskId (store_tasks ps n))"
proof -
  have "inj_on (\<lambda>i. n + of_nat i :: 64 word) {0..<length ps}"
    using assms by (auto simp: inj_on_def word_of_nat_eq_iff take_bit_nat_eq_self)
  then show ?thesis by (simp add: store_tasks_ids distinct_map)
qed

end
