(* ===== verification/Spec2Isabelle.thy ===== *)
theory Spec2Isabelle
  imports AdminLoop Conf Udp Logging Daemon StatServer Pollers CmdCodes Loops Statuses ConnLoop HttpServing EventBases Holders
begin

text \<open>
  \<^bold>\<open>Verification of the lazynet storage server and its network library.\<close>

  \<^bold>\<open>The program.\<close> A storage server (\<open>src/src/service\<close>) keeps a TCP connection to a management server,
  receives store plans over it, and records the camera streams whose plan is active. It runs on
  \<open>handy\<close> (\<open>src/src/common/handy\<close>), an event-driven network library. The parts and how they call each
  other, from the bottom up:

  \<^item> bytes: byte order, \<open>Slice\<close> (a range of foreign memory), \<open>Buffer\<close> (a growable byte queue);
  \<^item> an event loop: \<open>Channel\<close>, the epoll poller, task queues, timers, idle lists;
  \<^item> connections: \<open>TcpConn\<close> over a channel and two buffers, codecs that cut its input into messages,
    \<open>TcpServer\<close> and \<open>HSHA\<close> that accept connections, UDP, HTTP messages and the HTTP server;
  \<^item> the server: \<open>ExternalMsgCodec\<close> (framed protobuf messages), \<open>SessionService\<close> and \<open>StoreSession\<close> (a UDP
    session per stream, on the store thread), \<open>StreamMgr\<close> (plans and streams, on the admin thread),
    \<open>DSServer\<close> (wires them together);
  \<^item> around it: configuration files, the log, the daemon helpers and a statistics server over HTTP.

  \<^bold>\<open>The theories\<close> (paths without a directory are under \<open>src/src/common/handy\<close>):

  \<^item> \<open>LN_Prelude\<close>: undefined behaviour as error values (\<open>ub\<close>, \<open>res\<close>, \<open>rbind\<close>), \<open>std::map\<close> as an ordered
    association list behind the locale \<open>dict\<close> (interpretation \<open>smap\<close>), \<open>ctype.h\<close>, numbers in text, and the
    collections of definitions that the proofs unfold together.
  \<^item> \<open>Port\<close>: \<open>htobe\<close> (\<open>port_posix.h\<close>) against the byte representation of words.
  \<^item> \<open>Slice\<close>: \<open>slice.h\<close> over an explicit block, with \<open>contents\<close> as its meaning; each operation refines a
    function on lists (\<open>eatWord_spec\<close>, \<open>split_join\<close>, \<open>compare_lexicographic\<close>, \<dots>).
  \<^item> \<open>Buffer\<close>: \<open>Buffer\<close> of \<open>net.h\<close> and \<open>net.cc\<close>; the locale \<open>byte_queue\<close> is what clients rely on, its
    interpretation \<open>bq\<close> discharges it; \<open>buffer_refines_queue\<close> is the refinement for all operations.
  \<^item> \<open>Codec\<close>: \<open>codec.cc\<close> and the loop of \<open>TcpConn::onMsg\<close>; the locale \<open>codec\<close> proves once that framed
    messages survive any cut of the stream, and is interpreted for both codecs (\<open>line\<close>, \<open>lencodec\<close>).
  \<^item> \<open>Channel\<close>: \<open>Channel\<close> and \<open>PollerEpoll\<close>; callbacks only reach registered channels.
  \<^item> \<open>Conn\<close>: \<open>TcpConn\<close> (\<open>conn.h\<close>, \<open>conn.cc\<close>, \<open>event_base.cc\<close>): state record \<open>conn\<close>, one definition per method;
    the order of the output stream, delivery of input, and the life-cycle invariant for any user that
    keeps the locale \<open>conn_user\<close>; \<open>conn_step\<close> and \<open>conn_reach\<close> are its events and reachable states.
  \<^item> \<open>Tasks\<close>: \<open>SafeQueue\<close>, \<open>ThreadPool\<close> (step relation \<open>pool_step\<close>), \<open>safeCall\<close> and the draining of a loop's
    queue; locale \<open>task_queue\<close>, interpretation \<open>sq\<close>.
  \<^item> \<open>Timers\<close>: the timers, the loop and the idle lists of \<open>EventsImp\<close> (\<open>event_base.cc\<close>); the locale
    \<open>timer_client\<close> is the contract of a callback that leaves the timers alone.
  \<^item> \<open>Loops\<close>: \<open>safeCall\<close>, \<open>exit\<close> and \<open>wakeup\<close> from other threads against the stages of the loop (\<open>call_step\<close>,
    \<open>loop_step\<close>, reachable states \<open>wsys_reach\<close>), and \<open>MultiBase\<close>. \<open>Idles\<close>: the idle ids of connections over the idle lists.
  \<^item> \<open>ConnLoop\<close>: turns of a whole loop over \<open>Timers\<close>, \<open>Idles\<close> and \<open>Tasks\<close>: connections come, send, fall silent and go, user timers
    are set, posted tasks run (state \<open>lworld\<close>, events \<open>loop_event\<close>, one turn \<open>loop_turn\<close>, reachable states \<open>loop_reach\<close>).
  \<^item> \<open>EventBases\<close>: constructors and destructors of \<open>EventBase\<close>, the epoll poller and \<open>Channel\<close>, as a ledger of descriptors and of
    channel objects with the callbacks of their owners (\<open>eb_ok\<close> is the invariant). \<open>Holders\<close>: \<open>AutoContext\<close>
    (\<open>handy-imp.h\<close>) and \<open>Singleton\<close> as instances of the locale \<open>once\<close> (\<open>ac\<close>, \<open>sg\<close>), and the constructor of \<open>StoreTask\<close>.
  \<^item> \<open>NetAddr\<close>, \<open>Servers\<close>, \<open>Udp\<close>: \<open>Ip4Addr\<close>; \<open>TcpServer\<close>, \<open>MultiBase\<close> and \<open>HSHA\<close> (step relation
    \<open>hsha_step\<close>); \<open>UdpServer\<close>, \<open>UdpConn\<close> and \<open>HSHAU\<close>, which simulates \<open>HSHA\<close> (\<open>hshau_step_simulates\<close>).
  \<^item> \<open>Http\<close>, \<open>HttpConn\<close>: \<open>http.h\<close> and \<open>http.cc\<close>: messages and their incremental decoder, then connections,
    files and the dispatch of the server. The locale \<open>first_line\<close> holds what requests and responses add
    to the common decoder, and is interpreted for both (\<open>rqs\<close>, \<open>rsp\<close>). \<open>HttpServing\<close>: \<open>HttpServer\<close> on the
    connections that \<open>Servers\<close> accepts, from the descriptor to the answers on the wire.
  \<^item> \<open>Conf\<close>: \<open>conf.h\<close>, \<open>conf.cc\<close>. \<open>Files\<close>: \<open>status.h\<close> and \<open>file.cc\<close> over a map from names to contents;
    \<open>Statuses\<close>: \<open>Status\<close> objects as owners of blocks on a heap.
    \<open>Util\<close>: \<open>util.h\<close>, \<open>util.cc\<close> and the descriptor flags of \<open>net.cc\<close>.
  \<^item> \<open>Logging\<close>: \<open>logging.h\<close>, \<open>logging.cc\<close>: levels, lines in their buffer, the macros up to \<open>fatalif\<close>, and the log file over a directory of
    names and inodes; \<open>rot_step\<close> lets several threads run \<open>maybeRotate\<close> at once. \<open>Daemon\<close>: \<open>daemon.cc\<close>, the pid file
    and the life of the daemon process, and the signal handlers. \<open>StatServer\<close>: \<open>stat-svr.cc\<close> over \<open>HttpConn\<close>.
  \<^item> \<open>Pollers\<close>: the kqueue poller on the bookkeeping of \<open>Channel\<close>, and the destructor of both pollers.
  \<^item> \<open>CmdCodes\<close>: all codes of \<open>src/src/codec/SSCmdCode.h\<close>.
  \<^item> \<open>ExtCodec\<close>: \<open>src/src/codec/ExternalMsgCodec\<close>. \<open>StreamBuff\<close>: \<open>src/src/utility/commutil/StreamBuff.hpp\<close>.
  \<^item> \<open>Sessions\<close>: \<open>StoreSession\<close> and \<open>SessionService\<close> over a heap of sessions and the store loop's task queue;
    locale \<open>session_provider\<close>, interpretation \<open>ses\<close>.
  \<^item> \<open>Streams\<close>: \<open>src/src/manager\<close>: plans, and every operation of \<open>StreamMgr\<close> on the record \<open>mgr\<close>, which extends
    \<open>conn\<close>. \<open>Server\<close>: \<open>DSServer.cc\<close>, with its callbacks as a \<open>conn_user\<close> (interpretation \<open>ds\<close>).
    \<open>AdminLoop\<close>: the six-second plan check as a \<open>timer_client\<close> (interpretation \<open>adm\<close>).

  \<^bold>\<open>What the theorems show.\<close> Data: buffers, slices and addresses behave as the lists, orders and texts they
  stand for. Transport: bytes leave in order and arrive complete under every pattern of partial writes and
  reads; the messages of each codec, HTTP requests and responses, protobuf frames, packets on disk and
  configuration files are read back as they were written. Concurrency: no wake-up is lost and \<open>exit\<close> ends a loop, tasks run once and in order, pool
  and half-synchronous server lose nothing under any interleaving, each accepted connection reaches one
  loop, one thread rotates the log. Time: due timers are served as often as they are due, the plan check runs every six seconds,
  and a connection that stays silent for its idle time, and no other, is closed by its loop. Resources: over the life of an event base
  every descriptor is closed once. The
  server: a plan message replaces the plans, the check leaves exactly the scheduled streams recording,
  and with a peer that keeps the protocol the admin thread never fails. Around it: log lines fit their
  buffer and survive a rotation, a started daemon is the one its pid file names, and the statistics server
  answers with what was registered. The remaining theorems
  characterise what goes wrong outside those conditions.

  \<^bold>\<open>Conventions.\<close> A pointer error, a read outside a block, an uninitialised read or a failed \<open>fatalif\<close> is
  \<open>Inl\<close> of its reason; theorems that operations return prove \<open>Inr\<close>. \<open>size_t\<close> and \<open>int\<close> are written out at
  their width where the code can overflow. Allocation succeeds.

  \<^bold>\<open>Loops.\<close> Loops over data are \<open>fun\<close>, or \<open>function\<close> with a measure (the pending bytes of \<open>read_loop\<close>, the
  rest of the head in \<open>header_loop\<close>, the rest of the file in \<open>parse_lines\<close>). Loops that callbacks or the
  peer may prolong (\<open>onMsg_loop\<close>, \<open>drain\<close>, \<open>timeouts_loop\<close>, \<open>idle_loop\<close>, \<open>idles_from\<close>, \<open>ev_loop\<close>, \<open>wait_exit\<close>, \<open>poller_destroy\<close>,
  \<open>close_live\<close>) are partial
  functions into \<open>option\<close>; theorems about them state that they return. There is no fuel.

  \<^bold>\<open>Parameters.\<close> Code outside the repository appears as arguments: protobuf (\<open>'m protobuf\<close>, with the
  round trip of its serialisation as \<open>protobuf_ok\<close>), the results of \<open>read\<close>, \<open>write\<close>, \<open>epoll_wait\<close>, \<open>accept\<close>,
  \<open>bind\<close>, \<open>recvfrom\<close>, \<open>sendto\<close>, \<open>kill\<close>, \<open>fork\<close> and \<open>rename\<close>, \<open>localtime\<close>, \<open>strtod\<close>, the resolver, file contents, and user callbacks.

  \<^bold>\<open>Not modelled.\<close> The generated protobuf classes (parameters); \<open>LoadSession\<close>, which is empty; the manual test programs; accessors
  and forwarding overloads that only pass their arguments on. Idle callbacks are a component of their own, so that \<open>conn_step\<close> does not mention them; \<open>ConnLoop\<close>
  has them beside timers and tasks, with the bytes of a connection reduced to their arrival. The log lines the other components
  write have no effect on their models.
\<close>

end
